(* ===== verification/Prelude.thy ===== *)
theory Prelude
  imports Main "HOL-Library.Word"
begin

section \<open>Shared vocabulary\<close>

text \<open>
  The vocabulary the component theories share. It holds the machine types of the C
  code (\<open>uint8_t\<close> to \<open>uint64_t\<close> as words, an \<open>int\<close> counter as a word that \<open>sint\<close> reads, a
  byte buffer as a list of bytes), the
  collections of facts that the component proofs use, and the generic lemmas on lists.
\<close>

unbundle bit_operations_syntax

type_synonym u8 = "8 word"
type_synonym u16 = "16 word"
type_synonym u32 = "32 word"
type_synonym u64 = "64 word"
type_synonym i32 = "32 word"
type_synonym bytes = "u8 list"

text \<open>
  Simplification facts that describe how a state operation changes an abstract view,
  and elimination facts for the results of fallible operations.
\<close>

named_theorems view_simps \<open>effect of an operation on an abstract view\<close>
named_theorems inv_intros \<open>preservation of well-formedness invariants\<close>

subsection \<open>Lists\<close>

text \<open>
  \<open>update_first P f xs\<close> applies \<open>f\<close> to the first element that satisfies \<open>P\<close>. It models
  a linked-list search that is followed by a write through the pointer it returned.
\<close>

primrec update_first :: "('a \<Rightarrow> bool) \<Rightarrow> ('a \<Rightarrow> 'a) \<Rightarrow> 'a list \<Rightarrow> 'a list" where
  "update_first P f [] = []"
| "update_first P f (x # xs) = (if P x then f x # xs else x # update_first P f xs)"

text \<open>\<open>remove_first P xs\<close> unlinks the first element that satisfies \<open>P\<close>.\<close>

primrec remove_first :: "('a \<Rightarrow> bool) \<Rightarrow> 'a list \<Rightarrow> 'a list" where
  "remove_first P [] = []"
| "remove_first P (x # xs) = (if P x then xs else x # remove_first P xs)"

lemma length_update_first [simp]: "length (update_first P f xs) = length xs"
  by (induction xs) auto

lemma find_update_first_same:
  assumes "\<And>x. P x \<Longrightarrow> P (f x)"
  shows "find P (update_first P f xs) = map_option f (find P xs)"
  using assms by (induction xs) auto

lemma find_update_first_other:
  assumes "\<And>x. P x \<Longrightarrow> \<not> Q x \<and> \<not> Q (f x)"
  shows "find Q (update_first P f xs) = find Q xs"
  using assms by (induction xs) auto

lemma map_update_first:
  assumes "\<And>x. P x \<Longrightarrow> g (f x) = g x"
  shows "map g (update_first P f xs) = map g xs"
  using assms by (induction xs) auto

lemma set_update_first:
  "y \<in> set (update_first P f xs) \<Longrightarrow> y \<in> set xs \<or> (\<exists>x \<in> set xs. P x \<and> y = f x)"
  by (induction xs) (auto split: if_splits)

lemma sum_list_update_first:
  fixes g :: "'a \<Rightarrow> int"
  assumes "find P xs = Some x"
  shows "(\<Sum>y\<leftarrow>update_first P f xs. g y) = (\<Sum>y\<leftarrow>xs. g y) - g x + g (f x)"
  using assms by (induction xs) (auto split: if_splits)

lemma remove_first_absent: "(\<And>x. x \<in> set xs \<Longrightarrow> \<not> P x) \<Longrightarrow> remove_first P xs = xs"
  by (induction xs) auto

lemma set_remove_first_subset: "set (remove_first P xs) \<subseteq> set xs"
  by (induction xs) auto

lemma distinct_remove_first: "distinct xs \<Longrightarrow> distinct (remove_first P xs)"
  using set_remove_first_subset by (induction xs) fastforce+

lemma set_remove_first_eq:
  "distinct xs \<Longrightarrow> set (remove_first (\<lambda>y. y = x) xs) = set xs - {x}"
  by (induction xs) auto

lemma length_remove_first:
  "x \<in> set xs \<Longrightarrow> length (remove_first (\<lambda>y. y = x) xs) = length xs - 1"
  by (induction xs) (auto, metis Suc_pred length_pos_if_in_set)

lemma find_NoneD: "find P xs = None \<Longrightarrow> x \<in> set xs \<Longrightarrow> \<not> P x"
  by (simp add: find_None_iff)

lemma find_SomeD: "find P xs = Some x \<Longrightarrow> x \<in> set xs \<and> P x"
  by (auto simp: find_Some_iff)

subsection \<open>64-bit counters\<close>

definition UINT64_MAX :: u64 where
  "UINT64_MAX = 0xFFFFFFFFFFFFFFFF"

lemma u64_succ_greater: "(s::u64) \<noteq> UINT64_MAX \<Longrightarrow> s < s + 1"
proof -
  assume "s \<noteq> UINT64_MAX"
  then have "unat s \<noteq> 2 ^ 64 - 1" by (simp add: UINT64_MAX_def word_unat_eq_iff)
  moreover have "unat s < 2 ^ LENGTH(64)" by (rule unsigned_less)
  ultimately have "unat (s + 1) = unat s + 1" by (simp add: unat_word_ariths)
  then show ?thesis by (simp add: word_less_nat_alt)
qed

end
