(* ===== verification/Buckets.thy ===== *)
theory Buckets
  imports Prelude
begin

section \<open>Chained hash tables\<close>

text \<open>
  The MVCC store and the transaction registry are both an array of singly linked lists:
  an entry is prepended to the list of the bucket its key hashes to, and a search walks
  that list from its head. This theory holds the three pointer operations on such an
  array (search, prepend, write through the pointer a search returned) and the locale
  \<open>bucket_table\<close>, the contract between a hash function and the searches that use it.
  Every fact about where an entry is found is proved once, in the locale.
\<close>

definition bucket_find :: "('e \<Rightarrow> bool) \<Rightarrow> 'e list list \<Rightarrow> nat \<Rightarrow> 'e option" where
  "bucket_find P bs b = find P (bs ! b)"

definition bucket_push :: "'e list list \<Rightarrow> nat \<Rightarrow> 'e \<Rightarrow> 'e list list" where
  "bucket_push bs b e = bs[b := e # bs ! b]"

definition bucket_modify ::
    "('e \<Rightarrow> bool) \<Rightarrow> ('e \<Rightarrow> 'e) \<Rightarrow> 'e list list \<Rightarrow> nat \<Rightarrow> 'e list list" where
  "bucket_modify P f bs b = bs[b := update_first P f (bs ! b)]"

lemma length_bucket_push [simp]: "length (bucket_push bs b e) = length bs"
  by (simp add: bucket_push_def)

lemma length_bucket_modify [simp]: "length (bucket_modify P f bs b) = length bs"
  by (simp add: bucket_modify_def)

text \<open>
  Entries counted over the whole array: a prepend adds the new entry's weight and a write
  through a pointer exchanges the weight of one entry.
\<close>

definition bucket_sum :: "('e \<Rightarrow> int) \<Rightarrow> 'e list list \<Rightarrow> int" where
  "bucket_sum g bs = (\<Sum>b\<leftarrow>bs. \<Sum>e\<leftarrow>b. g e)"

lemma sum_list_update_int:
  fixes h :: "'a \<Rightarrow> int"
  assumes "b < length bs"
  shows "(\<Sum>x\<leftarrow>bs[b := y]. h x) = (\<Sum>x\<leftarrow>bs. h x) - h (bs ! b) + h y"
  using assms
proof (induction bs arbitrary: b)
  case Nil
  then show ?case by simp
next
  case (Cons a bs)
  then show ?case by (cases b) auto
qed

lemma bucket_sum_push:
  "b < length bs \<Longrightarrow> bucket_sum g (bucket_push bs b e) = bucket_sum g bs + g e"
  by (simp add: bucket_sum_def bucket_push_def sum_list_update_int)

lemma bucket_sum_modify:
  assumes "b < length bs" and "find P (bs ! b) = Some e"
  shows "bucket_sum g (bucket_modify P f bs b) = bucket_sum g bs - g e + g (f e)"
  using assms
  by (simp add: bucket_sum_def bucket_modify_def sum_list_update_int sum_list_update_first)

lemma bucket_sum_replicate_Nil [simp]: "bucket_sum g (replicate n []) = 0"
  by (induction n) (simp_all add: bucket_sum_def)

text \<open>
  The contract: a hash function that stays inside the array, and the key of an entry. A
  table is well formed if every entry lies in the bucket of its key.
\<close>

locale bucket_table =
  fixes hash :: "'k \<Rightarrow> nat \<Rightarrow> nat"
    and key_of :: "'e \<Rightarrow> 'k"
  assumes hash_bound: "0 < n \<Longrightarrow> hash k n < n"
begin

definition placed :: "nat \<Rightarrow> 'e list list \<Rightarrow> bool" where
  "placed n bs \<longleftrightarrow> 0 < n \<and> length bs = n \<and>
     (\<forall>b < n. \<forall>e \<in> set (bs ! b). hash (key_of e) n = b)"

definition unique_keys :: "'e list list \<Rightarrow> bool" where
  "unique_keys bs \<longleftrightarrow> (\<forall>b < length bs. distinct (map key_of (bs ! b)))"

definition search :: "nat \<Rightarrow> 'e list list \<Rightarrow> 'k \<Rightarrow> 'e option" where
  "search n bs k = bucket_find (\<lambda>e. key_of e = k) bs (hash k n)"

lemma hash_in_array [simp]: "bs \<noteq> [] \<Longrightarrow> hash k (length bs) < length bs"
  by (simp add: hash_bound)

lemma placed_empty: "0 < n \<Longrightarrow> placed n (replicate n [])"
  by (simp add: placed_def)

lemma search_empty: "0 < n \<Longrightarrow> search n (replicate n []) k = None"
  by (simp add: search_def bucket_find_def hash_bound)

lemma placed_push: "placed n bs \<Longrightarrow> placed n (bucket_push bs (hash (key_of e) n) e)"
  by (auto simp: placed_def bucket_push_def nth_list_update split: if_splits)

lemma search_push:
  assumes "placed n bs"
  shows "search n (bucket_push bs (hash (key_of e) n) e) k =
           (if k = key_of e then Some e else search n bs k)"
  using assms
  by (auto simp: placed_def search_def bucket_find_def bucket_push_def nth_list_update hash_bound)

lemma placed_modify:
  assumes "placed n bs" and "\<And>e. key_of (f e) = key_of e"
  shows "placed n (bucket_modify P f bs b)"
proof -
  have "hash (key_of y) n = c"
    if "c < n" "y \<in> set (bucket_modify P f bs b ! c)" for c y
  proof (cases "c = b")
    case True
    with that assms(1) have "y \<in> set (update_first P f (bs ! b))"
      by (simp add: bucket_modify_def placed_def)
    from set_update_first [OF this] assms True that show ?thesis
      by (auto simp: placed_def)
  next
    case False
    with that assms(1) show ?thesis by (auto simp: bucket_modify_def placed_def)
  qed
  with assms(1) show ?thesis by (auto simp: placed_def)
qed

lemma search_modify:
  assumes "placed n bs" and "\<And>e. key_of (f e) = key_of e"
  shows "search n (bucket_modify (\<lambda>e. key_of e = k) f bs (hash k n)) k' =
           (if k' = k then map_option f (search n bs k) else search n bs k')"
proof (cases "k' = k")
  case True
  have "find (\<lambda>e. key_of e = k) (update_first (\<lambda>e. key_of e = k) f xs) =
          map_option f (find (\<lambda>e. key_of e = k) xs)" for xs
    by (rule find_update_first_same) (simp add: assms(2))
  with True assms(1) show ?thesis
    by (simp add: search_def bucket_find_def bucket_modify_def placed_def hash_bound)
next
  case False
  have "find (\<lambda>e. key_of e = k') (update_first (\<lambda>e. key_of e = k) f xs) =
          find (\<lambda>e. key_of e = k') xs" for xs
    by (rule find_update_first_other) (use False in \<open>auto simp: assms(2)\<close>)
  with False assms(1) show ?thesis
    by (auto simp: search_def bucket_find_def bucket_modify_def placed_def hash_bound
        nth_list_update)
qed

lemma search_key: "search n bs k = Some e \<Longrightarrow> key_of e = k"
  by (auto simp: search_def bucket_find_def dest: find_SomeD)

lemma search_member:
  "placed n bs \<Longrightarrow> search n bs k = Some e \<Longrightarrow> \<exists>b < length bs. e \<in> set (bs ! b)"
  unfolding search_def bucket_find_def placed_def
  by (metis find_SomeD hash_bound)

lemma unique_push:
  assumes "placed n bs" "unique_keys bs" "search n bs (key_of e) = None"
  shows "unique_keys (bucket_push bs (hash (key_of e) n) e)"
proof -
  have "key_of e \<notin> key_of ` set (bs ! hash (key_of e) n)"
    using assms(3) by (auto simp: search_def bucket_find_def find_None_iff)
  with assms(1,2) show ?thesis
    by (auto simp: unique_keys_def bucket_push_def placed_def nth_list_update)
qed

lemma unique_modify:
  assumes "unique_keys bs" and "\<And>e. key_of (f e) = key_of e"
  shows "unique_keys (bucket_modify P f bs b)"
  using assms
  unfolding unique_keys_def bucket_modify_def
  by (metis length_list_update map_update_first nth_list_update nth_list_update_neq)

end

end
