(* ===== verification/Mvcc.thy ===== *)
theory Mvcc
  imports Buckets
begin

section \<open>The MVCC version store\<close>

text \<open>
  Model of \<^verbatim>\<open>src/tractable/qihse_mvcc.c\<close>. A row is a version chain, newest version first;
  rows live in a chained hash table. A delete does not mark a version: it prepends a
  delete intent, a marker that a read resolves with the commit status of transactions.

  Conventions. A pointer and length pair is \<open>bytes option\<close>, with \<open>None\<close> for a NULL pointer;
  the length is the length of the list. The callback \<open>is_committed\<close> is an optional predicate
  on transaction ids, with \<open>None\<close> for a NULL callback. Memory comes from the store's arena;
  whether an allocation succeeds is an input, the record \<open>mvcc_alloc\<close>. The store's mutex
  makes each locked section atomic, so a section is one function of the state. Every operation is
  one section, except that an update of a missing row ends its own section and then calls insert:
  with other threads between the two it is a look-up followed, later, by an insert of the same
  transaction. Return codes are the C codes 0 and -1. The counters are C ints, 32 bits wide; where
  incrementing one would overflow, which C leaves undefined, the model wraps.
\<close>

definition QIHSE_MVCC_INVALID_XMAX :: u64 where
  "QIHSE_MVCC_INVALID_XMAX = 0"

definition QIHSE_MVCC_MAX_KEY :: nat where
  "QIHSE_MVCC_MAX_KEY = 256"

record mvcc_version =
  xmin :: u64
  xmax :: u64
  ver_value :: bytes
  is_delete :: bool
  delete_snapshot :: u64

record mvcc_row =
  row_engine :: u8
  row_key :: bytes
  row_head :: "mvcc_version list"

record mvcc_store =
  n_buckets :: nat
  buckets :: "mvcc_row list list"
  total_versions :: i32
  total_rows :: i32

record mvcc_alloc =
  alloc_row :: bool
  alloc_version :: bool
  alloc_value :: bool

type_synonym committed_cb = "(u64 \<Rightarrow> bool) option"

definition mvcc_hash :: "u8 \<Rightarrow> bytes \<Rightarrow> nat \<Rightarrow> nat" where
  "mvcc_hash engine key n =
     unat (fold (\<lambda>b h. h * 31 + ucast b) key (ucast engine * 31 :: u64)) mod n"

definition row_matches :: "u8 \<Rightarrow> bytes \<Rightarrow> mvcc_row \<Rightarrow> bool" where
  "row_matches engine key r \<longleftrightarrow>
     row_engine r = engine \<and> length (row_key r) = length key \<and> row_key r = key"

definition row_lookup :: "mvcc_store \<Rightarrow> u8 \<Rightarrow> bytes \<Rightarrow> mvcc_row option" where
  "row_lookup st engine key =
     bucket_find (row_matches engine key) (buckets st) (mvcc_hash engine key (n_buckets st))"

definition row_create ::
    "mvcc_alloc \<Rightarrow> mvcc_store \<Rightarrow> u8 \<Rightarrow> bytes \<Rightarrow> mvcc_store option" where
  "row_create al st engine key =
     (if length key \<ge> QIHSE_MVCC_MAX_KEY then None
      else if \<not> alloc_row al then None
      else Some (st\<lparr>buckets := bucket_push (buckets st) (mvcc_hash engine key (n_buckets st))
                       \<lparr>row_engine = engine, row_key = key, row_head = []\<rparr>,
                   total_rows := total_rows st + 1\<rparr>))"

definition version_create :: "mvcc_alloc \<Rightarrow> u64 \<Rightarrow> bytes option \<Rightarrow> mvcc_version option" where
  "version_create al txn_id val =
     (if \<not> alloc_version al then None
      else (case val of
              None \<Rightarrow> Some \<lparr>xmin = txn_id, xmax = QIHSE_MVCC_INVALID_XMAX, ver_value = [],
                            is_delete = False, delete_snapshot = 0\<rparr>
            | Some bs \<Rightarrow>
                if bs = [] then
                  Some \<lparr>xmin = txn_id, xmax = QIHSE_MVCC_INVALID_XMAX, ver_value = [],
                        is_delete = False, delete_snapshot = 0\<rparr>
                else if \<not> alloc_value al then None
                else Some \<lparr>xmin = txn_id, xmax = QIHSE_MVCC_INVALID_XMAX, ver_value = bs,
                           is_delete = False, delete_snapshot = 0\<rparr>))"

text \<open>
  A write through the row pointer that \<open>row_lookup\<close> returned: the chain of that row is
  replaced by \<open>f\<close> of it.
\<close>

definition row_write ::
    "mvcc_store \<Rightarrow> u8 \<Rightarrow> bytes \<Rightarrow> (mvcc_version list \<Rightarrow> mvcc_version list) \<Rightarrow> mvcc_store" where
  "row_write st engine key f =
     st\<lparr>buckets := bucket_modify (row_matches engine key)
                     (\<lambda>r. r\<lparr>row_head := f (row_head r)\<rparr>)
                     (buckets st) (mvcc_hash engine key (n_buckets st))\<rparr>"

text \<open>The store that creation returns, and creation with its three allocations.\<close>

definition mvcc_fresh :: "nat \<Rightarrow> mvcc_store" where
  "mvcc_fresh initial_buckets =
     (let n = (if initial_buckets = 0 then 1024 else initial_buckets) in
      \<lparr>n_buckets = n, buckets = replicate n [], total_versions = 0, total_rows = 0\<rparr>)"

definition qihse_mvcc_store_create :: "bool \<Rightarrow> bool \<Rightarrow> bool \<Rightarrow> nat \<Rightarrow> mvcc_store option" where
  "qihse_mvcc_store_create ok_store ok_arena ok_buckets initial_buckets =
     (if \<not> ok_store then None
      else if \<not> ok_arena then None
      else if \<not> ok_buckets then None
      else Some (mvcc_fresh initial_buckets))"

definition qihse_mvcc_insert ::
    "mvcc_alloc \<Rightarrow> mvcc_store \<Rightarrow> u8 \<Rightarrow> bytes option \<Rightarrow> bytes option \<Rightarrow> u64 \<Rightarrow> int \<times> mvcc_store" where
  "qihse_mvcc_insert al st engine key val txn_id =
     (case key of
        None \<Rightarrow> (-1, st)
      | Some k \<Rightarrow>
          if length k \<ge> QIHSE_MVCC_MAX_KEY then (-1, st)
          else
            (case (if row_lookup st engine k = None then row_create al st engine k else Some st) of
               None \<Rightarrow> (-1, st)
             | Some st1 \<Rightarrow>
                 (case version_create al txn_id val of
                    None \<Rightarrow> (-1, st1)
                  | Some v \<Rightarrow>
                      (0, (row_write st1 engine k (\<lambda>head. v # head))
                            \<lparr>total_versions := total_versions st1 + 1\<rparr>))))"

definition qihse_mvcc_delete ::
    "mvcc_alloc \<Rightarrow> mvcc_store \<Rightarrow> u8 \<Rightarrow> bytes option \<Rightarrow> u64 \<Rightarrow> int \<times> mvcc_store" where
  "qihse_mvcc_delete al st engine key txn_id =
     (case key of
        None \<Rightarrow> (-1, st)
      | Some k \<Rightarrow>
          (case row_lookup st engine k of
             None \<Rightarrow> (-1, st)
           | Some r \<Rightarrow>
               if row_head r = [] then (-1, st)
               else
                 (case version_create al txn_id None of
                    None \<Rightarrow> (-1, st)
                  | Some v \<Rightarrow>
                      (0, (row_write st engine k
                             (\<lambda>head. v\<lparr>is_delete := True, delete_snapshot := txn_id\<rparr> # head))
                            \<lparr>total_versions := total_versions st + 1\<rparr>))))"

text \<open>
  The newest data version, the first node that is not a delete intent, is marked as
  superseded unless it already carries a mark.
\<close>

definition supersede :: "u64 \<Rightarrow> mvcc_version list \<Rightarrow> mvcc_version list" where
  "supersede txn_id =
     update_first (\<lambda>v. \<not> is_delete v)
       (\<lambda>v. if xmax v = QIHSE_MVCC_INVALID_XMAX then v\<lparr>xmax := txn_id\<rparr> else v)"

text \<open>
  The locked section of an update: no result when the row is missing, where the lock is
  released before \<open>qihse_mvcc_insert\<close> takes it again.
\<close>

definition update_section ::
    "mvcc_alloc \<Rightarrow> mvcc_store \<Rightarrow> u8 \<Rightarrow> bytes \<Rightarrow> bytes option \<Rightarrow> u64 \<Rightarrow> (int \<times> mvcc_store) option" where
  "update_section al st engine k val txn_id =
     (if row_lookup st engine k = None then None
      else
        let st1 = row_write st engine k (supersede txn_id) in
        (case version_create al txn_id val of
           None \<Rightarrow> Some (-1, st1)
         | Some v \<Rightarrow>
             Some (0, (row_write st1 engine k (\<lambda>head. v # head))
                        \<lparr>total_versions := total_versions st1 + 1\<rparr>)))"

definition qihse_mvcc_update ::
    "mvcc_alloc \<Rightarrow> mvcc_store \<Rightarrow> u8 \<Rightarrow> bytes option \<Rightarrow> bytes option \<Rightarrow> u64 \<Rightarrow> int \<times> mvcc_store" where
  "qihse_mvcc_update al st engine key val txn_id =
     (case key of
        None \<Rightarrow> (-1, st)
      | Some k \<Rightarrow>
          if length k \<ge> QIHSE_MVCC_MAX_KEY then (-1, st)
          else
            (case update_section al st engine k val txn_id of
               Some res \<Rightarrow> res
             | None \<Rightarrow> qihse_mvcc_insert al st engine key val txn_id))"

subsection \<open>Reading\<close>

definition cb_holds :: "committed_cb \<Rightarrow> u64 \<Rightarrow> bool" where
  "cb_holds cb t = (case cb of None \<Rightarrow> True | Some f \<Rightarrow> f t)"

definition version_visible :: "mvcc_version \<Rightarrow> u64 \<Rightarrow> committed_cb \<Rightarrow> bool" where
  "version_visible v snapshot is_committed =
     (if xmin v > snapshot then False
      else if \<not> cb_holds is_committed (xmin v) then False
      else if xmax v = QIHSE_MVCC_INVALID_XMAX then True
      else if xmax v > snapshot then True
      else if \<not> cb_holds is_committed (xmax v) then True
      else False)"

text \<open>
  The walk of \<open>version_deleted_by_intent\<close> goes from the head of the chain down to \<open>v\<close>; its
  first argument is that part of the chain.
\<close>

primrec version_deleted_by_intent ::
    "mvcc_version list \<Rightarrow> mvcc_version \<Rightarrow> u64 \<Rightarrow> committed_cb \<Rightarrow> bool" where
  "version_deleted_by_intent [] v snapshot is_committed = False"
| "version_deleted_by_intent (p # ps) v snapshot is_committed =
     (if \<not> is_delete p then version_deleted_by_intent ps v snapshot is_committed
      else if xmin p > snapshot then version_deleted_by_intent ps v snapshot is_committed
      else if \<not> cb_holds is_committed (xmin p)
      then version_deleted_by_intent ps v snapshot is_committed
      else if version_visible v (delete_snapshot p) is_committed then True
      else version_deleted_by_intent ps v snapshot is_committed)"

text \<open>
  The loop of \<open>qihse_mvcc_read\<close>: \<open>i\<close> nodes of \<open>head\<close> have been passed, \<open>intents\<close> of them
  delete intents, and the last argument is the rest of the chain.
\<close>

fun read_walk ::
    "mvcc_version list \<Rightarrow> nat \<Rightarrow> nat \<Rightarrow> u64 \<Rightarrow> committed_cb \<Rightarrow> mvcc_version list \<Rightarrow> bytes option" where
  "read_walk head i intents snapshot is_committed [] = None"
| "read_walk head i intents snapshot is_committed (v # rest) =
     (if is_delete v then read_walk head (Suc i) (Suc intents) snapshot is_committed rest
      else if version_visible v snapshot is_committed \<and>
              (intents = 0 \<or>
               \<not> version_deleted_by_intent (take i head) v snapshot is_committed)
      then Some (ver_value v)
      else read_walk head (Suc i) intents snapshot is_committed rest)"

definition qihse_mvcc_read ::
    "mvcc_store \<Rightarrow> u8 \<Rightarrow> bytes option \<Rightarrow> u64 \<Rightarrow> committed_cb \<Rightarrow> bytes option" where
  "qihse_mvcc_read st engine key snapshot is_committed =
     (case key of
        None \<Rightarrow> None
      | Some k \<Rightarrow>
          (case row_lookup st engine k of
             None \<Rightarrow> None
           | Some r \<Rightarrow> read_walk (row_head r) 0 0 snapshot is_committed (row_head r)))"

definition qihse_mvcc_exists ::
    "mvcc_store \<Rightarrow> u8 \<Rightarrow> bytes option \<Rightarrow> u64 \<Rightarrow> committed_cb \<Rightarrow> bool" where
  "qihse_mvcc_exists st engine key snapshot is_committed =
     (qihse_mvcc_read st engine key snapshot is_committed \<noteq> None)"

subsection \<open>Garbage collection\<close>

definition qihse_mvcc_min_active_snapshot :: "mvcc_store \<Rightarrow> u64" where
  "qihse_mvcc_min_active_snapshot st = 0"

primrec gc_chain :: "u64 \<Rightarrow> mvcc_version list \<Rightarrow> mvcc_version list \<times> int" where
  "gc_chain min_snapshot [] = ([], 0)"
| "gc_chain min_snapshot (v # rest) =
     (let (rest', n) = gc_chain min_snapshot rest in
      if is_delete v then (v # rest', n)
      else if xmax v \<noteq> QIHSE_MVCC_INVALID_XMAX \<and> xmax v < min_snapshot then (rest', n + 1)
      else (v # rest', n))"

definition gc_row :: "u64 \<Rightarrow> mvcc_row \<Rightarrow> mvcc_row" where
  "gc_row min_snapshot r = r\<lparr>row_head := fst (gc_chain min_snapshot (row_head r))\<rparr>"

definition qihse_mvcc_gc :: "mvcc_store \<Rightarrow> u64 \<Rightarrow> int \<times> mvcc_store" where
  "qihse_mvcc_gc st min_snapshot =
     (let reclaimed =
            (of_int (bucket_sum (\<lambda>r. snd (gc_chain min_snapshot (row_head r))) (buckets st)) :: i32) in
      (sint reclaimed,
       st\<lparr>buckets := map (map (gc_row min_snapshot)) (buckets st),
          total_versions := total_versions st - reclaimed\<rparr>))"

definition qihse_mvcc_vacuum :: "mvcc_store \<Rightarrow> u64 \<Rightarrow> int \<times> mvcc_store" where
  "qihse_mvcc_vacuum st min_snapshot = qihse_mvcc_gc st min_snapshot"

definition qihse_mvcc_version_count :: "mvcc_store \<Rightarrow> int" where
  "qihse_mvcc_version_count st = sint (total_versions st)"

definition qihse_mvcc_row_count :: "mvcc_store \<Rightarrow> int" where
  "qihse_mvcc_row_count st = sint (total_rows st)"

subsection \<open>Views and invariant\<close>

text \<open>The version chain of a key; a key without a row has an empty chain.\<close>

definition chain_of :: "mvcc_store \<Rightarrow> u8 \<Rightarrow> bytes \<Rightarrow> mvcc_version list" where
  "chain_of st engine key =
     (case row_lookup st engine key of None \<Rightarrow> [] | Some r \<Rightarrow> row_head r)"

text \<open>
  The one mutation a transaction makes: the three writers of the store as data, as the
  write-ahead log records them.
\<close>

datatype mvcc_op =
    MInsert u8 "bytes option" "bytes option"
  | MUpdate u8 "bytes option" "bytes option"
  | MDelete u8 "bytes option"

fun mvcc_apply :: "mvcc_alloc \<Rightarrow> mvcc_store \<Rightarrow> u64 \<Rightarrow> mvcc_op \<Rightarrow> int \<times> mvcc_store" where
  "mvcc_apply al st t (MInsert e k v) = qihse_mvcc_insert al st e k v t"
| "mvcc_apply al st t (MUpdate e k v) = qihse_mvcc_update al st e k v t"
| "mvcc_apply al st t (MDelete e k) = qihse_mvcc_delete al st e k t"

text \<open>
  A delete intent records its own transaction as the snapshot it is evaluated at and is
  never superseded. The store invariant: every row lies in the bucket of its key, keys are
  unique and short, intents are well formed, and the two counters count modulo 2^32.
\<close>

definition intent_ok :: "mvcc_version \<Rightarrow> bool" where
  "intent_ok v \<longleftrightarrow>
     (is_delete v \<longrightarrow> delete_snapshot v = xmin v \<and> xmax v = QIHSE_MVCC_INVALID_XMAX)"

definition row_ok :: "mvcc_row \<Rightarrow> bool" where
  "row_ok r \<longleftrightarrow> length (row_key r) < QIHSE_MVCC_MAX_KEY \<and> (\<forall>v \<in> set (row_head r). intent_ok v)"

definition mvcc_inv :: "mvcc_store \<Rightarrow> bool" where
  "mvcc_inv st \<longleftrightarrow>
     0 < n_buckets st \<and> length (buckets st) = n_buckets st \<and>
     (\<forall>b < n_buckets st. \<forall>r \<in> set (buckets st ! b).
        mvcc_hash (row_engine r) (row_key r) (n_buckets st) = b \<and> row_ok r) \<and>
     (\<forall>b < n_buckets st. distinct (map (\<lambda>r. (row_engine r, row_key r)) (buckets st ! b))) \<and>
     total_rows st = of_int (bucket_sum (\<lambda>r. 1) (buckets st)) \<and>
     total_versions st = of_int (bucket_sum (\<lambda>r. int (length (row_head r))) (buckets st))"

interpretation rows: bucket_table "\<lambda>(e, k) n. mvcc_hash e k n" "\<lambda>r. (row_engine r, row_key r)"
  by unfold_locales (auto simp: mvcc_hash_def)

lemma row_matches_key: "row_matches e k = (\<lambda>r. (row_engine r, row_key r) = (e, k))"
  by (auto simp: row_matches_def)

lemma row_lookup_search: "row_lookup st e k = rows.search (n_buckets st) (buckets st) (e, k)"
  by (simp add: row_lookup_def rows.search_def row_matches_key)

lemma row_write_modify:
  "row_write st e k f =
     st\<lparr>buckets := bucket_modify (\<lambda>r. (row_engine r, row_key r) = (e, k))
                     (\<lambda>r. r\<lparr>row_head := f (row_head r)\<rparr>)
                     (buckets st) (mvcc_hash e k (n_buckets st))\<rparr>"
  by (simp add: row_write_def row_matches_key)

lemma mvcc_inv_placed: "mvcc_inv st \<Longrightarrow> rows.placed (n_buckets st) (buckets st)"
  by (auto simp: mvcc_inv_def rows.placed_def)

lemma mvcc_inv_unique: "mvcc_inv st \<Longrightarrow> rows.unique_keys (buckets st)"
  by (auto simp: mvcc_inv_def rows.unique_keys_def)

lemma mvcc_inv_row_ok: "mvcc_inv st \<Longrightarrow> b < n_buckets st \<Longrightarrow> r \<in> set (buckets st ! b) \<Longrightarrow> row_ok r"
  by (auto simp: mvcc_inv_def)

lemma mvcc_invI:
  assumes "rows.placed (n_buckets st) (buckets st)" "rows.unique_keys (buckets st)"
    and "\<And>b r. b < n_buckets st \<Longrightarrow> r \<in> set (buckets st ! b) \<Longrightarrow> row_ok r"
    and "total_rows st = of_int (bucket_sum (\<lambda>r. 1) (buckets st))"
    and "total_versions st = of_int (bucket_sum (\<lambda>r. int (length (row_head r))) (buckets st))"
  shows "mvcc_inv st"
  using assms by (auto simp: mvcc_inv_def rows.placed_def rows.unique_keys_def)

text \<open>How the three primitive writes change the chain view.\<close>

lemma row_lookup_write [view_simps]:
  assumes "mvcc_inv st"
  shows "row_lookup (row_write st e k f) e' k' =
           (if (e', k') = (e, k)
            then map_option (\<lambda>r. r\<lparr>row_head := f (row_head r)\<rparr>) (row_lookup st e k)
            else row_lookup st e' k')"
  using rows.search_modify [OF mvcc_inv_placed [OF assms],
      where f = "\<lambda>r. r\<lparr>row_head := f (row_head r)\<rparr>" and k = "(e, k)" and k' = "(e', k')"]
  by (simp add: row_lookup_search row_write_modify)

lemma chain_of_write [view_simps]:
  assumes "mvcc_inv st" and "row_lookup st e k \<noteq> None"
  shows "chain_of (row_write st e k f) e' k' =
           (if (e', k') = (e, k) then f (chain_of st e k) else chain_of st e' k')"
  using assms by (auto simp: chain_of_def row_lookup_write)

lemma chain_of_total [simp]: "chain_of (st\<lparr>total_versions := n\<rparr>) = chain_of st"
  by (simp add: chain_of_def row_lookup_def fun_eq_iff)

lemma row_lookup_total [simp]: "row_lookup (st\<lparr>total_versions := n\<rparr>) = row_lookup st"
  by (simp add: row_lookup_def fun_eq_iff)

lemma row_create_view:
  assumes "mvcc_inv st" and "row_create al st e k = Some st'" and "row_lookup st e k = None"
  shows "chain_of st' = chain_of st" and "row_lookup st' e k \<noteq> None"
proof -
  let ?r = "\<lparr>row_engine = e, row_key = k, row_head = []\<rparr>"
  have look: "row_lookup st' e' k' = (if (e', k') = (e, k) then Some ?r else row_lookup st e' k')"
    for e' k'
    using rows.search_push [OF mvcc_inv_placed [OF assms(1)], of ?r "(e', k')"] assms(2)
    by (auto simp: row_create_def row_lookup_search split: if_splits)
  then show "chain_of st' = chain_of st"
    using assms(3) by (auto simp: chain_of_def fun_eq_iff)
  show "row_lookup st' e k \<noteq> None" by (simp add: look)
qed

lemma row_create_inv [inv_intros]:
  assumes inv: "mvcc_inv st" and new: "row_create al st e k = Some st'"
    and absent: "row_lookup st e k = None"
  shows "mvcc_inv st'"
proof -
  let ?r = "\<lparr>row_engine = e, row_key = k, row_head = []\<rparr>"
  let ?b = "mvcc_hash e k (n_buckets st)"
  from new have st': "st' = st\<lparr>buckets := bucket_push (buckets st) ?b ?r,
      total_rows := total_rows st + 1\<rparr>" and short: "length k < QIHSE_MVCC_MAX_KEY"
    by (auto simp: row_create_def split: if_splits)
  from inv have b: "?b < length (buckets st)"
    by (simp add: mvcc_inv_def mvcc_hash_def)
  show ?thesis
  proof (rule mvcc_invI)
    show "rows.placed (n_buckets st') (buckets st')"
      using rows.placed_push [OF mvcc_inv_placed [OF inv], of ?r] by (simp add: st')
    show "rows.unique_keys (buckets st')"
      using rows.unique_push [OF mvcc_inv_placed [OF inv] mvcc_inv_unique [OF inv], of ?r] absent
      by (simp add: st' row_lookup_search)
    show "row_ok r" if "c < n_buckets st'" "r \<in> set (buckets st' ! c)" for c r
      using that inv short b mvcc_inv_row_ok [OF inv]
      by (auto simp: st' bucket_push_def nth_list_update row_ok_def mvcc_inv_def split: if_splits)
    show "total_rows st' = of_int (bucket_sum (\<lambda>r. 1) (buckets st'))"
      using inv bucket_sum_push [OF b, of "\<lambda>_. 1" ?r] by (simp add: st' mvcc_inv_def)
    show "total_versions st' = of_int (bucket_sum (\<lambda>r. int (length (row_head r))) (buckets st'))"
      using inv bucket_sum_push [OF b, of "\<lambda>r. int (length (row_head r))" ?r]
      by (simp add: st' mvcc_inv_def)
  qed
qed

text \<open>
  A chain may be replaced by any chain with well-formed intents, if the version counter
  follows its length.
\<close>

lemma row_write_inv [inv_intros]:
  assumes inv: "mvcc_inv st" and row: "row_lookup st e k \<noteq> None"
    and ok: "\<And>c. \<forall>v \<in> set c. intent_ok v \<Longrightarrow> \<forall>v \<in> set (f c). intent_ok v"
    and len: "n = total_versions st + of_int (int (length (f (chain_of st e k))) - int (length (chain_of st e k)))"
  shows "mvcc_inv ((row_write st e k f)\<lparr>total_versions := n\<rparr>)" (is "mvcc_inv ?st'")
proof -
  let ?P = "\<lambda>r. (row_engine r, row_key r) = (e, k)"
  let ?g = "\<lambda>r. r\<lparr>row_head := f (row_head r)\<rparr>"
  let ?b = "mvcc_hash e k (n_buckets st)"
  let ?bs = "bucket_modify ?P ?g (buckets st) ?b"
  have st': "?st' = st\<lparr>buckets := ?bs, total_versions := n\<rparr>"
    by (simp add: row_write_modify)
  from inv have b: "?b < length (buckets st)" and lb: "length (buckets st) = n_buckets st"
    by (simp_all add: mvcc_inv_def mvcc_hash_def)
  from row obtain r where r: "find ?P (buckets st ! ?b) = Some r"
    by (auto simp: row_lookup_def bucket_find_def row_matches_key)
  then have chain: "chain_of st e k = row_head r"
    by (simp add: chain_of_def row_lookup_def bucket_find_def row_matches_key)
  have okg: "row_ok (?g x)" if "row_ok x" for x
    using that ok [of "row_head x"] by (simp add: row_ok_def)
  have placed: "rows.placed (n_buckets st) ?bs"
    by (rule rows.placed_modify [OF mvcc_inv_placed [OF inv]]) simp
  have unique: "rows.unique_keys ?bs"
    by (rule rows.unique_modify [OF mvcc_inv_unique [OF inv]]) simp
  have rok: "row_ok x" if "c < n_buckets st" "x \<in> set (?bs ! c)" for c x
  proof (cases "c = ?b")
    case True
    with that b have "x \<in> set (update_first ?P ?g (buckets st ! ?b))"
      by (simp add: bucket_modify_def)
    from set_update_first [OF this] show ?thesis
      using okg mvcc_inv_row_ok [OF inv that(1)] True by auto
  next
    case False
    with that show ?thesis
      using mvcc_inv_row_ok [OF inv that(1)] by (simp add: bucket_modify_def)
  qed
  have rows: "total_rows st = of_int (bucket_sum (\<lambda>r. 1) ?bs)"
    using inv bucket_sum_modify [OF b r, of "\<lambda>_. 1" ?g] by (simp add: mvcc_inv_def)
  have vers: "n = of_int (bucket_sum (\<lambda>r. int (length (row_head r))) ?bs)"
    using inv len chain bucket_sum_modify [OF b r, of "\<lambda>r. int (length (row_head r))" ?g]
    by (simp add: mvcc_inv_def)
  show ?thesis unfolding st'
    by (rule mvcc_invI) (use placed unique rok rows vers in simp_all)
qed

subsection \<open>Effect of the writers\<close>

definition value_bytes :: "bytes option \<Rightarrow> bytes" where
  "value_bytes val = (case val of None \<Rightarrow> [] | Some bs \<Rightarrow> bs)"

lemma version_create_Some:
  assumes "version_create al t val = Some v"
  shows "xmin v = t" "xmax v = QIHSE_MVCC_INVALID_XMAX" "\<not> is_delete v" "ver_value v = value_bytes val"
  using assms by (auto simp: version_create_def value_bytes_def split: option.splits if_splits)

lemma length_supersede [simp]: "length (supersede t c) = length c"
  by (simp add: supersede_def)

lemma supersede_Nil [simp]: "supersede t [] = []"
  by (simp add: supersede_def)

lemma supersede_intents: "\<forall>v \<in> set c. intent_ok v \<Longrightarrow> \<forall>v \<in> set (supersede t c). intent_ok v"
  unfolding supersede_def by (induction c) (auto simp: intent_ok_def)

lemma row_lookup_intents:
  assumes "mvcc_inv st" and "row_lookup st e k = Some r"
  shows "row_ok r"
proof -
  from rows.search_member [OF mvcc_inv_placed [OF assms(1)]] assms(2)
  obtain b where b: "b < length (buckets st)" "r \<in> set (buckets st ! b)"
    unfolding row_lookup_search by blast
  have "length (buckets st) = n_buckets st"
    using assms(1) unfolding mvcc_inv_def by blast
  with b show ?thesis by (intro mvcc_inv_row_ok [OF assms(1)]) simp_all
qed

lemma chain_of_intents: "mvcc_inv st \<Longrightarrow> v \<in> set (chain_of st e k) \<Longrightarrow> intent_ok v"
  by (cases "row_lookup st e k") (auto simp: chain_of_def row_ok_def dest: row_lookup_intents)

text \<open>Prepending a node to an existing row: the common tail of all three writers.\<close>

definition row_push :: "mvcc_store \<Rightarrow> u8 \<Rightarrow> bytes \<Rightarrow> mvcc_version \<Rightarrow> mvcc_store" where
  "row_push st e k v =
     (row_write st e k (\<lambda>head. v # head))\<lparr>total_versions := total_versions st + 1\<rparr>"

lemma row_push_inv [inv_intros]:
  assumes "mvcc_inv st" "row_lookup st e k \<noteq> None" "intent_ok v"
  shows "mvcc_inv (row_push st e k v)"
  unfolding row_push_def by (rule row_write_inv) (use assms in auto)

lemma chain_of_push [view_simps]:
  assumes "mvcc_inv st" "row_lookup st e k \<noteq> None"
  shows "chain_of (row_push st e k v) e' k' =
           (if (e', k') = (e, k) then v # chain_of st e k else chain_of st e' k')"
  using assms by (auto simp: row_push_def view_simps)

lemma supersede_write:
  fixes t :: u64
  assumes "mvcc_inv st" "row_lookup st e k \<noteq> None"
  shows "mvcc_inv (row_write st e k (supersede t))"
    and "row_lookup (row_write st e k (supersede t)) e k \<noteq> None"
    and "chain_of (row_write st e k (supersede t)) e' k' =
           (if (e', k') = (e, k) then supersede t (chain_of st e k) else chain_of st e' k')"
proof -
  have "mvcc_inv ((row_write st e k (supersede t))\<lparr>total_versions := total_versions st\<rparr>)"
    by (rule row_write_inv) (use assms supersede_intents in auto)
  then show "mvcc_inv (row_write st e k (supersede t))"
    by (simp add: row_write_def)
  show "row_lookup (row_write st e k (supersede t)) e k \<noteq> None"
    using assms by (simp add: row_lookup_write)
  show "chain_of (row_write st e k (supersede t)) e' k' =
          (if (e', k') = (e, k) then supersede t (chain_of st e k) else chain_of st e' k')"
    using assms by (auto simp: view_simps)
qed

lemma ensure_row:
  assumes "mvcc_inv st"
    and "(if row_lookup st e k = None then row_create al st e k else Some st) = Some st1"
  shows "mvcc_inv st1" "row_lookup st1 e k \<noteq> None" "chain_of st1 = chain_of st"
  using assms row_create_inv [OF assms(1)] row_create_view [OF assms(1)]
  by (auto split: if_splits)

lemma insert_effect:
  assumes inv: "mvcc_inv st" and ins: "qihse_mvcc_insert al st e key val t = (rc, st')"
  shows "mvcc_inv st' \<and>
    (rc = -1 \<and> chain_of st' = chain_of st \<or>
     rc = 0 \<and> (\<exists>k v. key = Some k \<and> version_create al t val = Some v \<and>
       (\<forall>e' k'. chain_of st' e' k' =
          (if (e', k') = (e, k) then v # chain_of st e k else chain_of st e' k'))))"
proof -
  consider (fail) "rc = -1" "st' = st"
    | (go) k st1 where "key = Some k"
        "(if row_lookup st e k = None then row_create al st e k else Some st) = Some st1"
        "(rc, st') = (case version_create al t val of None \<Rightarrow> (-1, st1)
                      | Some v \<Rightarrow> (0, row_push st1 e k v))"
  proof (cases "\<exists>k st1. key = Some k \<and> length k < QIHSE_MVCC_MAX_KEY \<and>
        (if row_lookup st e k = None then row_create al st e k else Some st) = Some st1")
    case True
    then obtain k st1 where k: "key = Some k" "\<not> length k \<ge> QIHSE_MVCC_MAX_KEY"
      and st1: "(if row_lookup st e k = None then row_create al st e k else Some st) = Some st1"
      by auto
    have "(rc, st') = (case version_create al t val of None \<Rightarrow> (-1, st1)
                       | Some v \<Rightarrow> (0, row_push st1 e k v))"
      using ins unfolding qihse_mvcc_insert_def row_push_def by (simp only: k st1 option.case if_False)
    from that(2) [OF k(1) st1 this] show ?thesis .
  next
    case False
    with ins that(1) show ?thesis
      by (auto simp: qihse_mvcc_insert_def split: option.splits)
  qed
  then show ?thesis
  proof cases
    case fail
    with inv show ?thesis by simp
  next
    case go
    note st1 = ensure_row [OF inv go(2)]
    show ?thesis
    proof (cases "version_create al t val")
      case None
      with go st1 show ?thesis by simp
    next
      case (Some v)
      then have "intent_ok v" by (simp add: intent_ok_def version_create_Some)
      with Some go st1 row_push_inv [OF st1(1,2)] chain_of_push [OF st1(1,2)] show ?thesis
        by auto
    qed
  qed
qed

lemma delete_effect:
  assumes inv: "mvcc_inv st" and del: "qihse_mvcc_delete al st e key t = (rc, st')"
  shows "mvcc_inv st' \<and>
    (rc = -1 \<and> chain_of st' = chain_of st \<or>
     rc = 0 \<and> (\<exists>k v. key = Some k \<and> is_delete v \<and> xmin v = t \<and> delete_snapshot v = t \<and>
       xmax v = QIHSE_MVCC_INVALID_XMAX \<and> chain_of st e k \<noteq> [] \<and>
       (\<forall>e' k'. chain_of st' e' k' =
          (if (e', k') = (e, k) then v # chain_of st e k else chain_of st e' k'))))"
proof -
  consider (fail) "rc = -1" "st' = st"
    | (go) k v where "key = Some k" "row_lookup st e k \<noteq> None" "chain_of st e k \<noteq> []"
        "version_create al t None = Some v" "rc = 0"
        "st' = row_push st e k (v\<lparr>is_delete := True, delete_snapshot := t\<rparr>)"
  proof (cases key)
    case None
    with del that(1) show ?thesis by (simp add: qihse_mvcc_delete_def)
  next
    case (Some k)
    show ?thesis
    proof (cases "row_lookup st e k = None \<or> chain_of st e k = [] \<or> version_create al t None = None")
      case True
      with Some del that(1) show ?thesis
        by (auto simp: qihse_mvcc_delete_def chain_of_def split: option.splits if_splits)
    next
      case False
      with Some del that(2) [of k] show ?thesis
        by (auto simp: qihse_mvcc_delete_def chain_of_def row_push_def)
    qed
  qed
  then show ?thesis
  proof cases
    case fail
    with inv show ?thesis by simp
  next
    case go
    let ?v = "v\<lparr>is_delete := True, delete_snapshot := t\<rparr>"
    from go(4) have v: "xmin ?v = t" "xmax ?v = QIHSE_MVCC_INVALID_XMAX" "intent_ok ?v"
      by (auto simp: version_create_Some intent_ok_def)
    with go inv row_push_inv [OF inv go(2) v(3)] show ?thesis
      by (intro conjI disjI2 exI [of _ k] exI [of _ ?v]) (simp_all add: view_simps)
  qed
qed

lemma update_effect:
  assumes inv: "mvcc_inv st" and upd: "qihse_mvcc_update al st e key val t = (rc, st')"
  shows "mvcc_inv st' \<and>
    (rc = -1 \<and> (chain_of st' = chain_of st \<or>
       (\<exists>k. \<forall>e' k'. chain_of st' e' k' =
          (if (e', k') = (e, k) then supersede t (chain_of st e k) else chain_of st e' k'))) \<or>
     rc = 0 \<and> (\<exists>k v. key = Some k \<and> version_create al t val = Some v \<and>
       (\<forall>e' k'. chain_of st' e' k' =
          (if (e', k') = (e, k) then v # supersede t (chain_of st e k) else chain_of st e' k'))))"
proof -
  consider (fail) "rc = -1" "st' = st"
    | (ins) k where "key = Some k" "row_lookup st e k = None"
        "qihse_mvcc_insert al st e key val t = (rc, st')"
    | (go) k where "key = Some k" "row_lookup st e k \<noteq> None"
        "(rc, st') = (case version_create al t val of
            None \<Rightarrow> (-1, row_write st e k (supersede t))
          | Some v \<Rightarrow> (0, row_push (row_write st e k (supersede t)) e k v))"
  proof (cases "\<exists>k. key = Some k \<and> length k < QIHSE_MVCC_MAX_KEY")
    case False
    with upd that(1) show ?thesis by (auto simp: qihse_mvcc_update_def split: option.splits)
  next
    case True
    then obtain k where k: "key = Some k" "\<not> length k \<ge> QIHSE_MVCC_MAX_KEY" by auto
    show ?thesis
    proof (cases "row_lookup st e k = None")
      case True
      with upd k that(2) [OF k(1)] show ?thesis by (simp add: qihse_mvcc_update_def update_section_def)
    next
      case False
      with upd k that(3) [OF k(1)] show ?thesis
        by (cases "version_create al t val")
          (simp_all add: qihse_mvcc_update_def update_section_def row_push_def Let_def)
    qed
  qed
  then show ?thesis
  proof cases
    case fail
    with inv show ?thesis by simp
  next
    case ins
    then have "chain_of st e k = []" by (simp add: chain_of_def)
    with insert_effect [OF inv ins(3)] ins(1) show ?thesis
      by (metis option.inject supersede_Nil)
  next
    case go
    note w = supersede_write [OF inv go(2), of t]
    show ?thesis
    proof (cases "version_create al t val")
      case None
      with go w show ?thesis by auto
    next
      case (Some v)
      then have "intent_ok v" by (simp add: intent_ok_def version_create_Some)
      with Some go w row_push_inv [OF w(1,2)] chain_of_push [OF w(1,2)] show ?thesis
        by (auto intro!: exI [of _ k] exI [of _ v])
    qed
  qed
qed

text \<open>
  The common shape of all three writers: the chain of a key changes only by a mark on its
  newest data version and by at most one new node, and the new node carries the writer.
\<close>

lemma mvcc_apply_inv [inv_intros]:
  assumes "mvcc_inv st"
  shows "mvcc_inv (snd (mvcc_apply al st t op))"
proof (cases op)
  case (MInsert e key val)
  with insert_effect [OF assms, of al e key val t] show ?thesis
    by (cases "qihse_mvcc_insert al st e key val t") auto
next
  case (MUpdate e key val)
  with update_effect [OF assms, of al e key val t] show ?thesis
    by (cases "qihse_mvcc_update al st e key val t") auto
next
  case (MDelete e key)
  with delete_effect [OF assms, of al e key t] show ?thesis
    by (cases "qihse_mvcc_delete al st e key t") auto
qed

definition written_by :: "u64 \<Rightarrow> mvcc_version \<Rightarrow> bool" where
  "written_by t v \<longleftrightarrow> xmin v = t \<and> xmax v = QIHSE_MVCC_INVALID_XMAX \<and> intent_ok v"

lemma version_create_written: "version_create al t val = Some v \<Longrightarrow> written_by t v"
  by (simp add: written_by_def intent_ok_def version_create_Some)

text \<open>The possible chains of a key after one write of transaction \<open>t\<close>.\<close>

definition chain_step :: "u64 \<Rightarrow> mvcc_version list \<Rightarrow> mvcc_version list \<Rightarrow> bool" where
  "chain_step t c c' \<longleftrightarrow>
     (\<exists>pre f. f \<in> {id, supersede t} \<and> list_all (written_by t) pre \<and> c' = pre @ f c)"

lemma chain_step_refl: "chain_step t c c"
  unfolding chain_step_def by (intro exI [of _ "[]"] exI [of _ id]) simp

lemma chain_step_mark: "chain_step t c (supersede t c)"
  unfolding chain_step_def by (intro exI [of _ "[]"] exI [of _ "supersede t"]) simp

lemma chain_step_node: "written_by t v \<Longrightarrow> chain_step t c (v # c)"
  unfolding chain_step_def by (intro exI [of _ "[v]"] exI [of _ id]) simp

lemma chain_step_update: "written_by t v \<Longrightarrow> chain_step t c (v # supersede t c)"
  unfolding chain_step_def by (intro exI [of _ "[v]"] exI [of _ "supersede t"]) simp

lemmas chain_steps = chain_step_refl chain_step_mark chain_step_node chain_step_update

lemma mvcc_apply_chain:
  assumes "mvcc_inv st"
  shows "chain_step t (chain_of st e k) (chain_of (snd (mvcc_apply al st t op)) e k)"
proof (cases op)
  case (MInsert e' key val)
  obtain rc st' where eq: "qihse_mvcc_insert al st e' key val t = (rc, st')" by fastforce
  from insert_effect [OF assms eq] have "chain_step t (chain_of st e k) (chain_of st' e k)"
    by (elim conjE disjE exE) (simp_all add: chain_steps version_create_written)
  with MInsert eq show ?thesis by simp
next
  case (MUpdate e' key val)
  obtain rc st' where eq: "qihse_mvcc_update al st e' key val t = (rc, st')" by fastforce
  from update_effect [OF assms eq] have "chain_step t (chain_of st e k) (chain_of st' e k)"
    by (elim conjE disjE exE) (simp_all add: chain_steps version_create_written)
  with MUpdate eq show ?thesis by simp
next
  case (MDelete e' key)
  obtain rc st' where eq: "qihse_mvcc_delete al st e' key t = (rc, st')" by fastforce
  from delete_effect [OF assms eq] have "chain_step t (chain_of st e k) (chain_of st' e k)"
    by (elim conjE disjE exE) (simp_all add: chain_steps written_by_def intent_ok_def)
  with MDelete eq show ?thesis by simp
qed

subsection \<open>What a read returns\<close>

text \<open>
  A delete intent applies to a reader if it is committed and not newer than the reader's
  snapshot. A node is live if it is a visible data version that no applicable intent above
  it deletes.
\<close>

definition intent_applies :: "mvcc_version \<Rightarrow> u64 \<Rightarrow> committed_cb \<Rightarrow> bool" where
  "intent_applies p s cb \<longleftrightarrow> is_delete p \<and> xmin p \<le> s \<and> cb_holds cb (xmin p)"

definition live_at :: "mvcc_version list \<Rightarrow> nat \<Rightarrow> u64 \<Rightarrow> committed_cb \<Rightarrow> bool" where
  "live_at c i s cb \<longleftrightarrow>
     \<not> is_delete (c ! i) \<and> version_visible (c ! i) s cb \<and>
     \<not> (\<exists>j < i. intent_applies (c ! j) s cb \<and> version_visible (c ! i) (delete_snapshot (c ! j)) cb)"

lemma version_deleted_by_intent_iff:
  "version_deleted_by_intent ps v s cb \<longleftrightarrow>
     (\<exists>p \<in> set ps. intent_applies p s cb \<and> version_visible v (delete_snapshot p) cb)"
  by (induction ps) (auto simp: intent_applies_def not_less)

text \<open>The read loop without its fast path: \<open>ab\<close> is the part of the chain already passed.\<close>

primrec read_from :: "mvcc_version list \<Rightarrow> u64 \<Rightarrow> committed_cb \<Rightarrow> mvcc_version list \<Rightarrow> bytes option" where
  "read_from ab s cb [] = None"
| "read_from ab s cb (v # rest) =
     (if \<not> is_delete v \<and> version_visible v s cb \<and> \<not> version_deleted_by_intent ab v s cb
      then Some (ver_value v)
      else read_from (ab @ [v]) s cb rest)"

lemma read_walk_from:
  assumes "head = ab @ rest" "n = length (filter is_delete ab)"
  shows "read_walk head (length ab) n s cb rest = read_from ab s cb rest"
  using assms
proof (induction rest arbitrary: ab n)
  case Nil
  then show ?case by simp
next
  case (Cons v rest)
  have none: "\<not> version_deleted_by_intent ab v s cb" if "n = 0"
    using that Cons.prems(2)
    by (auto simp: version_deleted_by_intent_iff intent_applies_def filter_empty_conv)
  have step: "read_walk head (Suc (length ab)) (length (filter is_delete (ab @ [v]))) s cb rest =
      read_from (ab @ [v]) s cb rest"
    using Cons.IH [of "ab @ [v]"] Cons.prems(1) by simp
  show ?case
  proof (cases "is_delete v")
    case True
    with step Cons.prems show ?thesis by simp
  next
    case False
    then have n: "n = length (filter is_delete (ab @ [v]))"
      using Cons.prems(2) by simp
    show ?thesis
      using False none step Cons.prems(1) unfolding n
      by (auto simp: version_deleted_by_intent_iff intent_applies_def filter_empty_conv)
  qed
qed

lemma mvcc_read_chain: "qihse_mvcc_read st e (Some k) s cb = read_from [] s cb (chain_of st e k)"
  using read_walk_from [of _ "[]" _ 0 s cb]
  by (simp add: qihse_mvcc_read_def chain_of_def split: option.splits)

lemma read_from_find:
  "read_from ab s cb rest =
     map_option (\<lambda>i. ver_value ((ab @ rest) ! i))
       (find (\<lambda>i. live_at (ab @ rest) i s cb) [length ab ..< length ab + length rest])"
proof (induction rest arbitrary: ab)
  case Nil
  then show ?case by simp
next
  case (Cons v rest)
  have upt: "[length ab ..< length ab + length (v # rest)] =
      length ab # [length (ab @ [v]) ..< length (ab @ [v]) + length rest]"
    by (simp add: upt_conv_Cons del: upt_Suc)
  have deleted: "version_deleted_by_intent ab v s cb \<longleftrightarrow>
      (\<exists>j < length ab. intent_applies ((ab @ v # rest) ! j) s cb \<and>
         version_visible v (delete_snapshot ((ab @ v # rest) ! j)) cb)"
    unfolding version_deleted_by_intent_iff by (simp add: in_set_conv_nth nth_append Bex_def) blast
  have live: "live_at (ab @ v # rest) (length ab) s cb \<longleftrightarrow>
      \<not> is_delete v \<and> version_visible v s cb \<and> \<not> version_deleted_by_intent ab v s cb"
    unfolding live_at_def deleted by simp
  show ?case
    using Cons.IH [of "ab @ [v]"] unfolding upt by (simp add: live)
qed

lemma read_from_none:
  "\<forall>u \<in> set c. is_delete u \<or> \<not> version_visible u s cb \<Longrightarrow> read_from ab s cb c = None"
  by (induction c arbitrary: ab) auto

text \<open>
  Replacing nodes by equivalent ones does not change a read: the nodes may differ in their
  marks as long as their visibility agrees at every snapshot up to the reader's.
\<close>

definition same_upto :: "u64 \<Rightarrow> committed_cb \<Rightarrow> mvcc_version \<Rightarrow> mvcc_version \<Rightarrow> bool" where
  "same_upto s cb v w \<longleftrightarrow>
     is_delete v = is_delete w \<and> xmin v = xmin w \<and> ver_value v = ver_value w \<and>
     delete_snapshot v = delete_snapshot w \<and>
     (\<forall>s' \<le> s. version_visible v s' cb = version_visible w s' cb)"

lemma deleted_by_intent_same:
  assumes "list_all2 (same_upto s cb) ab ab'" "same_upto s cb v w" "\<forall>p \<in> set ab. intent_ok p"
  shows "version_deleted_by_intent ab v s cb = version_deleted_by_intent ab' w s cb"
  using assms
  by (induction rule: list_all2_induct) (auto simp: same_upto_def intent_ok_def not_less)

lemma read_from_same:
  assumes "list_all2 (same_upto s cb) c c'" "list_all2 (same_upto s cb) ab ab'"
    and "\<forall>p \<in> set (ab @ c). intent_ok p"
  shows "read_from ab s cb c = read_from ab' s cb c'"
  using assms
proof (induction arbitrary: ab ab' rule: list_all2_induct)
  case Nil
  then show ?case by simp
next
  case (Cons v c w c')
  have "version_deleted_by_intent ab v s cb = version_deleted_by_intent ab' w s cb"
    using Cons.prems Cons.hyps(1) by (intro deleted_by_intent_same) auto
  moreover have "read_from (ab @ [v]) s cb c = read_from (ab' @ [w]) s cb c'"
    using Cons.prems Cons.hyps by (intro Cons.IH) (auto simp: list_all2_appendI)
  ultimately show ?case
    using Cons.hyps(1) by (auto simp: same_upto_def)
qed

text \<open>A node that is neither visible nor an applicable intent may be skipped or added.\<close>

definition inert :: "u64 \<Rightarrow> committed_cb \<Rightarrow> mvcc_version \<Rightarrow> bool" where
  "inert s cb v \<longleftrightarrow> (if is_delete v then \<not> intent_applies v s cb else \<not> version_visible v s cb)"

lemma deleted_by_intent_filter:
  assumes "\<forall>p \<in> set ab. P p \<or> inert s cb p"
  shows "version_deleted_by_intent (filter P ab) v s cb = version_deleted_by_intent ab v s cb"
  using assms by (auto simp: version_deleted_by_intent_iff inert_def intent_applies_def)

lemma read_from_filter:
  assumes "\<forall>p \<in> set (ab @ c). P p \<or> inert s cb p"
  shows "read_from (filter P ab) s cb (filter P c) = read_from ab s cb c"
  using assms
proof (induction c arbitrary: ab)
  case Nil
  then show ?case by simp
next
  case (Cons v c)
  have IH: "read_from (filter P (ab @ [v])) s cb (filter P c) = read_from (ab @ [v]) s cb c"
    using Cons.prems by (intro Cons.IH) auto
  have del: "version_deleted_by_intent (filter P ab) v s cb = version_deleted_by_intent ab v s cb"
    using Cons.prems by (intro deleted_by_intent_filter) auto
  show ?case
    using IH del Cons.prems by (auto simp: inert_def)
qed

lemma read_from_inert_prefix:
  assumes "list_all (inert s cb) pre"
  shows "read_from [] s cb (pre @ c) = read_from [] s cb c"
proof -
  let ?P = "\<lambda>v. \<not> inert s cb v"
  have drop: "read_from [] s cb (filter ?P d) = read_from [] s cb d" for d
    using read_from_filter [of "[]" d ?P s cb] by simp
  have "filter ?P (pre @ c) = filter ?P c"
    using assms by (auto simp: list_all_iff filter_empty_conv)
  then show ?thesis using drop [of "pre @ c"] drop [of c] by simp
qed

subsection \<open>Writes a reader cannot see\<close>

definition hidden_writer :: "u64 \<Rightarrow> committed_cb \<Rightarrow> u64 \<Rightarrow> bool" where
  "hidden_writer s cb t \<longleftrightarrow> s < t \<or> \<not> cb_holds cb t"

lemma hidden_written_inert: "hidden_writer s cb t \<Longrightarrow> written_by t v \<Longrightarrow> inert s cb v"
  by (auto simp: hidden_writer_def written_by_def inert_def intent_applies_def version_visible_def
      not_le)

lemma hidden_mark_same:
  assumes "hidden_writer s cb t"
  shows "list_all2 (same_upto s cb) c (supersede t c)"
proof -
  have refl: "same_upto s cb v v" for v by (simp add: same_upto_def)
  have mark: "same_upto s cb v (v\<lparr>xmax := t\<rparr>)" if "xmax v = QIHSE_MVCC_INVALID_XMAX" for v
    using assms that
    by (auto simp: same_upto_def hidden_writer_def version_visible_def)
  show ?thesis
    unfolding supersede_def by (induction c) (auto simp: refl mark list_all2_same)
qed

lemma hidden_step_read:
  assumes "hidden_writer s cb t" "chain_step t c c'" "\<forall>p \<in> set c. intent_ok p"
  shows "read_from [] s cb c' = read_from [] s cb c"
proof -
  from assms(2) obtain pre f where f: "f \<in> {id, supersede t}"
    and pre: "list_all (written_by t) pre" and c': "c' = pre @ f c"
    by (auto simp: chain_step_def)
  have "list_all2 (same_upto s cb) c (f c)"
    using f hidden_mark_same [OF assms(1)] by (auto simp: same_upto_def list_all2_same)
  with assms(3) have "read_from [] s cb c = read_from [] s cb (f c)"
    by (intro read_from_same) auto
  moreover have "read_from [] s cb c' = read_from [] s cb (f c)"
    unfolding c' using pre hidden_written_inert [OF assms(1)]
    by (intro read_from_inert_prefix) (auto simp: list_all_iff)
  ultimately show ?thesis by simp
qed

text \<open>A history of writes: each with its allocation outcome, transaction and operation.\<close>

primrec mvcc_run :: "mvcc_store \<Rightarrow> (mvcc_alloc \<times> u64 \<times> mvcc_op) list \<Rightarrow> mvcc_store" where
  "mvcc_run st [] = st"
| "mvcc_run st (w # ws) = mvcc_run (snd (mvcc_apply (fst w) st (fst (snd w)) (snd (snd w)))) ws"

lemma mvcc_run_append: "mvcc_run st (ws @ ws') = mvcc_run (mvcc_run st ws) ws'"
  by (induction ws arbitrary: st) auto

lemma mvcc_run_inv [inv_intros]: "mvcc_inv st \<Longrightarrow> mvcc_inv (mvcc_run st ws)"
  by (induction ws arbitrary: st) (auto intro: mvcc_apply_inv)

lemma mvcc_fresh_inv [inv_intros]: "mvcc_inv (mvcc_fresh n)"
  by (simp add: mvcc_inv_def mvcc_fresh_def Let_def)

lemma hidden_apply_read:
  assumes "mvcc_inv st" "hidden_writer s cb t"
  shows "qihse_mvcc_read (snd (mvcc_apply al st t op)) e key s cb = qihse_mvcc_read st e key s cb"
proof (cases key)
  case None
  then show ?thesis by (simp add: qihse_mvcc_read_def)
next
  case (Some k)
  have "read_from [] s cb (chain_of (snd (mvcc_apply al st t op)) e k) =
      read_from [] s cb (chain_of st e k)"
    using chain_of_intents [OF assms(1)]
    by (intro hidden_step_read [OF assms(2) mvcc_apply_chain [OF assms(1)]]) auto
  with Some show ?thesis by (simp add: mvcc_read_chain)
qed

subsection \<open>Writes a reader sees\<close>

lemma read_committed_head:
  assumes "written_by t v" "\<not> is_delete v" "cb_holds cb t" "t \<le> s"
  shows "read_from [] s cb (v # c) = Some (ver_value v)"
  using assms by (auto simp: written_by_def version_visible_def dest: leD)

lemma read_past_intent:
  assumes "is_delete p" "xmin p = t" "delete_snapshot p = t" "cb_holds cb t" "t \<le> s"
  shows "read_from (p # ab) s cb c =
    map_option (\<lambda>i. ver_value ((ab @ c) ! i))
      (find (\<lambda>i. live_at (ab @ c) i s cb \<and> \<not> version_visible ((ab @ c) ! i) t cb)
        [length ab ..< length ab + length c])"
proof (induction c arbitrary: ab)
  case Nil
  then show ?case by simp
next
  case (Cons v c)
  have upt: "[length ab ..< length ab + length (v # c)] =
      length ab # [length (ab @ [v]) ..< length (ab @ [v]) + length c]"
    by (simp add: upt_conv_Cons del: upt_Suc)
  have deleted: "version_deleted_by_intent ab v s cb \<longleftrightarrow>
      (\<exists>j < length ab. intent_applies ((ab @ v # c) ! j) s cb \<and>
         version_visible v (delete_snapshot ((ab @ v # c) ! j)) cb)"
    unfolding version_deleted_by_intent_iff by (simp add: in_set_conv_nth nth_append Bex_def) blast
  have live: "live_at (ab @ v # c) (length ab) s cb \<longleftrightarrow>
      \<not> is_delete v \<and> version_visible v s cb \<and> \<not> version_deleted_by_intent ab v s cb"
    unfolding live_at_def deleted by simp
  have "version_deleted_by_intent (p # ab) v s cb \<longleftrightarrow>
      version_visible v t cb \<or> version_deleted_by_intent ab v s cb"
    using assms by (auto simp: not_less)
  then show ?case
    using Cons.IH [of "ab @ [v]"] unfolding upt by (auto simp: live)
qed

lemma visible_earlier:
  assumes "version_visible v s cb" "xmin v \<le> t" "t \<le> s"
  shows "version_visible v t cb"
  using assms by (auto simp: version_visible_def split: if_splits)

lemma read_deleted:
  assumes "is_delete p" "xmin p = t" "delete_snapshot p = t" "cb_holds cb t" "t \<le> s"
    and "\<And>v. v \<in> set c \<Longrightarrow> \<not> is_delete v \<Longrightarrow> cb_holds cb (xmin v) \<Longrightarrow> xmin v \<le> s \<Longrightarrow> xmin v \<le> t"
  shows "read_from [] s cb (p # c) = None"
proof -
  have "\<not> (live_at c i s cb \<and> \<not> version_visible (c ! i) t cb)" if "i < length c" for i
  proof
    assume l: "live_at c i s cb \<and> \<not> version_visible (c ! i) t cb"
    then have "version_visible (c ! i) s cb" "\<not> is_delete (c ! i)" by (auto simp: live_at_def)
    moreover from this have "xmin (c ! i) \<le> t"
      using assms(6) [of "c ! i"] that by (auto simp: version_visible_def split: if_splits)
    ultimately show False
      using l visible_earlier [of "c ! i" s cb t] assms(5) by simp
  qed
  then have "find (\<lambda>i. live_at c i s cb \<and> \<not> version_visible (c ! i) t cb) [0..<length c] = None"
    by (auto simp: find_None_iff)
  then show ?thesis
    using read_past_intent [OF assms(1-5), of "[]" c] assms(1) by simp
qed

subsection \<open>Garbage collection and reads\<close>

definition gc_dead :: "u64 \<Rightarrow> mvcc_version \<Rightarrow> bool" where
  "gc_dead m v \<longleftrightarrow> \<not> is_delete v \<and> xmax v \<noteq> QIHSE_MVCC_INVALID_XMAX \<and> xmax v < m"

lemma gc_chain_filter: "fst (gc_chain m c) = filter (\<lambda>v. \<not> gc_dead m v) c"
  by (induction c) (auto simp: gc_dead_def Let_def split: prod.splits)

lemma gc_chain_count: "snd (gc_chain m c) = int (length c) - int (length (fst (gc_chain m c)))"
  by (induction c) (auto simp: Let_def split: prod.splits)

lemma gc_row_key [simp]: "row_engine (gc_row m r) = row_engine r" "row_key (gc_row m r) = row_key r"
  by (simp_all add: gc_row_def)

lemma gc_row_ok: "row_ok r \<Longrightarrow> row_ok (gc_row m r)"
  by (auto simp: row_ok_def gc_row_def gc_chain_filter)

lemma bucket_sum_map: "bucket_sum g (map (map f) bs) = bucket_sum (\<lambda>r. g (f r)) bs"
  by (simp add: bucket_sum_def comp_def)

lemma bucket_sum_diff: "bucket_sum (\<lambda>r. g r - h r) bs = bucket_sum g bs - bucket_sum h bs"
proof -
  have "(\<Sum>e\<leftarrow>b. g e - h e) = (\<Sum>e\<leftarrow>b. g e) - (\<Sum>e\<leftarrow>b. h e)" for b
    by (induction b) auto
  then show ?thesis unfolding bucket_sum_def by (induction bs) auto
qed

lemma row_lookup_gc: "mvcc_inv st \<Longrightarrow>
    row_lookup (snd (qihse_mvcc_gc st m)) e k = map_option (gc_row m) (row_lookup st e k)"
proof -
  assume inv: "mvcc_inv st"
  have b: "mvcc_hash e k (n_buckets st) < length (buckets st)"
    using inv by (simp add: mvcc_inv_def mvcc_hash_def)
  have "find (row_matches e k) (map (gc_row m) xs) = map_option (gc_row m) (find (row_matches e k) xs)"
    for xs by (induction xs) (auto simp: row_matches_def)
  with b show ?thesis
    by (simp add: row_lookup_def bucket_find_def qihse_mvcc_gc_def Let_def)
qed

lemma chain_of_gc [view_simps]:
  "mvcc_inv st \<Longrightarrow>
     chain_of (snd (qihse_mvcc_gc st m)) e k = filter (\<lambda>v. \<not> gc_dead m v) (chain_of st e k)"
  by (simp add: chain_of_def row_lookup_gc gc_row_def gc_chain_filter split: option.splits)

lemma mvcc_gc_inv [inv_intros]:
  assumes inv: "mvcc_inv st"
  shows "mvcc_inv (snd (qihse_mvcc_gc st m))" (is "mvcc_inv ?st'")
proof -
  have len: "length (buckets st) = n_buckets st" "0 < n_buckets st"
    using inv by (simp_all add: mvcc_inv_def)
  have bs: "buckets ?st' = map (map (gc_row m)) (buckets st)" "n_buckets ?st' = n_buckets st"
    "total_rows ?st' = total_rows st"
    by (simp_all add: qihse_mvcc_gc_def Let_def)
  have tv: "total_versions ?st' =
      total_versions st - of_int (bucket_sum (\<lambda>r. snd (gc_chain m (row_head r))) (buckets st))"
    by (simp add: qihse_mvcc_gc_def Let_def)
  show ?thesis
  proof (rule mvcc_invI)
    show "rows.placed (n_buckets ?st') (buckets ?st')"
      using inv len by (auto simp: bs rows.placed_def mvcc_inv_def)
    show "rows.unique_keys (buckets ?st')"
      using inv len by (auto simp: bs rows.unique_keys_def mvcc_inv_def comp_def)
    show "row_ok r" if "b < n_buckets ?st'" "r \<in> set (buckets ?st' ! b)" for b r
      using that len mvcc_inv_row_ok [OF inv] by (auto simp: bs gc_row_ok)
    show "total_rows ?st' = of_int (bucket_sum (\<lambda>r. 1) (buckets ?st'))"
      using inv by (simp add: bs bucket_sum_map mvcc_inv_def)
    have "bucket_sum (\<lambda>r. int (length (row_head r)) - snd (gc_chain m (row_head r))) (buckets st) =
        bucket_sum (\<lambda>r. int (length (row_head (gc_row m r)))) (buckets st)"
      by (simp add: gc_chain_count gc_row_def)
    then show "total_versions ?st' = of_int (bucket_sum (\<lambda>r. int (length (row_head r))) (buckets ?st'))"
      using inv by (simp add: bs tv bucket_sum_map bucket_sum_diff mvcc_inv_def flip: of_int_diff)
  qed
qed

text \<open>
  The stores the API can produce: a fresh store, one more write, one more collection.
\<close>

inductive mvcc_reachable :: "mvcc_store \<Rightarrow> bool" where
  mvcc_create: "qihse_mvcc_store_create ok_store ok_arena ok_buckets n = Some st \<Longrightarrow> mvcc_reachable st"
| mvcc_write: "mvcc_reachable st \<Longrightarrow> mvcc_reachable (snd (mvcc_apply al st t op))"
| mvcc_collect: "mvcc_reachable st \<Longrightarrow> mvcc_reachable (snd (qihse_mvcc_gc st m))"

text \<open>
  A version is superseded for good if the transaction that marked it is committed. A
  collection with cutoff \<open>m\<close> is safe for a reader if every mark below the cutoff is.
\<close>

definition marks_committed :: "mvcc_store \<Rightarrow> u64 \<Rightarrow> committed_cb \<Rightarrow> bool" where
  "marks_committed st m cb \<longleftrightarrow>
     (\<forall>b \<in> set (buckets st). \<forall>r \<in> set b. \<forall>v \<in> set (row_head r).
        gc_dead m v \<longrightarrow> cb_holds cb (xmax v))"

lemma gc_dead_inert: "gc_dead m v \<Longrightarrow> cb_holds cb (xmax v) \<Longrightarrow> m \<le> s \<Longrightarrow> inert s cb v"
  by (auto simp: gc_dead_def inert_def version_visible_def)

lemma marks_committed_chain:
  assumes "mvcc_inv st" "marks_committed st m cb" "v \<in> set (chain_of st e k)" "gc_dead m v"
  shows "cb_holds cb (xmax v)"
proof -
  from assms(3) obtain r where r: "row_lookup st e k = Some r" "v \<in> set (row_head r)"
    by (cases "row_lookup st e k") (auto simp: chain_of_def)
  from rows.search_member [OF mvcc_inv_placed [OF assms(1)]] r(1)
  obtain b where "b < length (buckets st)" "r \<in> set (buckets st ! b)"
    unfolding row_lookup_search by blast
  then have "buckets st ! b \<in> set (buckets st)" "r \<in> set (buckets st ! b)" by simp_all
  with assms(2,4) r(2) show ?thesis unfolding marks_committed_def by blast
qed

lemma reachable_inv: "mvcc_reachable st \<Longrightarrow> mvcc_inv st"
  by (induction rule: mvcc_reachable.induct)
    (auto intro: inv_intros simp: qihse_mvcc_store_create_def split: if_splits)

lemma mvcc_run_reachable: "mvcc_reachable st \<Longrightarrow> mvcc_reachable (mvcc_run st ws)"
  by (induction ws arbitrary: st) (auto intro: mvcc_reachable.mvcc_write)

lemma fresh_reachable: "mvcc_reachable (mvcc_fresh n)"
  by (rule mvcc_reachable.mvcc_create [of True True True n]) (simp add: qihse_mvcc_store_create_def)

lemma bucket_sum_nonneg: "(\<And>r. 0 \<le> g r) \<Longrightarrow> 0 \<le> bucket_sum g bs"
  unfolding bucket_sum_def by (intro sum_list_nonneg) (auto intro!: sum_list_nonneg)

lemma sint_of_count: "0 \<le> n \<Longrightarrow> n < 2 ^ 31 \<Longrightarrow> sint (of_int n :: i32) = n"
  by (simp add: signed_of_int signed_take_bit_int_eq_self)

subsection \<open>Properties\<close>

text \<open>
  C31: in every store the API can produce, rows lie in the bucket of their key, keys are
  unique and shorter than the limit, delete intents carry their own transaction as
  snapshot, and the row and version counters equal the number of rows and of chain nodes
  as long as these numbers fit a C int.
\<close>
theorem mvcc_store_invariant:
  assumes "mvcc_reachable st"
  shows "mvcc_inv st \<and>
    (bucket_sum (\<lambda>r. 1) (buckets st) < 2 ^ 31 \<longrightarrow>
       qihse_mvcc_row_count st = bucket_sum (\<lambda>r. 1) (buckets st)) \<and>
    (bucket_sum (\<lambda>r. int (length (row_head r))) (buckets st) < 2 ^ 31 \<longrightarrow>
       qihse_mvcc_version_count st = bucket_sum (\<lambda>r. int (length (row_head r))) (buckets st))"
proof -
  have inv: "mvcc_inv st" by (rule reachable_inv [OF assms])
  then show ?thesis
    using sint_of_count [of "bucket_sum (\<lambda>r. 1) (buckets st)"]
      sint_of_count [of "bucket_sum (\<lambda>r. int (length (row_head r))) (buckets st)"]
      bucket_sum_nonneg [of "\<lambda>r. 1" "buckets st"]
      bucket_sum_nonneg [of "\<lambda>r. int (length (row_head r))" "buckets st"]
    by (simp add: qihse_mvcc_row_count_def qihse_mvcc_version_count_def mvcc_inv_def)
qed

definition alloc_ok :: mvcc_alloc where
  "alloc_ok = \<lparr>alloc_row = True, alloc_version = True, alloc_value = True\<rparr>"

text \<open>A small store the witnesses share: key \<open>[7]\<close>, inserted by 1, updated by 2.\<close>

definition demo_store :: mvcc_store where
  "demo_store = mvcc_run (mvcc_fresh 1)
     [(alloc_ok, 1, MInsert 0 (Some [7]) (Some [42])), (alloc_ok, 2, MUpdate 0 (Some [7]) (Some [43]))]"

lemma demo_store_reachable: "mvcc_reachable demo_store"
  unfolding demo_store_def by (intro mvcc_run_reachable fresh_reachable)

lemmas mvcc_eval = mvcc_fresh_def qihse_mvcc_insert_def qihse_mvcc_update_def update_section_def
  qihse_mvcc_delete_def qihse_mvcc_read_def qihse_mvcc_gc_def row_lookup_def row_create_def
  row_write_def version_create_def bucket_find_def bucket_push_def bucket_modify_def
  bucket_sum_def row_matches_def supersede_def mvcc_hash_def QIHSE_MVCC_MAX_KEY_def
  QIHSE_MVCC_INVALID_XMAX_def alloc_ok_def version_visible_def cb_holds_def gc_row_def Let_def

theorem mvcc_store_invariant_witness:
  "mvcc_inv demo_store \<and> qihse_mvcc_row_count demo_store = 1 \<and> qihse_mvcc_version_count demo_store = 2"
proof -
  have "bucket_sum (\<lambda>r. 1) (buckets demo_store) = 1"
    "bucket_sum (\<lambda>r. int (length (row_head r))) (buckets demo_store) = 2"
    by (simp_all add: demo_store_def mvcc_eval)
  with mvcc_store_invariant [OF demo_store_reachable] show ?thesis by simp
qed

text \<open>
  A read returns the newest live node of the key's chain, where a node is live if it
  is a data version visible at the snapshot and no committed delete intent above it, not
  newer than the snapshot, was taken where the version was visible. The counter that lets
  the loop skip the intent check on chains without intents does not change the result.
\<close>
lemma read_newest_live:
  "qihse_mvcc_read st e (Some k) s cb =
     map_option (\<lambda>i. ver_value (chain_of st e k ! i))
       (find (\<lambda>i. live_at (chain_of st e k) i s cb) [0..<length (chain_of st e k)])"
  using read_from_find [of "[]" s cb "chain_of st e k"] by (simp add: mvcc_read_chain)

text \<open>
  C1: snapshot isolation of the store. Any sequence of inserts, updates and deletes, on any
  keys and with any allocation failures, whose transactions are newer than the reader's
  snapshot or not committed, leaves every read at that snapshot unchanged.
\<close>
theorem mvcc_hidden_writes:
  assumes "mvcc_reachable st"
    and "\<forall>w \<in> set ws. hidden_writer s cb (fst (snd w))"
  shows "qihse_mvcc_read (mvcc_run st ws) e key s cb = qihse_mvcc_read st e key s cb"
proof -
  have "mvcc_inv st"
    using assms(1) by (rule reachable_inv)
  then show ?thesis
    using assms(2)
    by (induction ws arbitrary: st) (simp_all add: hidden_apply_read mvcc_apply_inv)
qed

theorem mvcc_hidden_writes_witness:
  "qihse_mvcc_read (mvcc_run demo_store [(alloc_ok, 3, MDelete 0 (Some [7]))]) 0 (Some [7]) 2
     (Some (\<lambda>t. t \<le> 9)) = Some [43] \<and> hidden_writer 2 (Some (\<lambda>t. t \<le> 9)) 3"
proof -
  have h: "\<forall>w \<in> set [(alloc_ok, 3 :: u64, MDelete 0 (Some [7]))].
      hidden_writer 2 (Some (\<lambda>t. t \<le> 9)) (fst (snd w))"
    by (simp add: hidden_writer_def)
  have "qihse_mvcc_read demo_store 0 (Some [7]) 2 (Some (\<lambda>t. t \<le> 9)) = Some [43]"
    by (simp add: demo_store_def mvcc_eval)
  then show ?thesis
    using mvcc_hidden_writes [OF demo_store_reachable h, of 0 "Some [7]"] h by simp
qed

text \<open>
  C7: a write that succeeded is what readers get: once its transaction is committed, every
  reader whose snapshot includes the transaction reads exactly the inserted or updated
  value, whatever the chain held before (aborted versions and old intents included).
\<close>
theorem mvcc_committed_write_read:
  assumes "mvcc_reachable st"
    and "op = MInsert e (Some k) val \<or> op = MUpdate e (Some k) val"
    and "mvcc_apply al st t op = (0, st')"
    and "cb_holds cb t" and "t \<le> s"
  shows "qihse_mvcc_read st' e (Some k) s cb = Some (value_bytes val)"
proof -
  have inv: "mvcc_inv st"
    using assms(1) by (rule reachable_inv)
  obtain v c where "version_create al t val = Some v" "chain_of st' e k = v # c"
    using assms(2,3) insert_effect [OF inv, of al e "Some k" val t 0 st']
      update_effect [OF inv, of al e "Some k" val t 0 st'] by auto
  with assms(4,5) show ?thesis
    using read_committed_head [of t v cb s c] version_create_written [of al t val v]
    by (simp add: mvcc_read_chain version_create_Some)
qed

theorem mvcc_committed_write_read_witness:
  "qihse_mvcc_read (snd (mvcc_apply alloc_ok demo_store 5 (MUpdate 0 (Some [7]) (Some [9]))))
     0 (Some [7]) 6 (Some (\<lambda>t. t = 5)) = Some [9]"
proof -
  have rc: "fst (mvcc_apply alloc_ok demo_store 5 (MUpdate 0 (Some [7]) (Some [9]))) = 0"
    by (simp add: demo_store_def mvcc_eval)
  then have "mvcc_apply alloc_ok demo_store 5 (MUpdate 0 (Some [7]) (Some [9])) =
      (0, snd (mvcc_apply alloc_ok demo_store 5 (MUpdate 0 (Some [7]) (Some [9]))))"
    by (metis prod.collapse)
  from mvcc_committed_write_read [OF demo_store_reachable _ this, of 0 "[7]" "Some [9]"
      "Some (\<lambda>t. t = 5)" 6]
  show ?thesis by (simp add: cb_holds_def value_bytes_def)
qed

text \<open>
  C9: a committed delete hides exactly the versions that were visible at the snapshot it
  was taken at. A reader whose snapshot includes the deleting transaction gets the newest
  version that was live before the delete and that the deleting transaction could not see,
  and nothing if there is no such version.
\<close>
theorem mvcc_committed_delete_exact:
  assumes "mvcc_reachable st"
    and "qihse_mvcc_delete al st e (Some k) t = (0, st')"
    and "cb_holds cb t" and "t \<le> s"
  shows "qihse_mvcc_read st' e (Some k) s cb =
    map_option (\<lambda>i. ver_value (chain_of st e k ! i))
      (find (\<lambda>i. live_at (chain_of st e k) i s cb \<and> \<not> version_visible (chain_of st e k ! i) t cb)
        [0..<length (chain_of st e k)])"
proof -
  have inv: "mvcc_inv st" using assms(1) by (rule reachable_inv)
  obtain p where p: "is_delete p" "xmin p = t" "delete_snapshot p = t"
    and c: "chain_of st' e k = p # chain_of st e k"
    using delete_effect [OF inv assms(2)] by auto
  show ?thesis
    using read_past_intent [OF p assms(3,4), of "[]" "chain_of st e k"] p(1)
    by (simp add: mvcc_read_chain c)
qed

theorem mvcc_committed_delete_exact_witness:
  "qihse_mvcc_read (snd (qihse_mvcc_delete alloc_ok demo_store 0 (Some [7]) 5))
     0 (Some [7]) 6 (Some (\<lambda>t. t \<noteq> 2)) = None"
proof -
  have rc: "fst (qihse_mvcc_delete alloc_ok demo_store 0 (Some [7]) 5) = 0"
    by (simp add: demo_store_def mvcc_eval)
  have c: "chain_of demo_store 0 [7] =
      [\<lparr>xmin = 2, xmax = 0, ver_value = [43], is_delete = False, delete_snapshot = 0\<rparr>,
       \<lparr>xmin = 1, xmax = 2, ver_value = [42], is_delete = False, delete_snapshot = 0\<rparr>]"
    by (simp add: demo_store_def chain_of_def mvcc_eval)
  from rc have "qihse_mvcc_delete alloc_ok demo_store 0 (Some [7]) 5 =
      (0, snd (qihse_mvcc_delete alloc_ok demo_store 0 (Some [7]) 5))"
    by (metis prod.collapse)
  from mvcc_committed_delete_exact [OF demo_store_reachable this, of "Some (\<lambda>t. t \<noteq> 2)" 6]
  show ?thesis
    by (simp add: c live_at_def mvcc_eval)
qed

text \<open>
  C10: garbage collection with cutoff \<open>m\<close> does not change any read at a snapshot at or after
  the cutoff, provided the transactions that superseded the versions below the cutoff are
  committed. Delete intents are never collected, so no deleted row comes back.
\<close>
theorem mvcc_gc_preserves_reads:
  assumes "mvcc_reachable st" and "marks_committed st m cb" and "m \<le> s"
  shows "qihse_mvcc_read (snd (qihse_mvcc_vacuum st m)) e key s cb = qihse_mvcc_read st e key s cb"
proof (cases key)
  case None
  then show ?thesis by (simp add: qihse_mvcc_read_def)
next
  case (Some k)
  have inv: "mvcc_inv st" using assms(1) by (rule reachable_inv)
  have "\<forall>p \<in> set ([] @ chain_of st e k). \<not> gc_dead m p \<or> inert s cb p"
    using marks_committed_chain [OF inv assms(2)] gc_dead_inert [OF _ _ assms(3)] by auto
  from read_from_filter [OF this] show ?thesis
    by (simp add: Some mvcc_read_chain chain_of_gc [OF inv] qihse_mvcc_vacuum_def)
qed

theorem mvcc_gc_preserves_reads_witness:
  "qihse_mvcc_read (snd (qihse_mvcc_vacuum demo_store 3)) 0 (Some [7]) 4 (Some (\<lambda>t. t \<le> 2)) =
     Some [43] \<and> fst (qihse_mvcc_vacuum demo_store 3) = 1"
proof -
  have m: "marks_committed demo_store 3 (Some (\<lambda>t. t \<le> 2))"
    by (simp add: marks_committed_def demo_store_def gc_dead_def mvcc_eval)
  have "qihse_mvcc_read demo_store 0 (Some [7]) 4 (Some (\<lambda>t. t \<le> 2)) = Some [43]"
    by (simp add: demo_store_def mvcc_eval)
  moreover have "fst (qihse_mvcc_vacuum demo_store 3) = 1"
    by (simp add: demo_store_def qihse_mvcc_vacuum_def mvcc_eval)
  ultimately show ?thesis
    using mvcc_gc_preserves_reads [OF demo_store_reachable m, of 4 0 "Some [7]"] by simp
qed

text \<open>
  C32: the proviso of the previous property is needed. The collection looks only at the mark,
  not at whether the marking transaction committed. Let a reader see the newest version of a
  row, on top of its chain and not superseded, and no older one. When another transaction updates the row and does not commit,
  the reader still gets that version; a collection with any cutoff above that transaction's
  id then removes it, and the reader gets nothing.
\<close>
theorem mvcc_gc_drops_row_of_aborted_update:
  assumes "mvcc_reachable st" and "chain_of st e k = v # older"
    and "\<not> is_delete v" "xmax v = QIHSE_MVCC_INVALID_XMAX" "version_visible v s cb"
    and "\<forall>u \<in> set older. is_delete u \<or> \<not> version_visible u s cb"
    and "qihse_mvcc_update al st e (Some k) val t = (0, st')"
    and "\<not> cb_holds cb t" "t \<noteq> QIHSE_MVCC_INVALID_XMAX" "t < m"
  shows "qihse_mvcc_read st' e (Some k) s cb = Some (ver_value v) \<and>
    qihse_mvcc_read (snd (qihse_mvcc_gc st' m)) e (Some k) s cb = None"
proof -
  have inv: "mvcc_inv st" by (rule reachable_inv [OF assms(1)])
  obtain n where n: "version_create al t val = Some n" and inv': "mvcc_inv st'"
    and chain: "chain_of st' e k = n # v\<lparr>xmax := t\<rparr> # older"
    using update_effect [OF inv assms(7)] assms(2-4) by (auto simp: supersede_def)
  have "qihse_mvcc_read st e (Some k) s cb = Some (ver_value v)"
    using assms(2,3,5) by (simp add: mvcc_read_chain)
  then have "qihse_mvcc_read st' e (Some k) s cb = Some (ver_value v)"
    using hidden_apply_read [OF inv, of s cb t al "MUpdate e (Some k) val" e "Some k"] assms(7,8)
    by (simp add: hidden_writer_def)
  moreover have "\<not> version_visible n s cb"
    using assms(8) version_create_Some(1) [OF n] by (simp add: version_visible_def)
  then have "\<forall>u \<in> set (chain_of (snd (qihse_mvcc_gc st' m)) e k). is_delete u \<or> \<not> version_visible u s cb"
    using assms(3,6,9,10) by (auto simp: chain_of_gc [OF inv'] chain gc_dead_def)
  from read_from_none [OF this] have "qihse_mvcc_read (snd (qihse_mvcc_gc st' m)) e (Some k) s cb = None"
    by (simp add: mvcc_read_chain)
  ultimately show ?thesis by simp
qed

theorem mvcc_gc_drops_row_of_aborted_update_witness:
  "qihse_mvcc_read (snd (qihse_mvcc_gc demo_store 3)) 0 (Some [7]) 4 (Some (\<lambda>t. t = 1)) = None \<and>
   qihse_mvcc_read demo_store 0 (Some [7]) 4 (Some (\<lambda>t. t = 1)) = Some [42]"
proof -
  let ?st = "mvcc_run (mvcc_fresh 1) [(alloc_ok, 1, MInsert 0 (Some [7]) (Some [42]))]"
  let ?v = "\<lparr>xmin = 1, xmax = 0, ver_value = [42], is_delete = False, delete_snapshot = 0\<rparr>"
  have "mvcc_reachable ?st" by (intro mvcc_run_reachable fresh_reachable)
  moreover have "chain_of ?st 0 [7] = ?v # []" by (simp add: chain_of_def mvcc_eval)
  moreover have "qihse_mvcc_update alloc_ok ?st 0 (Some [7]) (Some [43]) 2 = (0, demo_store)"
    by (simp add: demo_store_def mvcc_eval)
  ultimately show ?thesis
    using mvcc_gc_drops_row_of_aborted_update [of ?st 0 "[7]" ?v "[]" 4 "Some (\<lambda>t. t = 1)" alloc_ok "Some [43]" 2
        demo_store 3] by (simp add: version_visible_def cb_holds_def QIHSE_MVCC_INVALID_XMAX_def)
qed

text \<open>
  When each writer succeeds. An insert or update succeeds exactly if the key is given
  and short enough and every allocation it needs succeeds; a delete succeeds exactly if the
  key has a row with a nonempty chain and the intent can be allocated.
\<close>
lemma writers_succeed_iff:
  "(fst (qihse_mvcc_insert al st e key val t) = 0 \<longleftrightarrow>
      (\<exists>k. key = Some k \<and> length k < 256 \<and> (alloc_row al \<or> (\<exists>r. row_lookup st e k = Some r)) \<and>
           alloc_version al \<and> (value_bytes val = [] \<or> alloc_value al))) \<and>
   (fst (qihse_mvcc_update al st e key val t) = 0 \<longleftrightarrow>
      (\<exists>k. key = Some k \<and> length k < 256 \<and> (alloc_row al \<or> (\<exists>r. row_lookup st e k = Some r)) \<and>
           alloc_version al \<and> (value_bytes val = [] \<or> alloc_value al))) \<and>
   (fst (qihse_mvcc_delete al st e key t) = 0 \<longleftrightarrow>
      (\<exists>k. key = Some k \<and> chain_of st e k \<noteq> [] \<and> alloc_version al))"
proof -
  have v: "version_create al t val \<noteq> None \<longleftrightarrow>
      alloc_version al \<and> (value_bytes val = [] \<or> alloc_value al)" for val
    by (cases val) (simp_all add: version_create_def value_bytes_def)
  have ins: "fst (qihse_mvcc_insert al st e (Some k) val t) = 0 \<longleftrightarrow>
      length k < 256 \<and> (alloc_row al \<or> (\<exists>r. row_lookup st e k = Some r)) \<and>
      version_create al t val \<noteq> None" for k
    by (cases "row_lookup st e k"; cases "version_create al t val")
      (simp_all add: qihse_mvcc_insert_def row_create_def QIHSE_MVCC_MAX_KEY_def)
  have upd: "fst (qihse_mvcc_update al st e (Some k) val t) = 0 \<longleftrightarrow>
      length k < 256 \<and> (alloc_row al \<or> (\<exists>r. row_lookup st e k = Some r)) \<and>
      version_create al t val \<noteq> None" for k
    by (cases "row_lookup st e k"; cases "version_create al t val")
      (simp_all add: qihse_mvcc_update_def update_section_def Let_def QIHSE_MVCC_MAX_KEY_def ins)
  have del: "fst (qihse_mvcc_delete al st e (Some k) t) = 0 \<longleftrightarrow>
      chain_of st e k \<noteq> [] \<and> version_create al t None \<noteq> None" for k
    by (cases "row_lookup st e k"; cases "version_create al t None")
      (simp_all add: qihse_mvcc_delete_def chain_of_def)
  show ?thesis
  proof (cases key)
    case None
    then show ?thesis
      by (simp add: qihse_mvcc_insert_def qihse_mvcc_update_def qihse_mvcc_delete_def)
  next
    case (Some k)
    have "value_bytes None = []" by (simp add: value_bytes_def)
    then show ?thesis unfolding Some by (simp only: ins upd del v option.inject simp_thms ex_simps)
  qed
qed

end
