(* ===== verification/Txn.thy ===== *)
theory Txn
  imports Buckets
begin

section \<open>The transaction manager\<close>

text \<open>
  Model of \<^verbatim>\<open>src/tractable/qihse_txn.c\<close>: BEGIN, COMMIT, ROLLBACK, savepoints, the registry of
  finished transactions, optimistic validation for SERIALIZABLE transactions against a
  pruned history of committed write sets, transaction-local resources and two-phase commit.

  Conventions. A transaction handle is an address in \<open>handles\<close>; the caller and the list of
  active transactions share it, so writing through it is an update of \<open>handles\<close>. An address
  without a handle stands for a NULL pointer. What the environment decides (whether an
  allocation succeeds, what a resource's or participant's callback returns) is the record
  \<open>txn_env\<close>. The calls the manager makes to callbacks are appended to \<open>calls\<close>. The manager
  lock makes each operation one atomic function of the state. The array \<open>savepoints\<close> and
  the buffer \<open>rw_set\<close> are lists of their used part, so their counts are list lengths.
\<close>

definition QIHSE_TXN_FIRST_ID :: u64 where
  "QIHSE_TXN_FIRST_ID = 1"

definition QIHSE_TXN_MAX_SAVEPOINTS :: nat where
  "QIHSE_TXN_MAX_SAVEPOINTS = 64"

definition QIHSE_TXN_MAX_PARTICIPANTS :: nat where
  "QIHSE_TXN_MAX_PARTICIPANTS = 16"

datatype txn_state = TXN_ACTIVE | TXN_PREPARED | TXN_COMMITTED | TXN_ABORTED

datatype isolation_level = ISO_READ_COMMITTED | ISO_REPEATABLE_READ | ISO_SERIALIZABLE

record savepoint =
  sp_name :: string
  sp_lsn :: u64
  sp_write_count :: int

record rw_entry =
  rw_engine :: u8
  rw_key :: bytes
  rw_is_write :: bool

record txn =
  txn_id :: u64
  state :: txn_state
  isolation :: isolation_level
  snapshot :: u64
  serialization_snapshot :: u64
  start_lsn :: u64
  savepoints :: "savepoint list"
  rw_set :: "rw_entry list"
  rw_capacity :: int
  write_count :: int
  resource_ctx :: "nat option"
  resource_commit :: bool
  resource_rollback :: bool

record registry_entry =
  reg_txn_id :: u64
  reg_state :: txn_state

record committed_summary =
  sum_commit_seq :: u64
  sum_txn_id :: u64
  sum_writes :: "rw_entry list"

record participant =
  part_engine :: u8
  part_prepare :: bool
  part_commit :: bool
  part_abort :: bool

datatype txn_call =
    CallResourceCommit nat
  | CallResourceRollback nat
  | CallPrepare nat u64
  | CallCommit nat u64
  | CallAbort nat u64

type_synonym txn_ref = nat

record txn_manager =
  next_txn_id :: u64
  handles :: "txn_ref \<Rightarrow> txn option"
  next_ref :: txn_ref
  active :: "txn_ref list"
  active_count :: int
  registry_n_buckets :: nat
  registry_buckets :: "registry_entry list list"
  commit_seq :: u64
  committed :: "committed_summary list"
  committed_count :: nat
  participants :: "participant list"
  calls :: "txn_call list"

record txn_env =
  ok_handle :: bool
  ok_active :: bool
  ok_registry :: bool
  ok_summary :: bool
  ok_rw :: bool
  rc_resource_commit :: int
  rc_prepare :: "nat \<Rightarrow> int"

subsection \<open>Registry\<close>

definition registry_hash :: "u64 \<Rightarrow> nat \<Rightarrow> nat" where
  "registry_hash t n = unat (t * 2654435761) mod n"

definition registry_find :: "txn_manager \<Rightarrow> u64 \<Rightarrow> registry_entry option" where
  "registry_find m t =
     bucket_find (\<lambda>e. reg_txn_id e = t) (registry_buckets m) (registry_hash t (registry_n_buckets m))"

definition registry_link :: "txn_manager \<Rightarrow> registry_entry \<Rightarrow> txn_manager" where
  "registry_link m e =
     m\<lparr>registry_buckets := bucket_push (registry_buckets m)
                              (registry_hash (reg_txn_id e) (registry_n_buckets m)) e\<rparr>"

definition registry_alloc :: "txn_env \<Rightarrow> u64 \<Rightarrow> txn_state \<Rightarrow> registry_entry option" where
  "registry_alloc env t st =
     (if ok_registry env then Some \<lparr>reg_txn_id = t, reg_state = st\<rparr> else None)"

definition registry_insert :: "txn_env \<Rightarrow> txn_manager \<Rightarrow> u64 \<Rightarrow> txn_state \<Rightarrow> bool \<times> txn_manager" where
  "registry_insert env m t st =
     (case registry_alloc env t st of
        None \<Rightarrow> (False, m)
      | Some e \<Rightarrow> (True, registry_link m e))"

subsection \<open>Active transactions\<close>

definition txn_at :: "txn_manager \<Rightarrow> txn_ref \<Rightarrow> (txn \<Rightarrow> txn) \<Rightarrow> txn_manager" where
  "txn_at m p f = m\<lparr>handles := (handles m)(p := map_option f (handles m p))\<rparr>"

definition has_id :: "txn_manager \<Rightarrow> u64 \<Rightarrow> txn_ref \<Rightarrow> bool" where
  "has_id m t p = (case handles m p of None \<Rightarrow> False | Some x \<Rightarrow> txn_id x = t)"

definition active_add :: "txn_env \<Rightarrow> txn_manager \<Rightarrow> txn_ref \<Rightarrow> bool \<times> txn_manager" where
  "active_add env m p =
     (if \<not> ok_active env then (False, m)
      else (True, m\<lparr>active := p # active m, active_count := active_count m + 1\<rparr>))"

definition active_remove :: "txn_manager \<Rightarrow> u64 \<Rightarrow> txn_manager" where
  "active_remove m t =
     (if list_ex (has_id m t) (active m)
      then m\<lparr>active := remove_first (has_id m t) (active m), active_count := active_count m - 1\<rparr>
      else m)"

definition is_live :: "txn \<Rightarrow> bool" where
  "is_live x \<longleftrightarrow> state x = TXN_ACTIVE \<or> state x = TXN_PREPARED"

definition serial_live :: "txn_manager \<Rightarrow> txn_ref \<Rightarrow> bool" where
  "serial_live m p =
     (case handles m p of None \<Rightarrow> False | Some x \<Rightarrow> isolation x = ISO_SERIALIZABLE \<and> is_live x)"

subsection \<open>History of committed write sets\<close>

primrec min_snapshot_loop :: "txn_manager \<Rightarrow> txn_ref list \<Rightarrow> bool \<times> u64 \<Rightarrow> bool \<times> u64" where
  "min_snapshot_loop m [] acc = acc"
| "min_snapshot_loop m (p # ps) acc =
     min_snapshot_loop m ps
       (case handles m p of
          None \<Rightarrow> acc
        | Some x \<Rightarrow>
            if isolation x \<noteq> ISO_SERIALIZABLE \<or> \<not> is_live x then acc
            else (True, if \<not> fst acc \<or> serialization_snapshot x < snd acc
                        then serialization_snapshot x else snd acc))"

definition min_serializable_snapshot_locked :: "txn_manager \<Rightarrow> bool \<times> u64" where
  "min_serializable_snapshot_locked m = min_snapshot_loop m (active m) (False, UINT64_MAX)"

primrec prune_loop ::
    "bool \<times> u64 \<Rightarrow> committed_summary list \<Rightarrow> nat \<Rightarrow> committed_summary list \<times> nat" where
  "prune_loop fm [] n = ([], n)"
| "prune_loop fm (s # ss) n =
     (if \<not> fst fm \<or> sum_commit_seq s \<le> snd fm then prune_loop fm ss (n - 1) else (s # ss, n))"

definition prune_committed_history_locked :: "txn_manager \<Rightarrow> txn_manager" where
  "prune_committed_history_locked m =
     (let r = prune_loop (min_serializable_snapshot_locked m) (committed m) (committed_count m) in
      m\<lparr>committed := fst r, committed_count := snd r\<rparr>)"

definition summary_needed_locked :: "txn_manager \<Rightarrow> txn_ref \<Rightarrow> txn \<Rightarrow> bool" where
  "summary_needed_locked m p x =
     (if write_count x = 0 then False
      else list_ex (\<lambda>q. q \<noteq> p \<and> serial_live m q) (active m))"

definition committed_summary_create :: "txn_env \<Rightarrow> txn \<Rightarrow> u64 \<Rightarrow> committed_summary option" where
  "committed_summary_create env x seq =
     (if \<not> ok_summary env then None
      else Some \<lparr>sum_commit_seq = seq, sum_txn_id = txn_id x,
                 sum_writes = filter rw_is_write (rw_set x)\<rparr>)"

definition committed_summary_append_locked ::
    "txn_manager \<Rightarrow> committed_summary option \<Rightarrow> txn_manager" where
  "committed_summary_append_locked m s =
     (case s of
        None \<Rightarrow> m
      | Some x \<Rightarrow> m\<lparr>committed := committed m @ [x], committed_count := committed_count m + 1\<rparr>)"

definition rw_keys_equal :: "rw_entry \<Rightarrow> rw_entry \<Rightarrow> bool" where
  "rw_keys_equal a b \<longleftrightarrow>
     rw_engine a = rw_engine b \<and> length (rw_key a) = length (rw_key b) \<and> rw_key a = rw_key b"

definition validate_occ_locked :: "txn_manager \<Rightarrow> txn \<Rightarrow> int" where
  "validate_occ_locked m x =
     (if isolation x \<noteq> ISO_SERIALIZABLE then 0
      else if list_ex (\<lambda>s. sum_commit_seq s > serialization_snapshot x \<and>
                list_ex (\<lambda>w. list_ex (\<lambda>r. rw_keys_equal w r) (rw_set x)) (sum_writes s))
              (committed m)
      then -1 else 0)"

definition call :: "txn_manager \<Rightarrow> txn_call \<Rightarrow> txn_manager" where
  "call m c = m\<lparr>calls := calls m @ [c]\<rparr>"

definition clear_resource :: "txn \<Rightarrow> txn" where
  "clear_resource x = x\<lparr>resource_ctx := None, resource_commit := False, resource_rollback := False\<rparr>"

definition txn_resource_rollback :: "txn_manager \<Rightarrow> txn_ref \<Rightarrow> txn_manager" where
  "txn_resource_rollback m p =
     (case handles m p of
        None \<Rightarrow> m
      | Some x \<Rightarrow>
          (case resource_ctx x of
             None \<Rightarrow> m
           | Some r \<Rightarrow>
               txn_at (if resource_rollback x then call m (CallResourceRollback r) else m)
                 p clear_resource))"

subsection \<open>Lifecycle and BEGIN\<close>

definition qihse_txn_manager_create :: "bool \<Rightarrow> bool \<Rightarrow> bool \<Rightarrow> txn_manager option" where
  "qihse_txn_manager_create ok_mgr ok_arena ok_buckets =
     (if \<not> ok_mgr then None
      else if \<not> ok_arena then None
      else if \<not> ok_buckets then None
      else Some \<lparr>next_txn_id = QIHSE_TXN_FIRST_ID, handles = (\<lambda>_. None), next_ref = 0,
                 active = [], active_count = 0,
                 registry_n_buckets = 1024, registry_buckets = replicate 1024 [],
                 commit_seq = 0, committed = [], committed_count = 0,
                 participants = [], calls = []\<rparr>)"

primrec destroy_loop :: "txn_manager \<Rightarrow> txn_ref list \<Rightarrow> txn_manager" where
  "destroy_loop m [] = m"
| "destroy_loop m (p # ps) =
     destroy_loop (txn_at (txn_resource_rollback m p) p (\<lambda>x. x\<lparr>rw_set := []\<rparr>)) ps"

definition qihse_txn_manager_destroy :: "txn_manager \<Rightarrow> txn_manager" where
  "qihse_txn_manager_destroy m = (destroy_loop m (active m))\<lparr>committed := []\<rparr>"

definition new_txn :: "txn_manager \<Rightarrow> isolation_level \<Rightarrow> txn" where
  "new_txn m lvl =
     \<lparr>txn_id = next_txn_id m, state = TXN_ACTIVE, isolation = lvl,
      snapshot = next_txn_id m - 1, serialization_snapshot = commit_seq m, start_lsn = 0,
      savepoints = [], rw_set = [], rw_capacity = 0, write_count = 0,
      resource_ctx = None, resource_commit = False, resource_rollback = False\<rparr>"

definition qihse_txn_begin ::
    "txn_env \<Rightarrow> txn_manager \<Rightarrow> isolation_level \<Rightarrow> txn_ref option \<times> txn_manager" where
  "qihse_txn_begin env m lvl =
     (if \<not> ok_handle env then (None, m)
      else
        let m1 = m\<lparr>next_txn_id := next_txn_id m + 1\<rparr>;
            p = next_ref m;
            m2 = m1\<lparr>handles := (handles m)(p \<mapsto> new_txn m lvl), next_ref := p + 1\<rparr>
        in (case active_add env m2 p of
              (True, m3) \<Rightarrow> (Some p, m3)
            | (False, _) \<Rightarrow> (None, m1)))"

subsection \<open>COMMIT and ROLLBACK\<close>

text \<open>
  The five failure branches of COMMIT share one sequence of calls: mark the handle, record
  the abort in the registry, unlink it, roll its resource back, prune. \<open>abort_locked\<close> is
  that sequence; the branch taken when the registry entry cannot be allocated skips the
  registry (\<open>reg = False\<close>). The 2PC branches (\<open>abort_2pc_locked\<close>) have no resource.
\<close>

definition set_state :: "txn_manager \<Rightarrow> txn_ref \<Rightarrow> txn_state \<Rightarrow> txn_manager" where
  "set_state m p st = txn_at m p (\<lambda>x. x\<lparr>state := st\<rparr>)"

definition abort_locked :: "bool \<Rightarrow> txn_env \<Rightarrow> txn_manager \<Rightarrow> txn_ref \<Rightarrow> u64 \<Rightarrow> txn_manager" where
  "abort_locked reg env m p t =
     (let m1 = set_state m p TXN_ABORTED;
          m2 = (if reg then snd (registry_insert env m1 t TXN_ABORTED) else m1);
          m3 = active_remove m2 t;
          m4 = txn_resource_rollback m3 p
      in prune_committed_history_locked m4)"

definition qihse_txn_commit :: "txn_env \<Rightarrow> txn_manager \<Rightarrow> txn_ref \<Rightarrow> int \<times> txn_manager" where
  "qihse_txn_commit env m p =
     (case handles m p of
        None \<Rightarrow> (-1, m)
      | Some x \<Rightarrow>
          if state x \<noteq> TXN_ACTIVE then (-1, m)
          else if isolation x = ISO_SERIALIZABLE \<and> validate_occ_locked m x \<noteq> 0
          then (-1, abort_locked True env m p (txn_id x))
          else if commit_seq m = UINT64_MAX
          then (-1, abort_locked True env m p (txn_id x))
          else
            let seq = commit_seq m + 1;
                needed = summary_needed_locked m p x;
                summary = (if needed then committed_summary_create env x seq else None)
            in
              if needed \<and> summary = None
              then (-1, abort_locked True env m p (txn_id x))
              else
                (case registry_alloc env (txn_id x) TXN_COMMITTED of
                   None \<Rightarrow> (-1, abort_locked False env m p (txn_id x))
                 | Some entry \<Rightarrow>
                     let m0 = (case resource_ctx x of
                                 None \<Rightarrow> m
                               | Some r \<Rightarrow> if resource_commit x then call m (CallResourceCommit r) else m)
                     in
                       if resource_ctx x \<noteq> None \<and>
                          (\<not> resource_commit x \<or> rc_resource_commit env \<noteq> 0)
                       then
                         let m1 = registry_link m0 (entry\<lparr>reg_state := TXN_ABORTED\<rparr>);
                             m2 = txn_at m1 p (\<lambda>y. (clear_resource y)\<lparr>state := TXN_ABORTED\<rparr>);
                             m3 = active_remove m2 (txn_id x)
                         in (-1, prune_committed_history_locked m3)
                       else
                         let m1 = registry_link m0 entry;
                             m2 = txn_at m1 p (\<lambda>y. (clear_resource y)\<lparr>state := TXN_COMMITTED\<rparr>);
                             m3 = m2\<lparr>commit_seq := seq\<rparr>;
                             m4 = committed_summary_append_locked m3 summary;
                             m5 = active_remove m4 (txn_id x)
                         in (0, prune_committed_history_locked m5)))"

definition qihse_txn_rollback :: "txn_env \<Rightarrow> txn_manager \<Rightarrow> txn_ref \<Rightarrow> int \<times> txn_manager" where
  "qihse_txn_rollback env m p =
     (case handles m p of
        None \<Rightarrow> (-1, m)
      | Some x \<Rightarrow>
          if state x \<noteq> TXN_ACTIVE then (-1, m)
          else
            let entry = registry_alloc env (txn_id x) TXN_ABORTED;
                m1 = txn_resource_rollback m p;
                m2 = set_state m1 p TXN_ABORTED;
                m3 = (case entry of None \<Rightarrow> m2 | Some e \<Rightarrow> registry_link m2 e);
                m4 = active_remove m3 (txn_id x)
            in (0, prune_committed_history_locked m4))"

subsection \<open>Savepoints\<close>

definition qihse_txn_savepoint ::
    "txn_manager \<Rightarrow> txn_ref \<Rightarrow> string option \<Rightarrow> int \<times> txn_manager" where
  "qihse_txn_savepoint m p name =
     (case (handles m p, name) of
        (Some x, Some nm) \<Rightarrow>
          if state x \<noteq> TXN_ACTIVE then (-1, m)
          else if resource_ctx x \<noteq> None then (-1, m)
          else if length (savepoints x) \<ge> QIHSE_TXN_MAX_SAVEPOINTS then (-1, m)
          else (0, txn_at m p (\<lambda>y. y\<lparr>savepoints := savepoints y @
                 [\<lparr>sp_name = take 63 nm, sp_lsn = start_lsn y, sp_write_count = write_count y\<rparr>]\<rparr>))
      | _ \<Rightarrow> (-1, m))"

primrec find_savepoint :: "savepoint list \<Rightarrow> string \<Rightarrow> nat \<Rightarrow> int" where
  "find_savepoint sps nm 0 = -1"
| "find_savepoint sps nm (Suc i) =
     (if sp_name (sps ! i) = nm then int i else find_savepoint sps nm i)"

primrec keep_writes :: "int \<Rightarrow> int \<Rightarrow> rw_entry list \<Rightarrow> rw_entry list" where
  "keep_writes limit seen [] = []"
| "keep_writes limit seen (e # es) =
     (if rw_is_write e
      then (if seen < limit then e # keep_writes limit (seen + 1) es else keep_writes limit seen es)
      else e # keep_writes limit seen es)"

definition qihse_txn_rollback_to_savepoint ::
    "txn_manager \<Rightarrow> txn_ref \<Rightarrow> string option \<Rightarrow> int \<times> txn_manager" where
  "qihse_txn_rollback_to_savepoint m p name =
     (case (handles m p, name) of
        (Some x, Some nm) \<Rightarrow>
          if state x \<noteq> TXN_ACTIVE \<or> resource_ctx x \<noteq> None then (-1, m)
          else
            let found = find_savepoint (savepoints x) nm (length (savepoints x)) in
            if found < 0 then (-1, m)
            else
              let sp = savepoints x ! nat found in
              (0, txn_at m p (\<lambda>y. y\<lparr>write_count := sp_write_count sp,
                     savepoints := take (nat found + 1) (savepoints y),
                     rw_set := (if int (length (rw_set y)) > sp_write_count sp
                                then keep_writes (sp_write_count sp) 0 (rw_set y)
                                else rw_set y)\<rparr>))
      | _ \<Rightarrow> (-1, m))"

subsection \<open>Snapshots and the read/write set\<close>

definition qihse_txn_refresh_snapshot :: "txn_manager \<Rightarrow> txn_ref \<Rightarrow> txn_manager" where
  "qihse_txn_refresh_snapshot m p = txn_at m p (\<lambda>x. x\<lparr>snapshot := next_txn_id m - 1\<rparr>)"

definition qihse_txn_get_snapshot :: "txn_manager \<Rightarrow> txn_ref \<Rightarrow> u64" where
  "qihse_txn_get_snapshot m p = (case handles m p of None \<Rightarrow> 0 | Some x \<Rightarrow> snapshot x)"

function grow_capacity :: "int \<Rightarrow> int \<Rightarrow> int" where
  "grow_capacity cap needed =
     (if 0 < cap \<and> cap < needed then grow_capacity (cap * 2) needed else cap)"
  by pat_completeness auto
termination
  by (relation "measure (\<lambda>(cap, needed). nat (needed - cap))") auto

definition rw_set_ensure_capacity :: "txn_env \<Rightarrow> txn \<Rightarrow> int \<Rightarrow> int \<times> txn" where
  "rw_set_ensure_capacity env x needed =
     (if rw_capacity x \<ge> needed then (0, x)
      else
        let cap = grow_capacity (if rw_capacity x = 0 then 16 else rw_capacity x * 2) needed in
        if \<not> ok_rw env then (-1, x) else (0, x\<lparr>rw_capacity := cap\<rparr>))"

definition rw_entry_of :: "u8 \<Rightarrow> bytes \<Rightarrow> bool \<Rightarrow> rw_entry" where
  "rw_entry_of eng k wr = \<lparr>rw_engine = eng, rw_key = take 255 k, rw_is_write = wr\<rparr>"

definition qihse_txn_record_read ::
    "txn_env \<Rightarrow> txn_manager \<Rightarrow> txn_ref \<Rightarrow> u8 \<Rightarrow> bytes option \<Rightarrow> int \<times> txn_manager" where
  "qihse_txn_record_read env m p eng key =
     (case (handles m p, key) of
        (Some x, Some k) \<Rightarrow>
          (case rw_set_ensure_capacity env x (int (length (rw_set x)) + 1) of
             (rc, x') \<Rightarrow>
               if rc \<noteq> 0 then (-1, m)
               else (0, txn_at m p (\<lambda>_. x'\<lparr>rw_set := rw_set x' @ [rw_entry_of eng k False]\<rparr>)))
      | _ \<Rightarrow> (-1, m))"

definition qihse_txn_record_write ::
    "txn_env \<Rightarrow> txn_manager \<Rightarrow> txn_ref \<Rightarrow> u8 \<Rightarrow> bytes option \<Rightarrow> int \<times> txn_manager" where
  "qihse_txn_record_write env m p eng key =
     (case (handles m p, key) of
        (Some x, Some k) \<Rightarrow>
          (case rw_set_ensure_capacity env x (int (length (rw_set x)) + 1) of
             (rc, x') \<Rightarrow>
               if rc \<noteq> 0 then (-1, m)
               else (0, txn_at m p (\<lambda>_. x'\<lparr>rw_set := rw_set x' @ [rw_entry_of eng k True],
                                            write_count := write_count x' + 1\<rparr>)))
      | _ \<Rightarrow> (-1, m))"

definition qihse_txn_validate_occ :: "txn_manager \<Rightarrow> txn_ref \<Rightarrow> int" where
  "qihse_txn_validate_occ m p =
     (case handles m p of None \<Rightarrow> -1 | Some x \<Rightarrow> validate_occ_locked m x)"

definition qihse_txn_attach_resource ::
    "txn_manager \<Rightarrow> txn_ref \<Rightarrow> nat option \<Rightarrow> bool \<Rightarrow> bool \<Rightarrow> int \<times> txn_manager" where
  "qihse_txn_attach_resource m p ctx commit_fn rollback_fn =
     (case handles m p of
        None \<Rightarrow> (-1, m)
      | Some x \<Rightarrow>
          if state x \<noteq> TXN_ACTIVE \<or> ctx = None \<or> \<not> commit_fn \<or> \<not> rollback_fn \<or>
             resource_ctx x \<noteq> None
          then (-1, m)
          else (0, txn_at m p (\<lambda>y. y\<lparr>resource_ctx := ctx, resource_commit := commit_fn,
                                     resource_rollback := rollback_fn\<rparr>)))"

subsection \<open>Two-phase commit\<close>

definition qihse_txn_register_participant :: "txn_manager \<Rightarrow> participant \<Rightarrow> int \<times> txn_manager" where
  "qihse_txn_register_participant m q =
     (if length (participants m) \<ge> QIHSE_TXN_MAX_PARTICIPANTS then (-1, m)
      else (0, m\<lparr>participants := participants m @ [q]\<rparr>))"

primrec prepare_loop ::
    "txn_env \<Rightarrow> txn_manager \<Rightarrow> u64 \<Rightarrow> nat \<Rightarrow> participant list \<Rightarrow> bool \<times> txn_manager" where
  "prepare_loop env m t i [] = (True, m)"
| "prepare_loop env m t i (q # qs) =
     (if part_prepare q
      then (let m1 = call m (CallPrepare i t) in
            if rc_prepare env i \<noteq> 0 then (False, m1) else prepare_loop env m1 t (i + 1) qs)
      else prepare_loop env m t (i + 1) qs)"

primrec abort_loop :: "txn_manager \<Rightarrow> u64 \<Rightarrow> nat \<Rightarrow> participant list \<Rightarrow> txn_manager" where
  "abort_loop m t i [] = m"
| "abort_loop m t i (q # qs) =
     abort_loop (if part_abort q then call m (CallAbort i t) else m) t (i + 1) qs"

primrec commit_loop :: "txn_manager \<Rightarrow> u64 \<Rightarrow> nat \<Rightarrow> participant list \<Rightarrow> txn_manager" where
  "commit_loop m t i [] = m"
| "commit_loop m t i (q # qs) =
     commit_loop (if part_commit q then call m (CallCommit i t) else m) t (i + 1) qs"

definition abort_2pc_locked ::
    "bool \<Rightarrow> txn_env \<Rightarrow> txn_manager \<Rightarrow> txn_ref \<Rightarrow> u64 \<Rightarrow> txn_manager" where
  "abort_2pc_locked reg env m p t =
     (let m1 = set_state m p TXN_ABORTED;
          m2 = (if reg then snd (registry_insert env m1 t TXN_ABORTED) else m1)
      in prune_committed_history_locked (active_remove m2 t))"

definition qihse_txn_prepare :: "txn_env \<Rightarrow> txn_manager \<Rightarrow> txn_ref \<Rightarrow> int \<times> txn_manager" where
  "qihse_txn_prepare env m p =
     (case handles m p of
        None \<Rightarrow> (-1, m)
      | Some x \<Rightarrow>
          if state x \<noteq> TXN_ACTIVE then (-1, m)
          else if resource_ctx x \<noteq> None then (-1, m)
          else (case prepare_loop env m (txn_id x) 0 (participants m) of
                  (False, m1) \<Rightarrow> (-1, abort_2pc_locked True env m1 p (txn_id x))
                | (True, m1) \<Rightarrow> (0, set_state m1 p TXN_PREPARED)))"

definition qihse_txn_commit_prepared :: "txn_env \<Rightarrow> txn_manager \<Rightarrow> txn_ref \<Rightarrow> int \<times> txn_manager" where
  "qihse_txn_commit_prepared env m p =
     (case handles m p of
        None \<Rightarrow> (-1, m)
      | Some x \<Rightarrow>
          if state x \<noteq> TXN_PREPARED then (-1, m)
          else
            let aborted = abort_loop m (txn_id x) 0 (participants m) in
            if validate_occ_locked m x \<noteq> 0 \<or> commit_seq m = UINT64_MAX
            then (-1, abort_2pc_locked True env aborted p (txn_id x))
            else
              let seq = commit_seq m + 1;
                  needed = summary_needed_locked m p x;
                  summary = (if needed then committed_summary_create env x seq else None)
              in
                if needed \<and> summary = None
                then (-1, abort_2pc_locked True env aborted p (txn_id x))
                else
                  (case registry_insert env m (txn_id x) TXN_COMMITTED of
                     (False, _) \<Rightarrow> (-1, abort_2pc_locked False env aborted p (txn_id x))
                   | (True, m0) \<Rightarrow>
                       let m1 = commit_loop m0 (txn_id x) 0 (participants m0);
                           m2 = set_state m1 p TXN_COMMITTED;
                           m3 = m2\<lparr>commit_seq := seq\<rparr>;
                           m4 = committed_summary_append_locked m3 summary;
                           m5 = active_remove m4 (txn_id x)
                       in (0, prune_committed_history_locked m5)))"

definition qihse_txn_abort_prepared :: "txn_env \<Rightarrow> txn_manager \<Rightarrow> txn_ref \<Rightarrow> int \<times> txn_manager" where
  "qihse_txn_abort_prepared env m p =
     (case handles m p of
        None \<Rightarrow> (-1, m)
      | Some x \<Rightarrow>
          if state x \<noteq> TXN_PREPARED then (-1, m)
          else
            let m1 = abort_loop m (txn_id x) 0 (participants m);
                m2 = set_state m1 p TXN_ABORTED;
                m3 = snd (registry_insert env m2 (txn_id x) TXN_ABORTED)
            in (0, active_remove m3 (txn_id x)))"

subsection \<open>Registry queries, LSNs and recovery support\<close>

definition qihse_txn_is_committed :: "txn_manager \<Rightarrow> u64 \<Rightarrow> bool" where
  "qihse_txn_is_committed m t =
     (case registry_find m t of None \<Rightarrow> False | Some e \<Rightarrow> reg_state e = TXN_COMMITTED)"

definition qihse_txn_is_aborted :: "txn_manager \<Rightarrow> u64 \<Rightarrow> bool" where
  "qihse_txn_is_aborted m t =
     (case registry_find m t of None \<Rightarrow> False | Some e \<Rightarrow> reg_state e = TXN_ABORTED)"

definition qihse_txn_active_count :: "txn_manager \<Rightarrow> int" where
  "qihse_txn_active_count m = active_count m"

definition qihse_txn_active_list :: "bool \<Rightarrow> txn_manager \<Rightarrow> u64 list option" where
  "qihse_txn_active_list ok_ids m =
     (let count = active_count m in
      if \<not> ok_ids \<and> count > 0 then None
      else Some (map (\<lambda>p. case handles m p of None \<Rightarrow> 0 | Some x \<Rightarrow> txn_id x)
                   (take (nat count) (active m))))"

definition qihse_txn_committed_history_count :: "txn_manager \<Rightarrow> nat" where
  "qihse_txn_committed_history_count m = committed_count m"

definition qihse_txn_set_start_lsn :: "txn_manager \<Rightarrow> txn_ref \<Rightarrow> u64 \<Rightarrow> txn_manager" where
  "qihse_txn_set_start_lsn m p lsn = txn_at m p (\<lambda>x. x\<lparr>start_lsn := lsn\<rparr>)"

definition qihse_txn_get_start_lsn :: "txn_manager \<Rightarrow> txn_ref \<Rightarrow> u64" where
  "qihse_txn_get_start_lsn m p = (case handles m p of None \<Rightarrow> 0 | Some x \<Rightarrow> start_lsn x)"

definition bump_next_id :: "txn_manager \<Rightarrow> u64 \<Rightarrow> txn_manager" where
  "bump_next_id m t = (if t \<ge> next_txn_id m then m\<lparr>next_txn_id := t + 1\<rparr> else m)"

definition qihse_txn_register_committed :: "txn_env \<Rightarrow> txn_manager \<Rightarrow> u64 \<Rightarrow> txn_manager" where
  "qihse_txn_register_committed env m t =
     bump_next_id (snd (registry_insert env m t TXN_COMMITTED)) t"

definition qihse_txn_register_aborted :: "txn_env \<Rightarrow> txn_manager \<Rightarrow> u64 \<Rightarrow> txn_manager" where
  "qihse_txn_register_aborted env m t =
     bump_next_id (snd (registry_insert env m t TXN_ABORTED)) t"

definition qihse_txn_set_next_id :: "txn_manager \<Rightarrow> u64 \<Rightarrow> txn_manager" where
  "qihse_txn_set_next_id m nid = (if nid > next_txn_id m then m\<lparr>next_txn_id := nid\<rparr> else m)"

subsection \<open>Every operation as one transition\<close>

datatype txn_op =
    Begin txn_env isolation_level
  | Commit txn_env txn_ref
  | Rollback txn_env txn_ref
  | Savepoint txn_ref "string option"
  | RollbackTo txn_ref "string option"
  | RefreshSnapshot txn_ref
  | RecordRead txn_env txn_ref u8 "bytes option"
  | RecordWrite txn_env txn_ref u8 "bytes option"
  | AttachResource txn_ref "nat option" bool bool
  | RegisterParticipant participant
  | Prepare txn_env txn_ref
  | CommitPrepared txn_env txn_ref
  | AbortPrepared txn_env txn_ref
  | SetStartLsn txn_ref u64
  | RegisterCommitted txn_env u64
  | RegisterAborted txn_env u64
  | SetNextId u64

fun txn_apply :: "txn_op \<Rightarrow> txn_manager \<Rightarrow> int \<times> txn_manager" where
  "txn_apply (Begin env lvl) m =
     (case qihse_txn_begin env m lvl of (None, m') \<Rightarrow> (-1, m') | (Some _, m') \<Rightarrow> (0, m'))"
| "txn_apply (Commit env p) m = qihse_txn_commit env m p"
| "txn_apply (Rollback env p) m = qihse_txn_rollback env m p"
| "txn_apply (Savepoint p nm) m = qihse_txn_savepoint m p nm"
| "txn_apply (RollbackTo p nm) m = qihse_txn_rollback_to_savepoint m p nm"
| "txn_apply (RefreshSnapshot p) m = (0, qihse_txn_refresh_snapshot m p)"
| "txn_apply (RecordRead env p eng k) m = qihse_txn_record_read env m p eng k"
| "txn_apply (RecordWrite env p eng k) m = qihse_txn_record_write env m p eng k"
| "txn_apply (AttachResource p ctx c r) m = qihse_txn_attach_resource m p ctx c r"
| "txn_apply (RegisterParticipant q) m = qihse_txn_register_participant m q"
| "txn_apply (Prepare env p) m = qihse_txn_prepare env m p"
| "txn_apply (CommitPrepared env p) m = qihse_txn_commit_prepared env m p"
| "txn_apply (AbortPrepared env p) m = qihse_txn_abort_prepared env m p"
| "txn_apply (SetStartLsn p l) m = (0, qihse_txn_set_start_lsn m p l)"
| "txn_apply (RegisterCommitted env t) m = (0, qihse_txn_register_committed env m t)"
| "txn_apply (RegisterAborted env t) m = (0, qihse_txn_register_aborted env m t)"
| "txn_apply (SetNextId n) m = (0, qihse_txn_set_next_id m n)"

text \<open>
  The runs considered: identifiers do not wrap around (fewer than 2^64 transactions), and
  the recovery calls register only identifiers that belong to no handle of the running
  manager. Along a run, \<open>h\<close> collects the sequence number and the write set of every commit
  that returned 0: the full history, of which the manager keeps a pruned part.
\<close>

fun op_allowed :: "txn_op \<Rightarrow> txn_manager \<Rightarrow> bool" where
  "op_allowed (Begin env lvl) m \<longleftrightarrow> next_txn_id m \<noteq> UINT64_MAX"
| "op_allowed (RegisterCommitted env t) m \<longleftrightarrow> t \<noteq> UINT64_MAX \<and> (\<forall>p. \<not> has_id m t p)"
| "op_allowed (RegisterAborted env t) m \<longleftrightarrow> t \<noteq> UINT64_MAX \<and> (\<forall>p. \<not> has_id m t p)"
| "op_allowed _ m \<longleftrightarrow> True"

type_synonym commit_history = "(u64 \<times> rw_entry list) list"

definition writes_at :: "txn_manager \<Rightarrow> txn_ref \<Rightarrow> rw_entry list" where
  "writes_at m p = (case handles m p of None \<Rightarrow> [] | Some x \<Rightarrow> filter rw_is_write (rw_set x))"

fun log_commit :: "txn_op \<Rightarrow> txn_manager \<Rightarrow> int \<Rightarrow> commit_history \<Rightarrow> commit_history" where
  "log_commit (Commit env p) m rc h =
     (if rc = 0 then h @ [(commit_seq m + 1, writes_at m p)] else h)"
| "log_commit (CommitPrepared env p) m rc h =
     (if rc = 0 then h @ [(commit_seq m + 1, writes_at m p)] else h)"
| "log_commit _ m rc h = h"

inductive txn_reach :: "txn_manager \<Rightarrow> commit_history \<Rightarrow> bool" where
  create: "qihse_txn_manager_create a b c = Some m \<Longrightarrow> txn_reach m []"
| step: "txn_reach m h \<Longrightarrow> op_allowed op m \<Longrightarrow> txn_apply op m = (rc, m') \<Longrightarrow>
           txn_reach m' (log_commit op m rc h)"

subsection \<open>The invariant\<close>

definition reg_status :: "txn_manager \<Rightarrow> u64 \<Rightarrow> txn_state option" where
  "reg_status m t = map_option reg_state (registry_find m t)"

definition txn_wf :: "txn \<Rightarrow> bool" where
  "txn_wf x \<longleftrightarrow>
     write_count x = int (length (filter rw_is_write (rw_set x))) \<and>
     int (length (rw_set x)) \<le> rw_capacity x \<and>
     (\<forall>e \<in> set (rw_set x). length (rw_key e) \<le> 255) \<and>
     length (savepoints x) \<le> QIHSE_TXN_MAX_SAVEPOINTS \<and>
     (\<forall>s \<in> set (savepoints x). length (sp_name s) \<le> 63 \<and>
        0 \<le> sp_write_count s \<and> sp_write_count s \<le> write_count x) \<and>
     sorted_wrt (\<lambda>a b. sp_write_count a \<le> sp_write_count b) (savepoints x) \<and>
     (resource_ctx x = None \<longrightarrow> \<not> resource_commit x \<and> \<not> resource_rollback x) \<and>
     (resource_ctx x \<noteq> None \<longrightarrow> resource_commit x \<and> resource_rollback x \<and> state x = TXN_ACTIVE)"

definition handles_inv :: "txn_manager \<Rightarrow> bool" where
  "handles_inv m \<longleftrightarrow>
     (\<forall>p x. handles m p = Some x \<longrightarrow>
        p < next_ref m \<and> txn_id x < next_txn_id m \<and>
        serialization_snapshot x \<le> commit_seq m \<and> txn_wf x) \<and>
     (\<forall>p q x y. handles m p = Some x \<longrightarrow> handles m q = Some y \<longrightarrow> txn_id x = txn_id y \<longrightarrow> p = q) \<and>
     distinct (active m) \<and>
     (\<forall>p. p \<in> set (active m) \<longleftrightarrow> (\<exists>x. handles m p = Some x \<and> is_live x)) \<and>
     active_count m = int (length (active m))"

interpretation registry: bucket_table registry_hash reg_txn_id
  by unfold_locales (simp add: registry_hash_def)

definition status_agrees :: "txn_state option \<Rightarrow> txn_state \<Rightarrow> bool" where
  "status_agrees r st =
     (case st of
        TXN_ACTIVE \<Rightarrow> r = None
      | TXN_PREPARED \<Rightarrow> r = None
      | TXN_COMMITTED \<Rightarrow> r = Some TXN_COMMITTED
      | TXN_ABORTED \<Rightarrow> r = None \<or> r = Some TXN_ABORTED)"

definition registry_inv :: "txn_manager \<Rightarrow> bool" where
  "registry_inv m \<longleftrightarrow>
     registry.placed (registry_n_buckets m) (registry_buckets m) \<and>
     (\<forall>t. reg_status m t \<noteq> None \<longrightarrow> t < next_txn_id m) \<and>
     (\<forall>p x. handles m p = Some x \<longrightarrow> status_agrees (reg_status m (txn_id x)) (state x))"

definition history_inv :: "txn_manager \<Rightarrow> commit_history \<Rightarrow> bool" where
  "history_inv m h \<longleftrightarrow>
     committed_count m = length (committed m) \<and>
     sorted_wrt (<) (map sum_commit_seq (committed m)) \<and>
     (\<forall>s \<in> set (committed m). (sum_commit_seq s, sum_writes s) \<in> set h) \<and>
     sorted_wrt (<) (map fst h) \<and>
     (\<forall>c \<in> set h. fst c \<le> commit_seq m) \<and>
     (\<forall>c p x. c \<in> set h \<longrightarrow> snd c \<noteq> [] \<longrightarrow> handles m p = Some x \<longrightarrow>
        isolation x = ISO_SERIALIZABLE \<longrightarrow> is_live x \<longrightarrow> serialization_snapshot x < fst c \<longrightarrow>
        (\<exists>s \<in> set (committed m). sum_commit_seq s = fst c \<and> sum_writes s = snd c))"

definition mgr_inv :: "txn_manager \<Rightarrow> commit_history \<Rightarrow> bool" where
  "mgr_inv m h \<longleftrightarrow> handles_inv m \<and> registry_inv m \<and> history_inv m h"

subsection \<open>Finishing a transaction\<close>

text \<open>
  \<open>close_txn\<close> is the common shape of every operation that ends a transaction: the handle
  gets its terminal state and loses its resource, leaves the active list, may be recorded
  in the registry and in the history, and the history may be pruned. Each operation is
  shown to be an instance, so the invariant is proved once.
\<close>

definition close_txn ::
    "txn_manager \<Rightarrow> txn_ref \<Rightarrow> txn \<Rightarrow> txn_state \<Rightarrow> bool \<Rightarrow> u64 \<Rightarrow> committed_summary list \<Rightarrow>
     txn_call list \<Rightarrow> txn_manager" where
  "close_txn m p x st reg seq ss cs =
     m\<lparr>handles := (handles m)(p \<mapsto> (clear_resource x)\<lparr>state := st\<rparr>),
       active := remove1 p (active m), active_count := active_count m - 1,
       registry_buckets := (if reg then bucket_push (registry_buckets m)
            (registry_hash (txn_id x) (registry_n_buckets m)) \<lparr>reg_txn_id = txn_id x, reg_state = st\<rparr>
          else registry_buckets m),
       commit_seq := seq, committed := committed m @ ss,
       committed_count := committed_count m + length ss, calls := calls m @ cs\<rparr>"

lemma is_live_simps [simp]:
  "state x = TXN_ACTIVE \<Longrightarrow> is_live x" "state x = TXN_PREPARED \<Longrightarrow> is_live x"
  "state x = TXN_COMMITTED \<Longrightarrow> \<not> is_live x" "state x = TXN_ABORTED \<Longrightarrow> \<not> is_live x"
  by (simp_all add: is_live_def)

lemma remove_first_unique:
  assumes "distinct xs" "p \<in> set xs" "\<And>q. q \<in> set xs \<Longrightarrow> P q \<longleftrightarrow> q = p"
  shows "remove_first P xs = remove1 p xs"
  using assms by (induction xs) auto

lemma has_id_active:
  assumes "handles_inv m" "handles m p = Some x" "is_live x" "q \<in> set (active m)"
  shows "has_id m (txn_id x) q \<longleftrightarrow> q = p"
  using assms unfolding handles_inv_def has_id_def
  by (auto split: option.splits)

lemma handles_invD:
  assumes "handles_inv m" "handles m p = Some x"
  shows "p < next_ref m" "txn_id x < next_txn_id m" "serialization_snapshot x \<le> commit_seq m" "txn_wf x"
  using assms by (auto simp: handles_inv_def)

lemma live_in_active:
  "handles_inv m \<Longrightarrow> handles m p = Some x \<Longrightarrow> is_live x \<Longrightarrow> p \<in> set (active m)"
  by (auto simp: handles_inv_def)

lemma clear_resource_id: "resource_ctx x = None \<Longrightarrow> txn_wf x \<Longrightarrow> clear_resource x = x"
  by (simp add: clear_resource_def txn_wf_def)

lemma clear_resource_simps [simp]:
  "txn_id (clear_resource x) = txn_id x" "state (clear_resource x) = state x"
  "isolation (clear_resource x) = isolation x" "snapshot (clear_resource x) = snapshot x"
  "serialization_snapshot (clear_resource x) = serialization_snapshot x"
  "rw_set (clear_resource x) = rw_set x" "write_count (clear_resource x) = write_count x"
  "resource_ctx (clear_resource x) = None" "savepoints (clear_resource x) = savepoints x"
  "rw_capacity (clear_resource x) = rw_capacity x"
  "\<not> resource_commit (clear_resource x)" "\<not> resource_rollback (clear_resource x)"
  by (simp_all add: clear_resource_def)

text \<open>Removing by identifier from a state that differs from an invariant one only in the
  fields of the handle that do not matter there.\<close>

lemma active_remove_closes:
  assumes "handles_inv m" "handles m p = Some x" "is_live x"
    and "active m' = active m" "handles m' = (handles m)(p \<mapsto> y)" "txn_id y = txn_id x"
  shows "active_remove m' (txn_id x) =
           m'\<lparr>active := remove1 p (active m), active_count := active_count m' - 1\<rparr>"
proof -
  have eq: "has_id m' (txn_id x) q \<longleftrightarrow> q = p" if "q \<in> set (active m)" for q
    using has_id_active [OF assms(1-3) that] assms(2,5,6) by (auto simp: has_id_def)
  have p: "p \<in> set (active m)" using live_in_active [OF assms(1-3)] .
  moreover have "distinct (active m)" using assms(1) by (simp add: handles_inv_def)
  ultimately have "remove_first (has_id m' (txn_id x)) (active m) = remove1 p (active m)"
    using eq by (intro remove_first_unique)
  moreover have "list_ex (has_id m' (txn_id x)) (active m)" using p eq by (auto simp: list_ex_iff)
  ultimately show ?thesis using assms(4) by (simp add: active_remove_def)
qed

lemma mark_eq:
  assumes "handles m p = Some x"
  shows "(if reg then snd (registry_insert env (set_state m p st) (txn_id x) st) else set_state m p st) =
    m\<lparr>handles := (handles m)(p \<mapsto> x\<lparr>state := st\<rparr>),
      registry_buckets := (if reg \<and> ok_registry env then bucket_push (registry_buckets m)
            (registry_hash (txn_id x) (registry_n_buckets m)) \<lparr>reg_txn_id = txn_id x, reg_state = st\<rparr>
          else registry_buckets m)\<rparr>"
  using assms
  by (simp add: set_state_def txn_at_def registry_insert_def registry_alloc_def registry_link_def)

lemma close_mark:
  assumes "handles_inv m" "handles m p = Some x" "is_live x"
  shows "active_remove (if reg then snd (registry_insert env (set_state m p st) (txn_id x) st)
                        else set_state m p st) (txn_id x) =
    (close_txn m p x st (reg \<and> ok_registry env) (commit_seq m) [] [])
      \<lparr>handles := (handles m)(p \<mapsto> x\<lparr>state := st\<rparr>)\<rparr>"
proof -
  let ?m2 = "m\<lparr>handles := (handles m)(p \<mapsto> x\<lparr>state := st\<rparr>),
      registry_buckets := (if reg \<and> ok_registry env then bucket_push (registry_buckets m)
            (registry_hash (txn_id x) (registry_n_buckets m)) \<lparr>reg_txn_id = txn_id x, reg_state = st\<rparr>
          else registry_buckets m)\<rparr>"
  have "active_remove ?m2 (txn_id x) =
          ?m2\<lparr>active := remove1 p (active m), active_count := active_count ?m2 - 1\<rparr>"
    by (rule active_remove_closes [OF assms, where y = "x\<lparr>state := st\<rparr>"]) simp_all
  also have "\<dots> = (close_txn m p x st (reg \<and> ok_registry env) (commit_seq m) [] [])
      \<lparr>handles := (handles m)(p \<mapsto> x\<lparr>state := st\<rparr>)\<rparr>"
    by (simp add: close_txn_def)
  finally show ?thesis unfolding mark_eq [OF assms(2)] .
qed

lemma abort_locked_closes:
  assumes "handles_inv m" "handles m p = Some x" "is_live x"
  shows "abort_locked reg env m p (txn_id x) =
           prune_committed_history_locked
             (close_txn m p x TXN_ABORTED (reg \<and> ok_registry env) (commit_seq m) []
                (case resource_ctx x of None \<Rightarrow> [] | Some r \<Rightarrow> [CallResourceRollback r]))"
proof -
  have wf: "txn_wf x" using handles_invD(4) [OF assms(1,2)] .
  have rb: "resource_ctx x = Some r \<Longrightarrow> resource_rollback x" for r
    using wf by (simp add: txn_wf_def)
  have cl: "clear_resource (x\<lparr>state := s\<rparr>) = (clear_resource x)\<lparr>state := s\<rparr>" for s
    by (simp add: clear_resource_def)
  show ?thesis
    unfolding abort_locked_def Let_def close_mark [OF assms]
    using rb clear_resource_id [OF _ wf]
    by (intro arg_cong [where f = prune_committed_history_locked] txn_manager.equality;
        cases "resource_ctx x")
      (simp_all add: txn_resource_rollback_def txn_at_def call_def close_txn_def cl)
qed

lemma abort_2pc_locked_closes:
  assumes "handles_inv m" "handles m p = Some x" "is_live x" "resource_ctx x = None"
  shows "abort_2pc_locked reg env m p (txn_id x) =
           prune_committed_history_locked
             (close_txn m p x TXN_ABORTED (reg \<and> ok_registry env) (commit_seq m) [] [])"
  unfolding abort_2pc_locked_def Let_def close_mark [OF assms(1-3)]
  using clear_resource_id [OF assms(4) handles_invD(4) [OF assms(1,2)]]
  by (intro arg_cong [where f = prune_committed_history_locked] txn_manager.equality)
    (simp_all add: close_txn_def)

definition summary_of :: "txn \<Rightarrow> u64 \<Rightarrow> committed_summary" where
  "summary_of x seq = \<lparr>sum_commit_seq = seq, sum_txn_id = txn_id x,
                       sum_writes = filter rw_is_write (rw_set x)\<rparr>"

definition commit_refused :: "txn_env \<Rightarrow> txn_manager \<Rightarrow> txn_ref \<Rightarrow> txn \<Rightarrow> bool" where
  "commit_refused env m p x \<longleftrightarrow>
     validate_occ_locked m x \<noteq> 0 \<or> commit_seq m = UINT64_MAX \<or>
     summary_needed_locked m p x \<and> \<not> ok_summary env"

definition commit_summaries :: "txn_manager \<Rightarrow> txn_ref \<Rightarrow> txn \<Rightarrow> committed_summary list" where
  "commit_summaries m p x =
     (if summary_needed_locked m p x then [summary_of x (commit_seq m + 1)] else [])"

lemma finish_closes:
  assumes "handles_inv m" "handles m p = Some x" "is_live x"
  shows "active_remove
      (committed_summary_append_locked
        ((txn_at (registry_link (m\<lparr>calls := calls m @ cs\<rparr>) \<lparr>reg_txn_id = txn_id x, reg_state = st\<rparr>)
            p (\<lambda>y. (clear_resource y)\<lparr>state := st\<rparr>))\<lparr>commit_seq := seq\<rparr>) so) (txn_id x) =
    close_txn m p x st True seq (case so of None \<Rightarrow> [] | Some s \<Rightarrow> [s]) cs"
    (is "active_remove ?m' _ = _")
proof -
  have "active_remove ?m' (txn_id x) =
          ?m'\<lparr>active := remove1 p (active m), active_count := active_count ?m' - 1\<rparr>"
    by (rule active_remove_closes [OF assms, where y = "(clear_resource x)\<lparr>state := st\<rparr>"])
      (use assms(2) in \<open>auto simp: committed_summary_append_locked_def txn_at_def registry_link_def
         split: option.splits\<close>)
  then show ?thesis
    using assms(2)
    by (cases so)
      (auto intro!: txn_manager.equality
        simp: committed_summary_append_locked_def txn_at_def registry_link_def close_txn_def)
qed

lemma finish_closes_same:
  assumes "handles_inv m" "handles m p = Some x" "is_live x"
  shows "active_remove
      (txn_at (registry_link (m\<lparr>calls := calls m @ cs\<rparr>) \<lparr>reg_txn_id = txn_id x, reg_state = st\<rparr>)
            p (\<lambda>y. (clear_resource y)\<lparr>state := st\<rparr>)) (txn_id x) =
    close_txn m p x st True (commit_seq m) [] cs" (is "active_remove ?m' _ = _")
proof -
  have "?m'\<lparr>commit_seq := commit_seq m\<rparr> = ?m'"
    by (intro txn_manager.equality) (simp_all add: txn_at_def registry_link_def)
  with finish_closes [OF assms, where cs = cs and st = st and seq = "commit_seq m" and so = None] show ?thesis
    by (simp add: committed_summary_append_locked_def)
qed

lemma commit_closes:
  assumes "handles_inv m" "handles m p = Some x" "state x = TXN_ACTIVE"
  shows "qihse_txn_commit env m p =
    (if commit_refused env m p x \<or> \<not> ok_registry env
     then (-1, prune_committed_history_locked
                (close_txn m p x TXN_ABORTED (ok_registry env) (commit_seq m) []
                   (case resource_ctx x of None \<Rightarrow> [] | Some r \<Rightarrow> [CallResourceRollback r])))
     else if resource_ctx x \<noteq> None \<and> rc_resource_commit env \<noteq> 0
     then (-1, prune_committed_history_locked
                (close_txn m p x TXN_ABORTED True (commit_seq m) [] [CallResourceCommit (the (resource_ctx x))]))
     else (0, prune_committed_history_locked
                (close_txn m p x TXN_COMMITTED True (commit_seq m + 1) (commit_summaries m p x)
                   (case resource_ctx x of None \<Rightarrow> [] | Some r \<Rightarrow> [CallResourceCommit r]))))"
proof -
  have live: "is_live x" using assms(3) by simp
  have wf: "txn_wf x" using handles_invD(4) [OF assms(1,2)] .
  note fin = finish_closes [OF assms(1,2) live] finish_closes_same [OF assms(1,2) live]
    finish_closes [OF assms(1,2) live, where cs = "[]", simplified]
  note ab = abort_locked_closes [OF assms(1,2) live]
  have ser: "isolation x = ISO_SERIALIZABLE \<and> validate_occ_locked m x \<noteq> 0 \<longleftrightarrow>
               validate_occ_locked m x \<noteq> 0"
    by (auto simp: validate_occ_locked_def)
  define m0 where "m0 = m\<lparr>calls := calls m @ (case resource_ctx x of None \<Rightarrow> [] | Some r \<Rightarrow> [CallResourceCommit r])\<rparr>"
  have call: "(case resource_ctx x of None \<Rightarrow> m
       | Some r \<Rightarrow> if resource_commit x then call m (CallResourceCommit r) else m) = m0"
    using wf by (auto simp: m0_def call_def txn_wf_def split: option.splits)
  have rc: "resource_ctx x \<noteq> None \<and> (\<not> resource_commit x \<or> rc_resource_commit env \<noteq> 0) \<longleftrightarrow>
              resource_ctx x \<noteq> None \<and> rc_resource_commit env \<noteq> 0"
    using wf by (auto simp: txn_wf_def)
  have summ: "needed \<and> (if needed then committed_summary_create env x s else None) = None \<longleftrightarrow>
                needed \<and> \<not> ok_summary env" for needed s
    by (simp add: committed_summary_create_def)
  show ?thesis
  proof (cases "commit_refused env m p x \<or> \<not> ok_registry env")
    case True
    then show ?thesis
      unfolding qihse_txn_commit_def Let_def ser summ assms(2) option.case
      by (auto simp: assms(3) ab commit_refused_def registry_alloc_def)
  next
    case False
    then have "\<not> (summary_needed_locked m p x \<and> \<not> ok_summary env)" "ok_registry env"
        "validate_occ_locked m x = 0" "commit_seq m \<noteq> UINT64_MAX"
      by (auto simp: commit_refused_def)
    moreover have "(case (if summary_needed_locked m p x
          then committed_summary_create env x (commit_seq m + 1) else None) of None \<Rightarrow> [] | Some s \<Rightarrow> [s]) =
        commit_summaries m p x"
      using calculation(1) by (simp add: commit_summaries_def committed_summary_create_def summary_of_def)
    ultimately show ?thesis
      using False
      unfolding qihse_txn_commit_def Let_def ser summ call rc assms(2) option.case
      by (auto simp: assms(3) registry_alloc_def m0_def fin)
  qed
qed

definition abort_calls :: "u64 \<Rightarrow> participant list \<Rightarrow> txn_call list" where
  "abort_calls t qs = map (\<lambda>(i, q). CallAbort i t) (filter (part_abort \<circ> snd) (enumerate 0 qs))"

definition commit_calls :: "u64 \<Rightarrow> participant list \<Rightarrow> txn_call list" where
  "commit_calls t qs = map (\<lambda>(i, q). CallCommit i t) (filter (part_commit \<circ> snd) (enumerate 0 qs))"

definition prepare_calls :: "txn_env \<Rightarrow> u64 \<Rightarrow> participant list \<Rightarrow> txn_call list" where
  "prepare_calls env t qs =
     (let ps = filter (part_prepare \<circ> snd) (enumerate 0 qs);
          ok = (\<lambda>(i, q). rc_prepare env i = 0)
      in map (\<lambda>(i, q). CallPrepare i t) (takeWhile ok ps @ take 1 (dropWhile ok ps)))"

definition all_prepared :: "txn_env \<Rightarrow> participant list \<Rightarrow> bool" where
  "all_prepared env qs \<longleftrightarrow> (\<forall>i < length qs. part_prepare (qs ! i) \<longrightarrow> rc_prepare env i = 0)"

lemma abort_loop_calls:
  "abort_loop m t i qs = m\<lparr>calls := calls m @
     map (\<lambda>(i, q). CallAbort i t) (filter (part_abort \<circ> snd) (enumerate i qs))\<rparr>"
  by (induction qs arbitrary: m i) (simp_all add: call_def)

lemma commit_loop_calls:
  "commit_loop m t i qs = m\<lparr>calls := calls m @
     map (\<lambda>(i, q). CallCommit i t) (filter (part_commit \<circ> snd) (enumerate i qs))\<rparr>"
  by (induction qs arbitrary: m i) (simp_all add: call_def)

lemma prepare_loop_calls:
  "prepare_loop env m t i qs =
     (\<forall>j < length qs. part_prepare (qs ! j) \<longrightarrow> rc_prepare env (i + j) = 0,
      m\<lparr>calls := calls m @ map (\<lambda>(i, q). CallPrepare i t)
         (takeWhile (\<lambda>(i, q). rc_prepare env i = 0) (filter (part_prepare \<circ> snd) (enumerate i qs)) @
          take 1 (dropWhile (\<lambda>(i, q). rc_prepare env i = 0)
                   (filter (part_prepare \<circ> snd) (enumerate i qs))))\<rparr>)"
  by (induction qs arbitrary: m i) (auto simp: call_def All_less_Suc2 Let_def)

lemma handles_inv_calls [simp]: "handles_inv (m\<lparr>calls := cs\<rparr>) = handles_inv m"
  by (simp add: handles_inv_def)

lemma close_txn_calls [simp]:
  "close_txn (m\<lparr>calls := calls m @ cs\<rparr>) p x st reg seq ss [] = close_txn m p x st reg seq ss cs"
  by (simp add: close_txn_def)

lemma rollback_closes:
  assumes "handles_inv m" "handles m p = Some x" "state x = TXN_ACTIVE"
  shows "qihse_txn_rollback env m p =
    (0, prune_committed_history_locked
          (close_txn m p x TXN_ABORTED (ok_registry env) (commit_seq m) []
             (case resource_ctx x of None \<Rightarrow> [] | Some r \<Rightarrow> [CallResourceRollback r])))"
proof -
  have live: "is_live x" using assms(3) by simp
  have wf: "txn_wf x" using handles_invD(4) [OF assms(1,2)] .
  have rb: "resource_ctx x = Some r \<Longrightarrow> resource_rollback x" for r
    using wf by (simp add: txn_wf_def)
  define m1 where "m1 = (case registry_alloc env (txn_id x) TXN_ABORTED of
      None \<Rightarrow> set_state (txn_resource_rollback m p) p TXN_ABORTED
    | Some e \<Rightarrow> registry_link (set_state (txn_resource_rollback m p) p TXN_ABORTED) e)"
  have m1: "m1 = m\<lparr>handles := (handles m)(p \<mapsto> (clear_resource x)\<lparr>state := TXN_ABORTED\<rparr>),
      registry_buckets := (if ok_registry env then bucket_push (registry_buckets m)
         (registry_hash (txn_id x) (registry_n_buckets m)) \<lparr>reg_txn_id = txn_id x, reg_state = TXN_ABORTED\<rparr>
         else registry_buckets m),
      calls := calls m @ (case resource_ctx x of None \<Rightarrow> [] | Some r \<Rightarrow> [CallResourceRollback r])\<rparr>"
    using assms(2) clear_resource_id [OF _ wf] rb
    by (intro txn_manager.equality)
      (simp_all add: m1_def registry_alloc_def txn_resource_rollback_def set_state_def txn_at_def
        registry_link_def call_def split: option.split)
  have "active_remove m1 (txn_id x) =
      m1\<lparr>active := remove1 p (active m), active_count := active_count m1 - 1\<rparr>"
    by (rule active_remove_closes [OF assms(1,2) live, where y = "(clear_resource x)\<lparr>state := TXN_ABORTED\<rparr>"])
      (simp_all add: m1)
  also have "\<dots> = close_txn m p x TXN_ABORTED (ok_registry env) (commit_seq m) []
             (case resource_ctx x of None \<Rightarrow> [] | Some r \<Rightarrow> [CallResourceRollback r])"
    by (intro txn_manager.equality) (simp_all add: m1 close_txn_def)
  finally show ?thesis
    by (simp add: qihse_txn_rollback_def assms(2,3) Let_def flip: m1_def)
qed

lemma prepare_loop_eq:
  "prepare_loop env m t 0 qs = (all_prepared env qs, m\<lparr>calls := calls m @ prepare_calls env t qs\<rparr>)"
  unfolding prepare_loop_calls all_prepared_def prepare_calls_def Let_def by simp

lemma prepare_closes:
  assumes "handles_inv m" "handles m p = Some x" "state x = TXN_ACTIVE" "resource_ctx x = None"
  shows "qihse_txn_prepare env m p =
    (if all_prepared env (participants m)
     then (0, (txn_at m p (\<lambda>y. y\<lparr>state := TXN_PREPARED\<rparr>))
                \<lparr>calls := calls m @ prepare_calls env (txn_id x) (participants m)\<rparr>)
     else (-1, prune_committed_history_locked
                 (close_txn m p x TXN_ABORTED (ok_registry env) (commit_seq m) []
                    (prepare_calls env (txn_id x) (participants m)))))"
  using abort_2pc_locked_closes [of "m\<lparr>calls := calls m @ cs\<rparr>" p x for cs] assms
  by (cases "all_prepared env (participants m)")
    (simp_all add: qihse_txn_prepare_def prepare_loop_eq set_state_def txn_at_def)

lemma prepared_resource: "txn_wf x \<Longrightarrow> state x = TXN_PREPARED \<Longrightarrow> resource_ctx x = None"
  by (auto simp: txn_wf_def split: option.splits)

lemma commit_prepared_closes:
  assumes "handles_inv m" "handles m p = Some x" "state x = TXN_PREPARED"
  shows "qihse_txn_commit_prepared env m p =
    (if commit_refused env m p x \<or> \<not> ok_registry env
     then (-1, prune_committed_history_locked
                (close_txn m p x TXN_ABORTED (ok_registry env) (commit_seq m) []
                   (abort_calls (txn_id x) (participants m))))
     else (0, prune_committed_history_locked
                (close_txn m p x TXN_COMMITTED True (commit_seq m + 1) (commit_summaries m p x)
                   (commit_calls (txn_id x) (participants m)))))"
proof -
  have live: "is_live x" using assms(3) by simp
  have wf: "txn_wf x" using handles_invD(4) [OF assms(1,2)] .
  note res = prepared_resource [OF wf assms(3)]
  let ?cs = "commit_calls (txn_id x) (participants m)"
  let ?e = "\<lparr>reg_txn_id = txn_id x, reg_state = TXN_COMMITTED\<rparr>"
  have ab: "abort_2pc_locked reg env (abort_loop m (txn_id x) 0 (participants m)) p (txn_id x) =
      prune_committed_history_locked (close_txn m p x TXN_ABORTED (reg \<and> ok_registry env)
        (commit_seq m) [] (abort_calls (txn_id x) (participants m)))" for reg
    using abort_2pc_locked_closes [of "m\<lparr>calls := calls m @ abort_calls (txn_id x) (participants m)\<rparr>" p x]
      assms(1,2) live res
    by (simp add: abort_loop_calls abort_calls_def)
  have set: "set_state (commit_loop (registry_link m ?e) (txn_id x) 0 (participants (registry_link m ?e))) p TXN_COMMITTED =
      txn_at (registry_link (m\<lparr>calls := calls m @ ?cs\<rparr>) ?e) p (\<lambda>y. (clear_resource y)\<lparr>state := TXN_COMMITTED\<rparr>)"
    using assms(2) clear_resource_id [OF res wf]
    by (intro txn_manager.equality)
      (simp_all add: set_state_def txn_at_def commit_loop_calls commit_calls_def registry_link_def)
  note fin = finish_closes [OF assms(1,2) live, where cs = ?cs and st = TXN_COMMITTED]
  have summ: "needed \<and> (if needed then committed_summary_create env x s else None) = None \<longleftrightarrow>
                needed \<and> \<not> ok_summary env" for needed s
    by (simp add: committed_summary_create_def)
  have reg: "(if ok_registry env then (True, registry_link m ?e) else (False, m)) =
      registry_insert env m (txn_id x) TXN_COMMITTED"
    by (simp add: registry_insert_def registry_alloc_def)
  show ?thesis
  proof (cases "commit_refused env m p x \<or> \<not> ok_registry env")
    case True
    then show ?thesis
      unfolding qihse_txn_commit_prepared_def Let_def summ assms(2) option.case ab reg [symmetric]
      by (auto simp: assms(3) commit_refused_def)
  next
    case False
    then show ?thesis
      unfolding qihse_txn_commit_prepared_def Let_def summ assms(2) option.case ab reg [symmetric]
      by (auto simp: assms(3) commit_refused_def set [simplified] fin commit_summaries_def
          committed_summary_create_def summary_of_def)
  qed
qed

lemma abort_prepared_closes:
  assumes "handles_inv m" "handles m p = Some x" "state x = TXN_PREPARED"
  shows "qihse_txn_abort_prepared env m p =
    (0, close_txn m p x TXN_ABORTED (ok_registry env) (commit_seq m) []
          (abort_calls (txn_id x) (participants m)))"
proof -
  have live: "is_live x" using assms(3) by simp
  have wf: "txn_wf x" using handles_invD(4) [OF assms(1,2)] .
  let ?m = "m\<lparr>calls := calls m @ abort_calls (txn_id x) (participants m)\<rparr>"
  have "active_remove (snd (registry_insert env (set_state ?m p TXN_ABORTED) (txn_id x) TXN_ABORTED)) (txn_id x) =
    (close_txn ?m p x TXN_ABORTED (ok_registry env) (commit_seq m) [] [])
      \<lparr>handles := (handles m)(p \<mapsto> x\<lparr>state := TXN_ABORTED\<rparr>)\<rparr>"
    using close_mark [of ?m p x True] assms(1,2) live by simp
  also have "\<dots> = close_txn m p x TXN_ABORTED (ok_registry env) (commit_seq m) []
          (abort_calls (txn_id x) (participants m))"
    using clear_resource_id [OF prepared_resource [OF wf assms(3)] wf]
    by (intro txn_manager.equality) (simp_all add: close_txn_def)
  finally show ?thesis
    by (simp add: qihse_txn_abort_prepared_def assms(2,3) Let_def abort_loop_calls abort_calls_def)
qed

subsection \<open>Preservation of the invariant\<close>

lemma min_loop_found: "fst acc \<Longrightarrow>
    fst (min_snapshot_loop m ps acc) \<and> snd (min_snapshot_loop m ps acc) \<le> snd acc"
proof (induction ps arbitrary: acc)
  case (Cons p ps)
  show ?case
  proof (cases "handles m p")
    case (Some x)
    define acc' where "acc' = (if isolation x \<noteq> ISO_SERIALIZABLE \<or> \<not> is_live x then acc
        else (True, if \<not> fst acc \<or> serialization_snapshot x < snd acc
                    then serialization_snapshot x else snd acc))"
    have "fst acc'" "snd acc' \<le> snd acc" using Cons.prems by (auto simp: acc'_def)
    with Cons.IH [of acc'] Some show ?thesis by (auto simp: acc'_def)
  qed (use Cons in simp)
qed simp

lemma min_loop_le:
  assumes "p \<in> set ps" "handles m p = Some x" "isolation x = ISO_SERIALIZABLE" "is_live x"
  shows "fst (min_snapshot_loop m ps acc) \<and>
         snd (min_snapshot_loop m ps acc) \<le> serialization_snapshot x"
  using assms(1)
proof (induction ps arbitrary: acc)
  case (Cons q ps)
  show ?case
  proof (cases "q = p")
    case True
    define acc' where "acc' = (True, if \<not> fst acc \<or> serialization_snapshot x < snd acc
                    then serialization_snapshot x else snd acc)"
    have "fst acc'" "snd acc' \<le> serialization_snapshot x" by (auto simp: acc'_def)
    moreover have "min_snapshot_loop m (q # ps) acc = min_snapshot_loop m ps acc'"
      using True assms by (simp add: acc'_def)
    ultimately show ?thesis using min_loop_found [of acc' m ps] by (metis order_trans)
  qed (use Cons in simp)
qed simp

lemma min_loop_attained:
  "fst (min_snapshot_loop m ps acc) \<Longrightarrow>
     (fst acc \<and> snd (min_snapshot_loop m ps acc) = snd acc) \<or>
     (\<exists>p x. p \<in> set ps \<and> handles m p = Some x \<and> isolation x = ISO_SERIALIZABLE \<and> is_live x \<and>
        serialization_snapshot x = snd (min_snapshot_loop m ps acc))"
proof (induction ps arbitrary: acc)
  case (Cons p ps)
  show ?case
  proof (cases "handles m p")
    case (Some x)
    define acc' where "acc' = (if isolation x \<noteq> ISO_SERIALIZABLE \<or> \<not> is_live x then acc
        else (True, if \<not> fst acc \<or> serialization_snapshot x < snd acc
                    then serialization_snapshot x else snd acc))"
    have eq: "min_snapshot_loop m (p # ps) acc = min_snapshot_loop m ps acc'"
      by (simp add: Some acc'_def)
    have "(fst acc \<and> snd acc' = snd acc) \<or> snd acc' = serialization_snapshot x \<and>
        isolation x = ISO_SERIALIZABLE \<and> is_live x" if "fst acc'"
      using that by (auto simp: acc'_def split: if_splits)
    with Cons.IH [of acc'] Cons.prems Some show ?thesis
      unfolding eq by (metis list.set_intros)
  next
    case None
    with Cons.IH [of acc] Cons.prems show ?thesis by (auto simp: None)
  qed
qed simp

lemma prune_loop_eq:
  "prune_loop fm ss n =
     (dropWhile (\<lambda>s. \<not> fst fm \<or> sum_commit_seq s \<le> snd fm) ss,
      n - length (takeWhile (\<lambda>s. \<not> fst fm \<or> sum_commit_seq s \<le> snd fm) ss))"
  by (induction ss arbitrary: n) auto

abbreviation prunable :: "txn_manager \<Rightarrow> committed_summary \<Rightarrow> bool" where
  "prunable m s \<equiv> \<not> fst (min_serializable_snapshot_locked m) \<or>
     sum_commit_seq s \<le> snd (min_serializable_snapshot_locked m)"

lemma prune_eq:
  "prune_committed_history_locked m =
     m\<lparr>committed := dropWhile (prunable m) (committed m),
       committed_count := committed_count m - length (takeWhile (prunable m) (committed m))\<rparr>"
  by (simp add: prune_committed_history_locked_def prune_loop_eq Let_def)

lemma prune_view [view_simps]:
  "handles (prune_committed_history_locked m) = handles m"
  "active (prune_committed_history_locked m) = active m"
  "commit_seq (prune_committed_history_locked m) = commit_seq m"
  "next_txn_id (prune_committed_history_locked m) = next_txn_id m"
  "calls (prune_committed_history_locked m) = calls m"
  "participants (prune_committed_history_locked m) = participants m"
  "reg_status (prune_committed_history_locked m) = reg_status m"
  "handles_inv (prune_committed_history_locked m) = handles_inv m"
  "registry_inv (prune_committed_history_locked m) = registry_inv m"
  by (simp_all add: prune_eq handles_inv_def registry_inv_def reg_status_def registry_find_def fun_eq_iff)

lemma not_prunable:
  assumes "handles_inv m" "handles m p = Some x" "isolation x = ISO_SERIALIZABLE" "is_live x"
    and "serialization_snapshot x < sum_commit_seq s"
  shows "\<not> prunable m s"
proof -
  have "p \<in> set (active m)" using live_in_active [OF assms(1,2,4)] .
  from min_loop_le [OF this assms(2-4), of "(False, UINT64_MAX)"] assms(5)
  show ?thesis by (auto simp: min_serializable_snapshot_locked_def)
qed

lemma in_dropWhile: "s \<in> set ss \<Longrightarrow> \<not> P s \<Longrightarrow> s \<in> set (dropWhile P ss)"
  by (metis Un_iff set_append set_takeWhileD takeWhile_dropWhile_id)

lemma prune_history:
  assumes "handles_inv m" "history_inv m h"
  shows "history_inv (prune_committed_history_locked m) h"
proof -
  have sub: "set (dropWhile (prunable m) (committed m)) \<subseteq> set (committed m)"
    by (auto dest: set_dropWhileD)
  have "sorted_wrt (<) (map sum_commit_seq (dropWhile (prunable m) (committed m)))"
    using assms(2) unfolding history_inv_def
    by (metis (no_types, lifting) map_append sorted_wrt_append takeWhile_dropWhile_id)
  moreover have "length (takeWhile (prunable m) (committed m)) + length (dropWhile (prunable m) (committed m)) =
      length (committed m)"
    by (metis length_append takeWhile_dropWhile_id)
  moreover have "\<exists>s \<in> set (dropWhile (prunable m) (committed m)). sum_commit_seq s = fst c \<and> sum_writes s = snd c"
    if "c \<in> set h" "snd c \<noteq> []" "handles m p = Some x" "isolation x = ISO_SERIALIZABLE" "is_live x"
      "serialization_snapshot x < fst c" for c p x
    using assms(2) that not_prunable [OF assms(1) that(3-5)] in_dropWhile
    unfolding history_inv_def by metis
  ultimately show ?thesis
    using assms(2) sub unfolding history_inv_def prune_eq by auto
qed

lemma reg_status_search:
  "reg_status m t = map_option reg_state (registry.search (registry_n_buckets m) (registry_buckets m) t)"
  by (simp add: reg_status_def registry_find_def registry.search_def)

lemma close_view [view_simps]:
  "handles (close_txn m p x st reg seq ss cs) = (handles m)(p \<mapsto> (clear_resource x)\<lparr>state := st\<rparr>)"
  "active (close_txn m p x st reg seq ss cs) = remove1 p (active m)"
  "commit_seq (close_txn m p x st reg seq ss cs) = seq"
  "next_txn_id (close_txn m p x st reg seq ss cs) = next_txn_id m"
  "calls (close_txn m p x st reg seq ss cs) = calls m @ cs"
  "participants (close_txn m p x st reg seq ss cs) = participants m"
  "committed (close_txn m p x st reg seq ss cs) = committed m @ ss"
  "registry_n_buckets (close_txn m p x st reg seq ss cs) = registry_n_buckets m"
  by (simp_all add: close_txn_def)

lemma close_status:
  assumes "registry_inv m"
  shows "reg_status (close_txn m p x st reg seq ss cs) =
           (if reg then (reg_status m)(txn_id x \<mapsto> st) else reg_status m)"
proof -
  have "registry.placed (registry_n_buckets m) (registry_buckets m)"
    using assms by (simp add: registry_inv_def)
  from registry.search_push [OF this, of "\<lparr>reg_txn_id = txn_id x, reg_state = st\<rparr>"]
  show ?thesis by (auto simp: reg_status_search close_txn_def fun_eq_iff)
qed

lemma close_wf: "txn_wf x \<Longrightarrow> txn_wf ((clear_resource x)\<lparr>state := st\<rparr>)"
  by (auto simp: txn_wf_def)

lemma close_handles_inv:
  assumes "handles_inv m" "handles m p = Some x" "is_live x"
    and "st = TXN_COMMITTED \<or> st = TXN_ABORTED" "commit_seq m \<le> seq"
  shows "handles_inv (close_txn m p x st reg seq ss cs)"
proof -
  let ?m = "close_txn m p x st reg seq ss cs"
  have p: "p \<in> set (active m)" "distinct (active m)" "active_count m = int (length (active m))"
    using assms(1-3) live_in_active by (auto simp: handles_inv_def)
  have dead: "\<not> is_live ((clear_resource x)\<lparr>state := st\<rparr>)" using assms(4) by auto
  have 1: "q < next_ref m \<and> txn_id y < next_txn_id m \<and> serialization_snapshot y \<le> seq \<and> txn_wf y"
    if "handles ?m q = Some y" for q y
  proof (cases "q = p")
    case True
    with that have "y = (clear_resource x)\<lparr>state := st\<rparr>" by (simp add: view_simps)
    with True handles_invD [OF assms(1,2)] assms(5) close_wf show ?thesis by auto
  next
    case False
    with that have "handles m q = Some y" by (simp add: view_simps)
    from handles_invD [OF assms(1) this] assms(5) show ?thesis by auto
  qed
  have 2: "q = r" if "handles ?m q = Some y" "handles ?m r = Some z" "txn_id y = txn_id z" for q r y z
  proof -
    have old: "\<exists>y'. handles m q = Some y' \<and> txn_id y' = txn_id y" if "handles ?m q = Some y" for q y
      using that assms(2) by (cases "q = p") (auto simp: view_simps)
    from old [OF that(1)] old [OF that(2)] that(3) assms(1) show ?thesis
      unfolding handles_inv_def by metis
  qed
  have 3: "q \<in> set (active ?m) \<longleftrightarrow> (\<exists>y. handles ?m q = Some y \<and> is_live y)" for q
    using assms(1) p(2) dead by (cases "q = p") (simp_all add: view_simps handles_inv_def)
  have 4: "active_count ?m = int (length (active ?m))" "distinct (active ?m)"
    using p length_pos_if_in_set [OF p(1)]
    by (simp_all add: close_txn_def length_remove1 of_nat_diff Suc_leI)
  have 5: "next_ref ?m = next_ref m" "next_txn_id ?m = next_txn_id m" "commit_seq ?m = seq"
    by (simp_all add: close_txn_def)
  show ?thesis unfolding handles_inv_def 5 using 1 2 3 4 by blast
qed

lemma close_registry_inv:
  assumes "handles_inv m" "registry_inv m" "handles m p = Some x" "is_live x"
    and "st = TXN_COMMITTED \<and> reg \<or> st = TXN_ABORTED"
  shows "registry_inv (close_txn m p x st reg seq ss cs)"
proof -
  let ?m = "close_txn m p x st reg seq ss cs"
  note st = close_status [OF assms(2), of p x st reg seq ss cs]
  have "registry.placed (registry_n_buckets ?m) (registry_buckets ?m)"
    using assms(2) registry.placed_push [of "registry_n_buckets m" "registry_buckets m"
        "\<lparr>reg_txn_id = txn_id x, reg_state = st\<rparr>"]
    by (simp add: registry_inv_def close_txn_def)
  moreover have "\<forall>t. reg_status ?m t \<noteq> None \<longrightarrow> t < next_txn_id ?m"
    using assms(2) handles_invD(2) [OF assms(1,3)]
    by (auto simp: st view_simps registry_inv_def)
  moreover have "status_agrees (reg_status ?m (txn_id y)) (state y)" if "handles ?m q = Some y" for q y
  proof (cases "q = p")
    case True
    have "reg_status m (txn_id x) = None"
      using assms(2-4) unfolding registry_inv_def status_agrees_def is_live_def by fastforce
    with True that assms(5) show ?thesis
      by (auto simp: view_simps st status_agrees_def)
  next
    case False
    with that have q: "handles m q = Some y" by (simp add: view_simps)
    with False assms(1,3) have "txn_id y \<noteq> txn_id x" unfolding handles_inv_def by metis
    with q assms(2) show ?thesis by (auto simp: st registry_inv_def)
  qed
  ultimately show ?thesis unfolding registry_inv_def by blast
qed

lemma close_history_abort:
  assumes "history_inv m h" "handles m p = Some x" "st = TXN_ABORTED"
  shows "history_inv (close_txn m p x st reg (commit_seq m) [] cs) h"
proof -
  let ?m = "close_txn m p x st reg (commit_seq m) [] cs"
  have live: "handles m q = Some y" if "handles ?m q = Some y" "is_live y" for q y
    using that assms(3) by (cases "q = p") (auto simp: view_simps)
  have same: "committed_count ?m = committed_count m" "committed ?m = committed m"
      "commit_seq ?m = commit_seq m"
    by (simp_all add: close_txn_def)
  show ?thesis
    using assms(1) live unfolding history_inv_def same by blast
qed

lemma summary_needed:
  assumes "handles_inv m" "txn_wf x" "handles m q = Some y" "isolation y = ISO_SERIALIZABLE" "is_live y"
    "q \<noteq> p" "filter rw_is_write (rw_set x) \<noteq> []"
  shows "summary_needed_locked m p x"
proof -
  have "write_count x \<noteq> 0" using assms(2,7) by (simp add: txn_wf_def)
  moreover have "serial_live m q" using assms(3-5) by (simp add: serial_live_def)
  ultimately show ?thesis
    using live_in_active [OF assms(1,3,5)] assms(6)
    by (auto simp: summary_needed_locked_def list_ex_iff)
qed

lemma close_history_commit:
  assumes "handles_inv m" "history_inv m h" "handles m p = Some x" "commit_seq m \<noteq> UINT64_MAX"
  shows "history_inv (close_txn m p x TXN_COMMITTED True (commit_seq m + 1) (commit_summaries m p x) cs)
           (h @ [(commit_seq m + 1, writes_at m p)])"
proof -
  let ?seq = "commit_seq m + 1"
  let ?m = "close_txn m p x TXN_COMMITTED True ?seq (commit_summaries m p x) cs"
  let ?h = "h @ [(?seq, writes_at m p)]"
  have wf: "txn_wf x" using handles_invD(4) [OF assms(1,3)] .
  have ws: "writes_at m p = filter rw_is_write (rw_set x)" by (simp add: writes_at_def assms(3))
  have gt: "commit_seq m < ?seq" using u64_succ_greater [OF assms(4)] .
  have old: "fst c < ?seq" if "c \<in> set h" for c
    using assms(2) that gt unfolding history_inv_def by (meson le_less_trans)
  have old': "sum_commit_seq s < ?seq" if "s \<in> set (committed m)" for s
    using assms(2) that old unfolding history_inv_def by fastforce
  have live: "handles m q = Some y \<and> q \<noteq> p" if "handles ?m q = Some y" "is_live y" for q y
    using that by (cases "q = p") (auto simp: view_simps)
  have 1: "committed_count ?m = length (committed ?m)"
    using assms(2) by (simp add: history_inv_def close_txn_def)
  have 2: "sorted_wrt (<) (map sum_commit_seq (committed ?m))" "sorted_wrt (<) (map fst ?h)"
    using assms(2) old old'
    by (auto simp: history_inv_def view_simps commit_summaries_def summary_of_def sorted_wrt_append)
  have 3: "\<forall>s \<in> set (committed ?m). (sum_commit_seq s, sum_writes s) \<in> set ?h"
    using assms(2)
    by (auto simp: history_inv_def view_simps commit_summaries_def summary_of_def ws)
  have 4: "\<forall>c \<in> set ?h. fst c \<le> commit_seq ?m"
    using old by (auto simp: view_simps less_imp_le)
  have 5: "\<exists>s \<in> set (committed ?m). sum_commit_seq s = fst c \<and> sum_writes s = snd c"
    if c: "c \<in> set ?h" "snd c \<noteq> []" and y: "handles ?m q = Some y" "isolation y = ISO_SERIALIZABLE"
      "is_live y" "serialization_snapshot y < fst c" for c q y
  proof (cases "c \<in> set h")
    case True
    have "\<exists>s \<in> set (committed m). sum_commit_seq s = fst c \<and> sum_writes s = snd c"
      using assms(2) True c(2) y live [OF y(1,3)] unfolding history_inv_def by blast
    then show ?thesis by (auto simp: view_simps)
  next
    case False
    with c have c: "c = (?seq, filter rw_is_write (rw_set x))" "filter rw_is_write (rw_set x) \<noteq> []"
      by (auto simp: ws)
    from summary_needed [OF assms(1) wf _ y(2,3) _ c(2)] live [OF y(1,3)]
    have "summary_needed_locked m p x" by blast
    then show ?thesis by (simp add: view_simps commit_summaries_def summary_of_def c(1))
  qed
  show ?thesis unfolding history_inv_def using 1 2 3 4 5 by blast
qed

lemma closed_abort_inv:
  assumes "mgr_inv m h" "handles m p = Some x" "is_live x"
  shows "mgr_inv (close_txn m p x TXN_ABORTED reg (commit_seq m) [] cs) h"
    and "mgr_inv (prune_committed_history_locked
                    (close_txn m p x TXN_ABORTED reg (commit_seq m) [] cs)) h"
proof -
  have inv: "handles_inv m" "registry_inv m" "history_inv m h"
    using assms(1) by (simp_all add: mgr_inv_def)
  have hi: "handles_inv (close_txn m p x TXN_ABORTED reg (commit_seq m) [] cs)"
    by (rule close_handles_inv [OF inv(1) assms(2,3)]) simp_all
  have ri: "registry_inv (close_txn m p x TXN_ABORTED reg (commit_seq m) [] cs)"
    by (rule close_registry_inv [OF inv(1,2) assms(2,3)]) simp
  note hs = close_history_abort [OF inv(3) assms(2) refl]
  show "mgr_inv (close_txn m p x TXN_ABORTED reg (commit_seq m) [] cs) h"
    using hi ri hs by (simp add: mgr_inv_def)
  show "mgr_inv (prune_committed_history_locked
                    (close_txn m p x TXN_ABORTED reg (commit_seq m) [] cs)) h"
    using hi ri prune_history [OF hi hs] by (simp add: mgr_inv_def view_simps)
qed

lemma closed_commit_inv:
  assumes "mgr_inv m h" "handles m p = Some x" "is_live x" "commit_seq m \<noteq> UINT64_MAX"
  shows "mgr_inv (prune_committed_history_locked
             (close_txn m p x TXN_COMMITTED True (commit_seq m + 1) (commit_summaries m p x) cs))
           (h @ [(commit_seq m + 1, writes_at m p)])"
proof -
  let ?m = "close_txn m p x TXN_COMMITTED True (commit_seq m + 1) (commit_summaries m p x) cs"
  have inv: "handles_inv m" "registry_inv m" "history_inv m h"
    using assms(1) by (simp_all add: mgr_inv_def)
  have hi: "handles_inv ?m"
    by (rule close_handles_inv [OF inv(1) assms(2,3)])
      (use u64_succ_greater [OF assms(4)] in simp_all)
  have ri: "registry_inv ?m"
    by (rule close_registry_inv [OF inv(1,2) assms(2,3)]) simp
  show ?thesis
    using hi ri prune_history [OF hi close_history_commit [OF inv(1,3) assms(2,4)]]
    by (simp add: mgr_inv_def view_simps)
qed

lemma mgr_inv_calls [simp]: "mgr_inv (m\<lparr>calls := cs\<rparr>) h = mgr_inv m h"
  by (simp add: mgr_inv_def handles_inv_def registry_inv_def history_inv_def reg_status_def
      registry_find_def)

lemma mgr_inv_participants [simp]: "mgr_inv (m\<lparr>participants := qs\<rparr>) h = mgr_inv m h"
  by (simp add: mgr_inv_def handles_inv_def registry_inv_def history_inv_def reg_status_def
      registry_find_def)

lemma txn_at_view [view_simps]:
  "active (txn_at m p f) = active m" "commit_seq (txn_at m p f) = commit_seq m"
  "next_txn_id (txn_at m p f) = next_txn_id m" "next_ref (txn_at m p f) = next_ref m"
  "active_count (txn_at m p f) = active_count m" "reg_status (txn_at m p f) = reg_status m"
  "registry_n_buckets (txn_at m p f) = registry_n_buckets m"
  "registry_buckets (txn_at m p f) = registry_buckets m"
  "committed (txn_at m p f) = committed m" "committed_count (txn_at m p f) = committed_count m"
  "calls (txn_at m p f) = calls m"
  by (simp_all add: txn_at_def reg_status_def registry_find_def fun_eq_iff)

text \<open>An update of one handle that keeps its identity, its isolation level, its
  serialization snapshot and whether it is live.\<close>

lemma txn_at_inv:
  assumes inv: "mgr_inv m h" and x: "handles m p = Some x"
    and same: "txn_id (f x) = txn_id x" "isolation (f x) = isolation x"
      "serialization_snapshot (f x) = serialization_snapshot x"
    and st: "state (f x) = state x \<or> is_live x \<and> is_live (f x)"
    and wf: "txn_wf (f x)"
  shows "mgr_inv (txn_at m p f) h"
proof -
  let ?m = "txn_at m p f"
  have inv': "handles_inv m" "registry_inv m" "history_inv m h"
    using inv by (simp_all add: mgr_inv_def)
  have live: "is_live (f x) = is_live x" using st by (auto simp: is_live_def)
  have new: "handles ?m q = (if q = p then Some (f x) else handles m q)" for q
    using x by (simp add: txn_at_def)
  have old: "\<exists>y'. handles m q = Some y' \<and> txn_id y' = txn_id y \<and> isolation y' = isolation y \<and>
      serialization_snapshot y' = serialization_snapshot y \<and> is_live y' = is_live y"
    if "handles ?m q = Some y" for q y
    using that x same live by (cases "q = p") (auto simp: new)
  have 1: "q < next_ref m \<and> txn_id y < next_txn_id m \<and> serialization_snapshot y \<le> commit_seq m \<and> txn_wf y"
    if "handles ?m q = Some y" for q y
    using that handles_invD [OF inv'(1)] x same wf by (cases "q = p") (auto simp: new)
  have 2: "q = r" if "handles ?m q = Some y" "handles ?m r = Some z" "txn_id y = txn_id z" for q r y z
    using old [OF that(1)] old [OF that(2)] that(3) inv'(1) unfolding handles_inv_def by metis
  have 3: "q \<in> set (active m) \<longleftrightarrow> (\<exists>y. handles ?m q = Some y \<and> is_live y)" for q
    using inv'(1) x live unfolding handles_inv_def by (cases "q = p") (simp_all add: new)
  have "handles_inv ?m"
    using inv'(1) 1 2 3 unfolding handles_inv_def view_simps by blast
  moreover have "status_agrees (reg_status m (txn_id y)) (state y)" if "handles ?m q = Some y" for q y
  proof (cases "q = p")
    case True
    have "status_agrees (reg_status m (txn_id x)) (state x)"
      using inv'(2) x by (simp add: registry_inv_def)
    with True that same(1) st show ?thesis
      by (auto simp: new status_agrees_def is_live_def split: txn_state.splits)
  next
    case False
    with that inv'(2) show ?thesis by (simp add: new registry_inv_def)
  qed
  then have "registry_inv ?m"
    using inv'(2) unfolding registry_inv_def view_simps by blast
  moreover have "history_inv ?m h"
    using inv'(3) old unfolding history_inv_def view_simps by (metis (no_types, lifting))
  ultimately show ?thesis by (simp add: mgr_inv_def)
qed

lemma keep_writes_writes:
  "seen \<le> limit \<Longrightarrow>
     filter rw_is_write (keep_writes limit seen es) = take (nat (limit - seen)) (filter rw_is_write es)"
proof (induction es arbitrary: seen)
  case (Cons e es)
  show ?case
  proof (cases "rw_is_write e \<and> seen < limit")
    case True
    then have "nat (limit - seen) = Suc (nat (limit - (seen + 1)))" by arith
    with True Cons.IH [of "seen + 1"] show ?thesis by simp
  qed (use Cons in auto)
qed simp

lemma keep_writes_reads:
  "filter (\<lambda>e. \<not> rw_is_write e) (keep_writes limit seen es) = filter (\<lambda>e. \<not> rw_is_write e) es"
  by (induction es arbitrary: seen) auto

lemma keep_writes_bounds:
  "length (keep_writes limit seen es) \<le> length es"
  "set (keep_writes limit seen es) \<subseteq> set es"
  by (induction es arbitrary: seen) (auto simp: le_SucI)

lemma find_savepoint_found:
  "0 \<le> find_savepoint sps nm n \<Longrightarrow>
     nat (find_savepoint sps nm n) < n \<and> sp_name (sps ! nat (find_savepoint sps nm n)) = nm"
  by (induction n) (auto simp: less_Suc_eq)

lemma find_savepoint_last:
  "0 \<le> find_savepoint sps nm n \<Longrightarrow> nat (find_savepoint sps nm n) < j \<Longrightarrow> j < n \<Longrightarrow>
     sp_name (sps ! j) \<noteq> nm"
  by (induction n) (auto simp: less_Suc_eq split: if_splits)

lemma find_savepoint_none:
  "find_savepoint sps nm n < 0 \<longleftrightarrow> (\<forall>j < n. sp_name (sps ! j) \<noteq> nm)"
  by (induction n) (auto simp: less_Suc_eq)

lemma savepoint_inv:
  assumes "mgr_inv m h" shows "mgr_inv (snd (qihse_txn_savepoint m p name)) h"
proof (cases "handles m p")
  case (Some x)
  have wf: "txn_wf x" using assms Some by (auto simp: mgr_inv_def dest: handles_invD)
  define f :: "string \<Rightarrow> txn \<Rightarrow> txn" where "f nm y = y\<lparr>savepoints := savepoints y @
    [\<lparr>sp_name = take 63 nm, sp_lsn = start_lsn y, sp_write_count = write_count y\<rparr>]\<rparr>" for nm y
  have "mgr_inv (txn_at m p (f nm)) h" if "length (savepoints x) < QIHSE_TXN_MAX_SAVEPOINTS" for nm
    by (rule txn_at_inv [OF assms Some])
      (use wf that in \<open>auto simp: f_def txn_wf_def sorted_wrt_append\<close>)
  with assms Some show ?thesis
    by (simp add: qihse_txn_savepoint_def f_def [abs_def] split: option.split)
qed (simp add: qihse_txn_savepoint_def assms)

lemma writes_le_length: "txn_wf x \<Longrightarrow> write_count x \<le> int (length (rw_set x))"
  by (simp add: txn_wf_def)

definition rolled_back :: "txn \<Rightarrow> nat \<Rightarrow> txn" where
  "rolled_back y i =
     y\<lparr>write_count := sp_write_count (savepoints y ! i),
       savepoints := take (i + 1) (savepoints y),
       rw_set := (if int (length (rw_set y)) > sp_write_count (savepoints y ! i)
                  then keep_writes (sp_write_count (savepoints y ! i)) 0 (rw_set y) else rw_set y)\<rparr>"

lemma sorted_nth_prefix:
  assumes "sorted_wrt R xs" "i < length xs" "s \<in> set (take (Suc i) xs)"
  shows "s = xs ! i \<or> R s (xs ! i)"
proof -
  from assms(2,3) obtain j where "j \<le> i" "s = xs ! j"
    by (auto simp: in_set_conv_nth less_Suc_eq_le)
  with assms(1,2) show ?thesis by (cases "j = i") (auto simp: sorted_wrt_iff_nth_less)
qed

lemma rolled_back_writes:
  assumes "txn_wf x" "i < length (savepoints x)"
  shows "filter rw_is_write (rw_set (rolled_back x i)) =
           take (nat (sp_write_count (savepoints x ! i))) (filter rw_is_write (rw_set x))"
proof -
  let ?c = "sp_write_count (savepoints x ! i)"
  have c: "0 \<le> ?c" "?c \<le> write_count x" using assms by (auto simp: txn_wf_def)
  have "length (filter rw_is_write (rw_set x)) \<le> nat ?c" if "int (length (rw_set x)) \<le> ?c"
    using that length_filter_le [of rw_is_write "rw_set x"] by linarith
  then show ?thesis using c by (simp add: rolled_back_def keep_writes_writes)
qed

lemma rolled_back_wf:
  assumes "txn_wf x" "i < length (savepoints x)"
  shows "txn_wf (rolled_back x i)"
proof -
  let ?y = "rolled_back x i" and ?c = "sp_write_count (savepoints x ! i)"
  have c: "0 \<le> ?c" "?c \<le> write_count x" using assms by (auto simp: txn_wf_def)
  have 1: "write_count ?y = int (length (filter rw_is_write (rw_set ?y)))"
    using c assms(1) unfolding rolled_back_writes [OF assms]
    by (simp add: rolled_back_def txn_wf_def)
  have 2: "length (rw_set ?y) \<le> length (rw_set x)" "set (rw_set ?y) \<subseteq> set (rw_set x)"
    using keep_writes_bounds [of ?c 0 "rw_set x"] by (auto simp: rolled_back_def)
  have 3: "\<forall>s \<in> set (savepoints ?y). length (sp_name s) \<le> 63 \<and>
      0 \<le> sp_write_count s \<and> sp_write_count s \<le> write_count ?y"
    using assms sorted_nth_prefix [of "\<lambda>a b. sp_write_count a \<le> sp_write_count b" "savepoints x" i]
    by (auto simp: rolled_back_def txn_wf_def dest: in_set_takeD)
  have 4: "sorted_wrt (\<lambda>a b. sp_write_count a \<le> sp_write_count b) (savepoints ?y)"
      "length (savepoints ?y) \<le> QIHSE_TXN_MAX_SAVEPOINTS"
    using assms by (auto simp: rolled_back_def txn_wf_def sorted_wrt_take)
  have 5: "rw_capacity ?y = rw_capacity x" "resource_ctx ?y = resource_ctx x" "state ?y = state x"
      "resource_commit ?y = resource_commit x" "resource_rollback ?y = resource_rollback x"
    by (simp_all add: rolled_back_def)
  have "int (length (rw_set ?y)) \<le> rw_capacity x" "\<forall>e \<in> set (rw_set ?y). length (rw_key e) \<le> 255"
    using assms(1) 2 by (auto simp: txn_wf_def)
  with 1 3 4 assms(1) show ?thesis unfolding txn_wf_def 5 by blast
qed

lemma rollback_to_eq:
  assumes "handles m p = Some x" "state x = TXN_ACTIVE" "resource_ctx x = None"
  shows "qihse_txn_rollback_to_savepoint m p (Some nm) =
    (let found = find_savepoint (savepoints x) nm (length (savepoints x)) in
     if found < 0 then (-1, m) else (0, txn_at m p (\<lambda>y. rolled_back x (nat found))))"
  using assms
  by (auto simp: qihse_txn_rollback_to_savepoint_def Let_def txn_at_def rolled_back_def)

lemma rollback_to_inv:
  assumes "mgr_inv m h" shows "mgr_inv (snd (qihse_txn_rollback_to_savepoint m p name)) h"
proof (cases "\<exists>x nm. handles m p = Some x \<and> name = Some nm \<and> state x = TXN_ACTIVE \<and> resource_ctx x = None")
  case True
  then obtain x nm where x: "handles m p = Some x" "state x = TXN_ACTIVE" "resource_ctx x = None"
    and nm: "name = Some nm" by blast
  have wf: "txn_wf x" using assms x(1) by (auto simp: mgr_inv_def dest: handles_invD)
  let ?i = "find_savepoint (savepoints x) nm (length (savepoints x))"
  have "mgr_inv (txn_at m p (\<lambda>y. rolled_back x (nat ?i))) h" if "0 \<le> ?i"
    by (rule txn_at_inv [OF assms x(1)])
      (use rolled_back_wf [OF wf] find_savepoint_found [OF that] in \<open>auto simp: rolled_back_def\<close>)
  with assms show ?thesis unfolding nm rollback_to_eq [OF x] by (simp add: Let_def)
next
  case False
  then have "snd (qihse_txn_rollback_to_savepoint m p name) = m"
    by (auto simp: qihse_txn_rollback_to_savepoint_def split: option.splits)
  with assms show ?thesis by simp
qed

lemma grow_capacity_ge: "0 < cap \<Longrightarrow> needed \<le> grow_capacity cap needed"
  by (induction cap needed rule: grow_capacity.induct) (subst grow_capacity.simps, auto)

declare grow_capacity.simps [simp del]

lemma ensure_capacity:
  assumes "rw_set_ensure_capacity env x needed = (rc, x')" "0 \<le> rw_capacity x" "0 < needed"
  shows "rc = 0 \<and> needed \<le> rw_capacity x' \<and> x' = x\<lparr>rw_capacity := rw_capacity x'\<rparr> \<or>
         rc = -1 \<and> x' = x"
  using assms grow_capacity_ge [of "if rw_capacity x = 0 then 16 else rw_capacity x * 2" needed]
  by (auto simp: rw_set_ensure_capacity_def Let_def split: if_splits)

definition recorded :: "txn \<Rightarrow> int \<Rightarrow> rw_entry \<Rightarrow> txn" where
  "recorded x cap e =
     x\<lparr>rw_capacity := cap, rw_set := rw_set x @ [e],
       write_count := (if rw_is_write e then write_count x + 1 else write_count x)\<rparr>"

lemma recorded_wf:
  "txn_wf x \<Longrightarrow> int (length (rw_set x)) + 1 \<le> cap \<Longrightarrow> length (rw_key e) \<le> 255 \<Longrightarrow>
     txn_wf (recorded x cap e)"
  by (auto simp: txn_wf_def recorded_def)

lemma record_eq:
  assumes "handles m p = Some x" "txn_wf x"
  shows "\<exists>cap. int (length (rw_set x)) + 1 \<le> cap \<and>
      qihse_txn_record_read env m p eng (Some k) =
        (if ok_rw env \<or> int (length (rw_set x)) < rw_capacity x
         then (0, txn_at m p (\<lambda>_. recorded x cap (rw_entry_of eng k False))) else (-1, m)) \<and>
      qihse_txn_record_write env m p eng (Some k) =
        (if ok_rw env \<or> int (length (rw_set x)) < rw_capacity x
         then (0, txn_at m p (\<lambda>_. recorded x cap (rw_entry_of eng k True))) else (-1, m))"
proof -
  define n where "n = int (length (rw_set x)) + 1"
  define cap where "cap = (if rw_capacity x \<ge> n then rw_capacity x
     else grow_capacity (if rw_capacity x = 0 then 16 else rw_capacity x * 2) n)"
  have pos: "0 \<le> rw_capacity x" using assms(2) by (auto simp: txn_wf_def)
  have cap: "n \<le> cap"
    using grow_capacity_ge [of "if rw_capacity x = 0 then 16 else rw_capacity x * 2" n] pos
    by (auto simp: cap_def)
  have ens: "rw_set_ensure_capacity env x n =
      (if ok_rw env \<or> int (length (rw_set x)) < rw_capacity x then (0, x\<lparr>rw_capacity := cap\<rparr>) else (-1, x))"
    by (auto simp: rw_set_ensure_capacity_def cap_def n_def Let_def)
  have upd: "x\<lparr>rw_capacity := cap, rw_set := rw_set x @ [rw_entry_of eng k False]\<rparr> =
        recorded x cap (rw_entry_of eng k False)"
      "x\<lparr>rw_capacity := cap, rw_set := rw_set x @ [rw_entry_of eng k True], write_count := write_count x + 1\<rparr> =
        recorded x cap (rw_entry_of eng k True)"
    by (simp_all add: recorded_def rw_entry_of_def)
  have "qihse_txn_record_read env m p eng (Some k) =
        (if ok_rw env \<or> int (length (rw_set x)) < rw_capacity x
         then (0, txn_at m p (\<lambda>_. recorded x cap (rw_entry_of eng k False))) else (-1, m))"
    "qihse_txn_record_write env m p eng (Some k) =
        (if ok_rw env \<or> int (length (rw_set x)) < rw_capacity x
         then (0, txn_at m p (\<lambda>_. recorded x cap (rw_entry_of eng k True))) else (-1, m))"
    using ens by (simp_all add: qihse_txn_record_read_def qihse_txn_record_write_def assms(1) upd
        flip: n_def)
  with cap show ?thesis unfolding n_def by blast
qed

lemma record_inv:
  assumes "mgr_inv m h"
  shows "mgr_inv (snd (qihse_txn_record_read env m p eng key)) h"
    and "mgr_inv (snd (qihse_txn_record_write env m p eng key)) h"
proof -
  have *: "mgr_inv (snd (qihse_txn_record_read env m p eng key)) h \<and>
           mgr_inv (snd (qihse_txn_record_write env m p eng key)) h"
  proof (cases "handles m p = None \<or> key = None")
    case True
    with assms show ?thesis
      by (auto simp: qihse_txn_record_read_def qihse_txn_record_write_def split: option.split)
  next
    case False
    then obtain x k where x: "handles m p = Some x" and k: "key = Some k" by auto
    have wf: "txn_wf x" using assms x by (auto simp: mgr_inv_def dest: handles_invD)
    have upd: "mgr_inv (txn_at m p (\<lambda>_. recorded x cap (rw_entry_of eng k w))) h"
      if "int (length (rw_set x)) + 1 \<le> cap" for cap w
      by (rule txn_at_inv [OF assms x])
        (use recorded_wf [OF wf that, of "rw_entry_of eng k w"] in \<open>auto simp: recorded_def rw_entry_of_def\<close>)
    from record_eq [OF x wf, of env eng k] upd assms show ?thesis by (auto simp: k)
  qed
  show "mgr_inv (snd (qihse_txn_record_read env m p eng key)) h" using * by blast
  show "mgr_inv (snd (qihse_txn_record_write env m p eng key)) h" using * by blast
qed

lemma attach_inv:
  assumes "mgr_inv m h" shows "mgr_inv (snd (qihse_txn_attach_resource m p ctx c r)) h"
proof (cases "handles m p")
  case (Some x)
  have wf: "txn_wf x" using assms Some by (auto simp: mgr_inv_def dest: handles_invD)
  have "mgr_inv (txn_at m p (\<lambda>y. y\<lparr>resource_ctx := ctx, resource_commit := True, resource_rollback := True\<rparr>)) h"
    if "state x = TXN_ACTIVE" "ctx \<noteq> None"
    by (rule txn_at_inv [OF assms Some]) (use wf that in \<open>auto simp: txn_wf_def\<close>)
  with assms Some show ?thesis by (auto simp: qihse_txn_attach_resource_def)
qed (simp add: qihse_txn_attach_resource_def assms)

lemma txn_at_absent: "handles m p = None \<Longrightarrow> txn_at m p f = m"
  by (auto simp: txn_at_def fun_upd_idem)

lemma local_inv:
  assumes "mgr_inv m h"
  shows "mgr_inv (qihse_txn_refresh_snapshot m p) h" "mgr_inv (qihse_txn_set_start_lsn m p l) h"
proof -
  have "mgr_inv (qihse_txn_refresh_snapshot m p) h \<and> mgr_inv (qihse_txn_set_start_lsn m p l) h"
  proof (cases "handles m p")
    case (Some x)
    have wf: "txn_wf x" using assms Some by (auto simp: mgr_inv_def dest: handles_invD)
    show ?thesis
      unfolding qihse_txn_refresh_snapshot_def qihse_txn_set_start_lsn_def
      by (intro conjI; rule txn_at_inv [OF assms Some]) (use wf in \<open>auto simp: txn_wf_def\<close>)
  qed (simp add: qihse_txn_refresh_snapshot_def qihse_txn_set_start_lsn_def txn_at_absent assms)
  then show "mgr_inv (qihse_txn_refresh_snapshot m p) h" "mgr_inv (qihse_txn_set_start_lsn m p l) h"
    by blast+
qed

lemma next_id_inv:
  assumes "mgr_inv m h" "next_txn_id m \<le> n"
  shows "mgr_inv (m\<lparr>next_txn_id := n\<rparr>) h"
proof -
  have "handles_inv (m\<lparr>next_txn_id := n\<rparr>)"
    using assms unfolding mgr_inv_def handles_inv_def by (simp, meson less_le_trans)
  moreover have "registry_inv (m\<lparr>next_txn_id := n\<rparr>)"
    using assms unfolding mgr_inv_def registry_inv_def reg_status_def registry_find_def
    by (simp, meson less_le_trans)
  ultimately show ?thesis using assms(1) by (simp add: mgr_inv_def history_inv_def)
qed

lemma new_txn_simps [simp]:
  "txn_id (new_txn m lvl) = next_txn_id m" "state (new_txn m lvl) = TXN_ACTIVE"
  "isolation (new_txn m lvl) = lvl" "serialization_snapshot (new_txn m lvl) = commit_seq m"
  "snapshot (new_txn m lvl) = next_txn_id m - 1" "rw_set (new_txn m lvl) = []"
  "resource_ctx (new_txn m lvl) = None" "txn_wf (new_txn m lvl)"
  by (simp_all add: new_txn_def txn_wf_def)

definition begun :: "txn_manager \<Rightarrow> isolation_level \<Rightarrow> txn_manager" where
  "begun m lvl =
     m\<lparr>next_txn_id := next_txn_id m + 1, handles := (handles m)(next_ref m \<mapsto> new_txn m lvl),
       next_ref := next_ref m + 1, active := next_ref m # active m, active_count := active_count m + 1\<rparr>"

lemma begin_eq:
  "qihse_txn_begin env m lvl =
     (if \<not> ok_handle env then (None, m)
      else if \<not> ok_active env then (None, m\<lparr>next_txn_id := next_txn_id m + 1\<rparr>)
      else (Some (next_ref m), begun m lvl))"
  by (simp add: qihse_txn_begin_def active_add_def begun_def Let_def)

lemma begun_inv:
  assumes "mgr_inv m h" "next_txn_id m \<noteq> UINT64_MAX"
  shows "mgr_inv (begun m lvl) h"
proof -
  let ?m = "begun m lvl" and ?p = "next_ref m"
  have inv: "handles_inv m" "registry_inv m" "history_inv m h"
    using assms(1) by (simp_all add: mgr_inv_def)
  have gt: "next_txn_id m < next_txn_id m + 1" using u64_succ_greater [OF assms(2)] .
  have new: "handles ?m q = (if q = ?p then Some (new_txn m lvl) else handles m q)" for q
    by (simp add: begun_def)
  have none: "handles m ?p = None"
    using handles_invD(1) [OF inv(1), of ?p] by (cases "handles m ?p") auto
  then have fresh: "?p \<notin> set (active m)" using inv(1) by (simp add: handles_inv_def)
  have same: "commit_seq ?m = commit_seq m" "next_ref ?m = next_ref m + 1"
      "next_txn_id ?m = next_txn_id m + 1" "committed ?m = committed m"
      "committed_count ?m = committed_count m" "reg_status ?m = reg_status m"
      "registry_n_buckets ?m = registry_n_buckets m" "registry_buckets ?m = registry_buckets m"
    by (simp_all add: begun_def reg_status_def registry_find_def fun_eq_iff)
  have 1: "q < next_ref m + 1 \<and> txn_id y < next_txn_id m + 1 \<and>
      serialization_snapshot y \<le> commit_seq m \<and> txn_wf y" if "handles ?m q = Some y" for q y
    using that handles_invD [OF inv(1), of q y] gt by (cases "q = ?p") (auto simp: new)
  have 2: "q = r" if "handles ?m q = Some y" "handles ?m r = Some z" "txn_id y = txn_id z" for q r y z
  proof -
    have id: "txn_id w \<noteq> next_txn_id m" if "handles m q = Some w" for q w
      using handles_invD(2) [OF inv(1) that] by auto
    show ?thesis
    proof (cases "q = ?p \<or> r = ?p")
      case True
      with that id [of q y] id [of r z] show ?thesis by (auto simp: new split: if_splits)
    next
      case False
      with that have "handles m q = Some y" "handles m r = Some z" by (simp_all add: new)
      with that(3) inv(1) show ?thesis unfolding handles_inv_def by blast
    qed
  qed
  have 3: "q \<in> set (active ?m) \<longleftrightarrow> (\<exists>y. handles ?m q = Some y \<and> is_live y)" for q
    using inv(1) by (cases "q = ?p") (simp_all add: new begun_def handles_inv_def)
  have 4: "distinct (active ?m)" "active_count ?m = int (length (active ?m))"
    using inv(1) fresh by (simp_all add: begun_def handles_inv_def)
  have "handles_inv ?m" unfolding handles_inv_def same using 1 2 3 4 by blast
  moreover have "status_agrees (reg_status m (txn_id y)) (state y)" if "handles ?m q = Some y" for q y
  proof (cases "q = ?p")
    case True
    have "reg_status m (next_txn_id m) = None" using inv(2) unfolding registry_inv_def by blast
    with True that show ?thesis by (auto simp: new status_agrees_def)
  next
    case False
    with that inv(2) show ?thesis by (simp add: new registry_inv_def)
  qed
  then have "registry_inv ?m"
    using inv(2) gt unfolding registry_inv_def same by (meson less_trans)
  moreover have "history_inv ?m h"
  proof -
    have "\<exists>s \<in> set (committed m). sum_commit_seq s = fst c \<and> sum_writes s = snd c"
      if "c \<in> set h" "snd c \<noteq> []" "handles ?m q = Some y" "isolation y = ISO_SERIALIZABLE" "is_live y"
        "serialization_snapshot y < fst c" for c q y
    proof (cases "q = ?p")
      case True
      with that(3) have "serialization_snapshot y = commit_seq m" by (auto simp: new)
      with that(1,6) inv(3) show ?thesis unfolding history_inv_def by (metis leD)
    next
      case False
      with that inv(3) show ?thesis unfolding history_inv_def by (simp add: new)
    qed
    with inv(3) show ?thesis unfolding history_inv_def same by blast
  qed
  ultimately show ?thesis by (simp add: mgr_inv_def)
qed

lemma registry_insert_status:
  assumes "registry_inv m"
  shows "reg_status (snd (registry_insert env m t st)) =
           (if ok_registry env then (reg_status m)(t \<mapsto> st) else reg_status m)"
proof -
  have "registry.placed (registry_n_buckets m) (registry_buckets m)"
    using assms by (simp add: registry_inv_def)
  from registry.search_push [OF this, of "\<lparr>reg_txn_id = t, reg_state = st\<rparr>"]
  show ?thesis
    by (auto simp: reg_status_search registry_insert_def registry_alloc_def registry_link_def fun_eq_iff)
qed

lemma register_inv:
  assumes "mgr_inv m h" "t \<noteq> UINT64_MAX" "\<forall>p. \<not> has_id m t p"
  shows "mgr_inv (bump_next_id (snd (registry_insert env m t st)) t) h"
proof -
  let ?n = "if t \<ge> next_txn_id m then t + 1 else next_txn_id m"
  let ?m1 = "m\<lparr>next_txn_id := ?n\<rparr>"
  let ?m = "snd (registry_insert env ?m1 t st)"
  have gt: "t < ?n" "next_txn_id m \<le> ?n"
    using u64_succ_greater [OF assms(2)] by auto
  have inv: "mgr_inv ?m1 h" by (rule next_id_inv [OF assms(1) gt(2)])
  then have ri: "registry_inv ?m1" by (simp add: mgr_inv_def)
  have eq: "bump_next_id (snd (registry_insert env m t st)) t = ?m"
    by (simp add: bump_next_id_def registry_insert_def registry_alloc_def registry_link_def)
  have same: "handles ?m = handles m" "next_txn_id ?m = ?n" "registry_n_buckets ?m = registry_n_buckets m"
    by (simp_all add: registry_insert_def registry_alloc_def registry_link_def)
  have keep: "handles_inv ?m = handles_inv ?m1" "history_inv ?m h = history_inv ?m1 h"
    by (simp_all add: registry_insert_def registry_alloc_def registry_link_def handles_inv_def
        history_inv_def)
  have "registry.placed (registry_n_buckets ?m) (registry_buckets ?m)"
    using ri registry.placed_push [of "registry_n_buckets m" "registry_buckets m" "\<lparr>reg_txn_id = t, reg_state = st\<rparr>"]
    by (simp add: registry_inv_def registry_insert_def registry_alloc_def registry_link_def)
  moreover have "u < ?n" if "reg_status ?m u \<noteq> None" for u
    using ri that gt(1) unfolding registry_insert_status [OF ri] registry_inv_def
    by (auto split: if_splits)
  moreover have "status_agrees (reg_status ?m (txn_id y)) (state y)" if y: "handles m q = Some y" for q y
  proof -
    have "txn_id y \<noteq> t" using assms(3) y by (auto simp: has_id_def dest: spec [of _ q])
    with y ri show ?thesis unfolding registry_insert_status [OF ri] registry_inv_def by auto
  qed
  ultimately have "registry_inv ?m" unfolding registry_inv_def same by blast
  with inv keep show ?thesis unfolding eq mgr_inv_def by simp
qed

lemma commit_noop:
  "handles m p = None \<or> (\<exists>x. handles m p = Some x \<and> state x \<noteq> TXN_ACTIVE) \<Longrightarrow>
     qihse_txn_commit env m p = (-1, m)"
  "handles m p = None \<or> (\<exists>x. handles m p = Some x \<and> state x \<noteq> TXN_ACTIVE) \<Longrightarrow>
     qihse_txn_rollback env m p = (-1, m)"
  "handles m p = None \<or> (\<exists>x. handles m p = Some x \<and> (state x \<noteq> TXN_ACTIVE \<or> resource_ctx x \<noteq> None)) \<Longrightarrow>
     qihse_txn_prepare env m p = (-1, m)"
  "handles m p = None \<or> (\<exists>x. handles m p = Some x \<and> state x \<noteq> TXN_PREPARED) \<Longrightarrow>
     qihse_txn_commit_prepared env m p = (-1, m)"
  "handles m p = None \<or> (\<exists>x. handles m p = Some x \<and> state x \<noteq> TXN_PREPARED) \<Longrightarrow>
     qihse_txn_abort_prepared env m p = (-1, m)"
  by (auto simp: qihse_txn_commit_def qihse_txn_rollback_def qihse_txn_prepare_def
      qihse_txn_commit_prepared_def qihse_txn_abort_prepared_def)

lemma commit_inv:
  assumes "mgr_inv m h" "qihse_txn_commit env m p = (rc, m')"
  shows "mgr_inv m' (log_commit (Commit env p) m rc h)"
proof (cases "\<exists>x. handles m p = Some x \<and> state x = TXN_ACTIVE")
  case True
  then obtain x where x: "handles m p = Some x" "state x = TXN_ACTIVE" by blast
  have hi: "handles_inv m" using assms(1) by (simp add: mgr_inv_def)
  have live: "is_live x" using x(2) by simp
  note ab = closed_abort_inv(2) [OF assms(1) x(1) live]
  note cm = closed_commit_inv [OF assms(1) x(1) live]
  show ?thesis
  proof (cases "commit_refused env m p x \<or> \<not> ok_registry env")
    case True
    with assms(2) ab show ?thesis by (auto simp: commit_closes [OF hi x])
  next
    case False
    then have "commit_seq m \<noteq> UINT64_MAX" by (simp add: commit_refused_def)
    with False assms(2) ab cm show ?thesis
      by (auto simp: commit_closes [OF hi x] split: if_splits)
  qed
next
  case False
  then have "qihse_txn_commit env m p = (-1, m)" by (intro commit_noop(1)) (cases "handles m p"; auto)
  with assms show ?thesis by auto
qed

lemma commit_prepared_inv:
  assumes "mgr_inv m h" "qihse_txn_commit_prepared env m p = (rc, m')"
  shows "mgr_inv m' (log_commit (CommitPrepared env p) m rc h)"
proof (cases "\<exists>x. handles m p = Some x \<and> state x = TXN_PREPARED")
  case True
  then obtain x where x: "handles m p = Some x" "state x = TXN_PREPARED" by blast
  have hi: "handles_inv m" using assms(1) by (simp add: mgr_inv_def)
  have live: "is_live x" using x(2) by simp
  note ab = closed_abort_inv(2) [OF assms(1) x(1) live]
  note cm = closed_commit_inv [OF assms(1) x(1) live]
  show ?thesis
  proof (cases "commit_refused env m p x \<or> \<not> ok_registry env")
    case True
    with assms(2) ab show ?thesis by (auto simp: commit_prepared_closes [OF hi x])
  next
    case False
    then have "commit_seq m \<noteq> UINT64_MAX" by (simp add: commit_refused_def)
    with False assms(2) cm show ?thesis by (auto simp: commit_prepared_closes [OF hi x])
  qed
next
  case False
  then have "qihse_txn_commit_prepared env m p = (-1, m)"
    by (intro commit_noop(4)) (cases "handles m p"; auto)
  with assms show ?thesis by auto
qed

lemma abort_inv:
  assumes "mgr_inv m h"
  shows "mgr_inv (snd (qihse_txn_rollback env m p)) h"
    and "mgr_inv (snd (qihse_txn_abort_prepared env m p)) h"
proof -
  have hi: "handles_inv m" using assms by (simp add: mgr_inv_def)
  show "mgr_inv (snd (qihse_txn_rollback env m p)) h"
  proof (cases "\<exists>x. handles m p = Some x \<and> state x = TXN_ACTIVE")
    case True
    then obtain x where x: "handles m p = Some x" "state x = TXN_ACTIVE" by blast
    then show ?thesis using closed_abort_inv(2) [OF assms x(1)] by (simp add: rollback_closes [OF hi x])
  next
    case False
    then have "qihse_txn_rollback env m p = (-1, m)"
      by (intro commit_noop(2)) (cases "handles m p"; auto)
    with assms show ?thesis by simp
  qed
  show "mgr_inv (snd (qihse_txn_abort_prepared env m p)) h"
  proof (cases "\<exists>x. handles m p = Some x \<and> state x = TXN_PREPARED")
    case True
    then obtain x where x: "handles m p = Some x" "state x = TXN_PREPARED" by blast
    then show ?thesis using closed_abort_inv(1) [OF assms x(1)] by (simp add: abort_prepared_closes [OF hi x])
  next
    case False
    then have "qihse_txn_abort_prepared env m p = (-1, m)"
      by (intro commit_noop(5)) (cases "handles m p"; auto)
    with assms show ?thesis by simp
  qed
qed

lemma prepare_inv:
  assumes "mgr_inv m h" shows "mgr_inv (snd (qihse_txn_prepare env m p)) h"
proof (cases "\<exists>x. handles m p = Some x \<and> state x = TXN_ACTIVE \<and> resource_ctx x = None")
  case True
  then obtain x where x: "handles m p = Some x" "state x = TXN_ACTIVE" "resource_ctx x = None" by blast
  have hi: "handles_inv m" using assms by (simp add: mgr_inv_def)
  have "mgr_inv (txn_at m p (\<lambda>y. y\<lparr>state := TXN_PREPARED\<rparr>)) h"
    by (rule txn_at_inv [OF assms x(1)])
      (use x handles_invD(4) [OF hi x(1)] in \<open>auto simp: txn_wf_def\<close>)
  with closed_abort_inv(2) [OF assms x(1)] x(2) show ?thesis by (simp add: prepare_closes [OF hi x])
next
  case False
  then have "qihse_txn_prepare env m p = (-1, m)"
    by (intro commit_noop(3)) (cases "handles m p"; auto)
  with assms show ?thesis by simp
qed

lemma create_inv: "qihse_txn_manager_create a b c = Some m \<Longrightarrow> mgr_inv m []"
  by (auto simp: qihse_txn_manager_create_def mgr_inv_def handles_inv_def registry_inv_def
      history_inv_def reg_status_search registry.placed_empty registry.search_empty split: if_splits)

lemma txn_apply_inv:
  assumes "mgr_inv m h" "op_allowed op m" "txn_apply op m = (rc, m')"
  shows "mgr_inv m' (log_commit op m rc h)"
proof -
  note inv = abort_inv prepare_inv savepoint_inv rollback_to_inv record_inv attach_inv local_inv
  have "mgr_inv (snd (txn_apply op m)) h \<and> log_commit op m rc h = h"
    if "\<nexists>env p. op = Commit env p \<or> op = CommitPrepared env p"
  proof (cases op)
    case (Begin env lvl)
    then have "mgr_inv (m\<lparr>next_txn_id := next_txn_id m + 1\<rparr>) h" "mgr_inv (begun m lvl) h"
      using assms(1,2) u64_succ_greater [of "next_txn_id m"] by (auto intro: next_id_inv begun_inv)
    with assms(1) Begin show ?thesis by (simp add: begin_eq)
  next
    case (SetNextId n)
    with assms(1) next_id_inv [OF assms(1), of n] show ?thesis
      by (simp add: qihse_txn_set_next_id_def)
  next
    case (RegisterCommitted env t)
    with assms(1,2) register_inv [OF assms(1)] show ?thesis by (simp add: qihse_txn_register_committed_def)
  next
    case (RegisterAborted env t)
    with assms(1,2) register_inv [OF assms(1)] show ?thesis by (simp add: qihse_txn_register_aborted_def)
  qed (use that assms(1) in \<open>simp_all add: inv qihse_txn_register_participant_def\<close>)
  then show ?thesis
    using assms commit_inv commit_prepared_inv by (metis snd_conv txn_apply.simps(2,12))
qed

lemma reach_inv: "txn_reach m h \<Longrightarrow> mgr_inv m h"
  by (induction rule: txn_reach.induct) (auto intro: create_inv txn_apply_inv)

subsection \<open>Runs and the demonstration states\<close>

fun txn_run :: "txn_op list \<Rightarrow> txn_manager \<times> commit_history \<Rightarrow> txn_manager \<times> commit_history" where
  "txn_run [] s = s"
| "txn_run (op # ops) (m, h) =
     (let r = txn_apply op m in txn_run ops (snd r, log_commit op m (fst r) h))"

fun run_allowed :: "txn_op list \<Rightarrow> txn_manager \<Rightarrow> bool" where
  "run_allowed [] m \<longleftrightarrow> True"
| "run_allowed (op # ops) m \<longleftrightarrow> op_allowed op m \<and> run_allowed ops (snd (txn_apply op m))"

lemma txn_run_reach:
  "txn_reach m h \<Longrightarrow> run_allowed ops m \<Longrightarrow> txn_run ops (m, h) = (m', h') \<Longrightarrow> txn_reach m' h'"
proof (induction ops arbitrary: m h)
  case (Cons op ops)
  have "txn_reach (snd (txn_apply op m)) (log_commit op m (fst (txn_apply op m)) h)"
    using Cons.prems(1,2) by (intro txn_reach.step) simp_all
  from Cons.IH [OF this] Cons.prems show ?case by (simp add: Let_def)
qed simp

definition env_ok :: txn_env where
  "env_ok = \<lparr>ok_handle = True, ok_active = True, ok_registry = True, ok_summary = True,
             ok_rw = True, rc_resource_commit = 0, rc_prepare = (\<lambda>_. 0)\<rparr>"

definition mgr_start :: txn_manager where
  "mgr_start = the (qihse_txn_manager_create True True True)"

lemmas txn_eval =
  qihse_txn_manager_create_def qihse_txn_begin_def active_add_def new_txn_def
  qihse_txn_record_read_def qihse_txn_record_write_def rw_set_ensure_capacity_def rw_entry_of_def
  grow_capacity.simps qihse_txn_commit_def qihse_txn_commit_prepared_def qihse_txn_prepare_def
  qihse_txn_abort_prepared_def qihse_txn_rollback_def qihse_txn_savepoint_def
  qihse_txn_rollback_to_savepoint_def qihse_txn_attach_resource_def
  qihse_txn_register_participant_def QIHSE_TXN_MAX_PARTICIPANTS_def QIHSE_TXN_MAX_SAVEPOINTS_def
  validate_occ_locked_def summary_needed_locked_def serial_live_def is_live_def
  committed_summary_create_def committed_summary_append_locked_def registry_alloc_def
  registry_link_def registry_insert_def registry_find_def registry_hash_def txn_at_def has_id_def
  set_state_def abort_locked_def abort_2pc_locked_def active_remove_def
  txn_resource_rollback_def clear_resource_def call_def prune_committed_history_locked_def
  min_serializable_snapshot_locked_def bucket_push_def bucket_find_def rw_keys_equal_def
  QIHSE_TXN_FIRST_ID_def UINT64_MAX_def env_ok_def Let_def writes_at_def
  qihse_txn_is_committed_def qihse_txn_is_aborted_def

subsection \<open>Optimistic validation is exact\<close>

definition conflicts_with :: "commit_history \<Rightarrow> txn \<Rightarrow> bool" where
  "conflicts_with h x \<longleftrightarrow>
     (\<exists>c \<in> set h. serialization_snapshot x < fst c \<and>
        (\<exists>w \<in> set (snd c). \<exists>r \<in> set (rw_set x). rw_engine w = rw_engine r \<and> rw_key w = rw_key r))"

lemma keys_equal: "rw_keys_equal w r \<longleftrightarrow> rw_engine w = rw_engine r \<and> rw_key w = rw_key r"
  by (auto simp: rw_keys_equal_def)

lemma validate_conflicts:
  assumes "history_inv m h" "handles m p = Some x" "is_live x" "isolation x = ISO_SERIALIZABLE"
  shows "validate_occ_locked m x = (if conflicts_with h x then -1 else 0)"
proof -
  let ?C = "\<lambda>ws. \<exists>w \<in> set ws. \<exists>r \<in> set (rw_set x). rw_engine w = rw_engine r \<and> rw_key w = rw_key r"
  have "(\<exists>s \<in> set (committed m). serialization_snapshot x < sum_commit_seq s \<and> ?C (sum_writes s)) \<longleftrightarrow>
        conflicts_with h x" (is "?L \<longleftrightarrow> _")
  proof
    assume ?L
    then obtain s where s: "s \<in> set (committed m)" "serialization_snapshot x < sum_commit_seq s"
      "?C (sum_writes s)" by blast
    with assms(1) have "(sum_commit_seq s, sum_writes s) \<in> set h" by (simp add: history_inv_def)
    from bexI [OF _ this, of "\<lambda>c. serialization_snapshot x < fst c \<and> ?C (snd c)"] s
    show "conflicts_with h x" by (simp add: conflicts_with_def)
  next
    assume "conflicts_with h x"
    then obtain c where c: "c \<in> set h" "serialization_snapshot x < fst c" "?C (snd c)"
      unfolding conflicts_with_def by blast
    then have "snd c \<noteq> []" by auto
    with assms c(1,2) obtain s where "s \<in> set (committed m)" "sum_commit_seq s = fst c" "sum_writes s = snd c"
      unfolding history_inv_def by blast
    with c(2,3) show ?L by (intro bexI [of _ s]) simp_all
  qed
  then show ?thesis
    using assms(4) unfolding validate_occ_locked_def list_ex_iff keys_equal by simp
qed

text \<open>
  C3: OCC validation is exact although the history is pruned. In every reachable state, for
  every running SERIALIZABLE transaction, validation against the summaries the manager
  still holds fails exactly when some transaction that committed after its BEGIN, in the
  full history of commits, wrote a key that it read or wrote.
\<close>
theorem txn_occ_exact:
  assumes "txn_reach m h" "handles m p = Some x" "is_live x" "isolation x = ISO_SERIALIZABLE"
  shows "qihse_txn_validate_occ m p = (if conflicts_with h x then -1 else 0)"
  using validate_conflicts [OF _ assms(2-4), of h] reach_inv [OF assms(1)] assms(2)
  by (simp add: qihse_txn_validate_occ_def mgr_inv_def)

lemma refused_conflicts:
  assumes "history_inv m h" "handles m p = Some x" "is_live x"
  shows "commit_refused env m p x \<longleftrightarrow>
    isolation x = ISO_SERIALIZABLE \<and> conflicts_with h x \<or> commit_seq m = UINT64_MAX \<or>
    summary_needed_locked m p x \<and> \<not> ok_summary env"
proof (cases "isolation x = ISO_SERIALIZABLE")
  case True
  with validate_conflicts [OF assms] show ?thesis by (simp add: commit_refused_def)
next
  case False
  then show ?thesis by (simp add: commit_refused_def validate_occ_locked_def)
qed

text \<open>
  C5: first committer wins. COMMIT of an active transaction returns 0 exactly when a
  SERIALIZABLE transaction has no conflict with any later commit of the full history, the
  commit counter is not exhausted, the needed allocations succeed and an attached resource
  publishes. At every other isolation level, REPEATABLE READ included, conflicting writes do not
  matter (the documentation promises write-write detection for REPEATABLE READ).
\<close>
theorem txn_commit_iff:
  assumes "txn_reach m h" "handles m p = Some x" "state x = TXN_ACTIVE"
  shows "fst (qihse_txn_commit env m p) = 0 \<longleftrightarrow>
    (isolation x \<noteq> ISO_SERIALIZABLE \<or> \<not> conflicts_with h x) \<and>
    commit_seq m \<noteq> UINT64_MAX \<and> ok_registry env \<and>
    (ok_summary env \<or> \<not> summary_needed_locked m p x) \<and>
    (resource_ctx x = None \<or> rc_resource_commit env = 0)"
proof -
  have inv: "handles_inv m" "history_inv m h" using reach_inv [OF assms(1)] by (simp_all add: mgr_inv_def)
  show ?thesis
    using refused_conflicts [OF inv(2) assms(2), of env] assms(3)
    by (auto simp: commit_closes [OF inv(1) assms(2,3)])
qed

lemma status_committed: "qihse_txn_is_committed m t \<longleftrightarrow> reg_status m t = Some TXN_COMMITTED"
  and status_aborted: "qihse_txn_is_aborted m t \<longleftrightarrow> reg_status m t = Some TXN_ABORTED"
  by (auto simp: qihse_txn_is_committed_def qihse_txn_is_aborted_def reg_status_def split: option.splits)

lemma live_status:
  assumes "registry_inv m" "handles m p = Some x" "is_live x"
  shows "reg_status m (txn_id x) = None"
proof -
  have "status_agrees (reg_status m (txn_id x)) (state x)" using assms(1,2) by (simp add: registry_inv_def)
  with assms(3) show ?thesis by (auto simp: status_agrees_def is_live_def)
qed

text \<open>
  C6: COMMIT always ends the transaction, and consistently: with 0 the handle and the
  registry say committed, the commit counter advances and an attached resource received
  exactly its commit call; with -1 the handle is aborted, the registry does not say
  committed, the counter is unchanged and the resource received exactly one commit or
  rollback call. Either way the handle holds no resource and is no longer active.
\<close>
theorem txn_commit_outcome:
  assumes "txn_reach m h" "handles m p = Some x" "state x = TXN_ACTIVE"
    and "qihse_txn_commit env m p = (rc, m')"
  shows "\<exists>y. handles m' p = Some y \<and> resource_ctx y = None \<and> p \<notin> set (active m') \<and>
    (rc = 0 \<and> state y = TXN_COMMITTED \<and> qihse_txn_is_committed m' (txn_id x) \<and>
       commit_seq m' = commit_seq m + 1 \<and>
       calls m' = calls m @ (case resource_ctx x of None \<Rightarrow> [] | Some r \<Rightarrow> [CallResourceCommit r]) \<or>
     rc = -1 \<and> state y = TXN_ABORTED \<and> \<not> qihse_txn_is_committed m' (txn_id x) \<and>
       commit_seq m' = commit_seq m \<and>
       calls m' \<in> (case resource_ctx x of None \<Rightarrow> {calls m}
          | Some r \<Rightarrow> {calls m @ [CallResourceCommit r], calls m @ [CallResourceRollback r]}))"
proof -
  have inv: "handles_inv m" "registry_inv m"
    using reach_inv [OF assms(1)] by (simp_all add: mgr_inv_def)
  have p: "p \<notin> set (remove1 p (active m))" using inv(1) by (simp add: handles_inv_def)
  have none: "reg_status m (txn_id x) = None"
    using live_status [OF inv(2) assms(2)] assms(3) by simp
  note close = commit_closes [OF inv(1) assms(2,3), of env, unfolded assms(4)]
  note view = view_simps close_status [OF inv(2)] status_committed
  let ?rb = "case resource_ctx x of None \<Rightarrow> [] | Some r \<Rightarrow> [CallResourceRollback r]"
  let ?cm = "case resource_ctx x of None \<Rightarrow> [] | Some r \<Rightarrow> [CallResourceCommit r]"
  let ?close = "\<lambda>st reg seq ss cs. prune_committed_history_locked (close_txn m p x st reg seq ss cs)"
  consider (abort) reg cs where "rc = -1" "m' = ?close TXN_ABORTED reg (commit_seq m) [] cs" "cs = ?rb \<or> cs = ?cm"
    | (commit) ss where "rc = 0" "m' = ?close TXN_COMMITTED True (commit_seq m + 1) ss ?cm"
  proof (cases "commit_refused env m p x \<or> \<not> ok_registry env")
    case True
    with close have "rc = -1" "m' = ?close TXN_ABORTED (ok_registry env) (commit_seq m) [] ?rb"
      by auto
    then show thesis by (rule that(1)) (rule disjI1, rule refl)
  next
    case False
    show thesis
    proof (cases "resource_ctx x \<noteq> None \<and> rc_resource_commit env \<noteq> 0")
      case True
      with False close have "rc = -1" "m' = ?close TXN_ABORTED True (commit_seq m) [] [CallResourceCommit (the (resource_ctx x))]"
        by simp_all
      moreover have "[CallResourceCommit (the (resource_ctx x))] = ?cm" using True by auto
      ultimately show thesis by (intro that(1) [of True ?cm]) (simp, simp, blast)
    next
      case no: False
      with False close have "rc = 0" "m' = ?close TXN_COMMITTED True (commit_seq m + 1) (commit_summaries m p x) ?cm"
        by auto
      then show thesis by (rule that(2))
    qed
  qed
  then show ?thesis
  proof cases
    case abort
    then have "calls m' \<in> (case resource_ctx x of None \<Rightarrow> {calls m}
          | Some r \<Rightarrow> {calls m @ [CallResourceCommit r], calls m @ [CallResourceRollback r]})"
      by (cases "resource_ctx x") (auto simp: view_simps)
    with abort p none show ?thesis by (simp add: view)
  next
    case commit
    with p show ?thesis by (simp add: view)
  qed
qed

text \<open>
  C24: in every reachable state the registry, the active list and the handles agree: an
  identifier is reported committed exactly when its transaction committed, reported aborted
  only if it aborted, active exactly while running or prepared, no two handles share an
  identifier, and the active counter counts the active list.
\<close>
theorem txn_registry_agrees:
  assumes "txn_reach m h" "handles m p = Some x"
  shows "(qihse_txn_is_committed m (txn_id x) \<longleftrightarrow> state x = TXN_COMMITTED) \<and>
    (qihse_txn_is_aborted m (txn_id x) \<longrightarrow> state x = TXN_ABORTED) \<and>
    (p \<in> set (active m) \<longleftrightarrow> state x = TXN_ACTIVE \<or> state x = TXN_PREPARED) \<and>
    txn_id x < next_txn_id m \<and>
    (\<forall>q y. handles m q = Some y \<longrightarrow> txn_id y = txn_id x \<longrightarrow> q = p) \<and>
    qihse_txn_active_count m = int (length (active m)) \<and> distinct (active m)"
proof -
  have inv: "handles_inv m" "registry_inv m"
    using reach_inv [OF assms(1)] by (simp_all add: mgr_inv_def)
  have "status_agrees (reg_status m (txn_id x)) (state x)"
    using inv(2) assms(2) by (simp add: registry_inv_def)
  then have "reg_status m (txn_id x) = Some TXN_COMMITTED \<longleftrightarrow> state x = TXN_COMMITTED"
      "reg_status m (txn_id x) = Some TXN_ABORTED \<longrightarrow> state x = TXN_ABORTED"
    by (auto simp: status_agrees_def split: txn_state.splits)
  moreover have "p \<in> set (active m) \<longleftrightarrow> is_live x"
    using inv(1) assms(2) by (auto simp: handles_inv_def)
  moreover have "\<forall>q y. handles m q = Some y \<longrightarrow> txn_id y = txn_id x \<longrightarrow> q = p"
    using inv(1) assms(2) unfolding handles_inv_def by blast
  ultimately show ?thesis
    using inv(1) handles_invD(2) [OF inv(1) assms(2)]
    by (simp add: status_committed status_aborted is_live_def qihse_txn_active_count_def handles_inv_def)
qed

lemma sorted_hd_le:
  fixes f :: "'a \<Rightarrow> 'b::linorder"
  shows "sorted_wrt (<) (map f xs) \<Longrightarrow> s \<in> set xs \<Longrightarrow> f (hd xs) \<le> f s"
  by (cases xs) auto

lemma pruned_bound:
  assumes "sorted_wrt (<) (map sum_commit_seq (committed m))"
    and "s \<in> set (committed (prune_committed_history_locked m))"
  shows "\<exists>q y. q \<in> set (active m) \<and> handles m q = Some y \<and> isolation y = ISO_SERIALIZABLE \<and>
           serialization_snapshot y < sum_commit_seq s"
proof -
  let ?d = "dropWhile (prunable m) (committed m)"
  have s: "s \<in> set ?d" using assms(2) by (simp add: prune_eq)
  then have "?d \<noteq> []" by (metis empty_iff empty_set)
  note hd = hd_dropWhile [OF this]
  have "sorted_wrt (<) (map sum_commit_seq ?d)"
    using assms(1) by (metis (no_types, lifting) map_append sorted_wrt_append takeWhile_dropWhile_id)
  note sorted_hd_le [OF this s]
  with hd have "fst (min_serializable_snapshot_locked m)"
      "snd (min_serializable_snapshot_locked m) < sum_commit_seq s" by auto
  with min_loop_attained [of m "active m" "(False, UINT64_MAX)"] show ?thesis
    unfolding min_serializable_snapshot_locked_def by auto
qed

text \<open>
  C33: after COMMIT or ROLLBACK, every summary kept in the history is newer than the
  serialization snapshot of some active SERIALIZABLE transaction, so nothing is kept that
  no validation can use.
\<close>
theorem txn_history_bounded:
  assumes "txn_reach m h" "handles m p = Some x" "state x = TXN_ACTIVE"
    and "m' = snd (qihse_txn_commit env m p) \<or> m' = snd (qihse_txn_rollback env m p)"
    and "s \<in> set (committed m')"
  shows "\<exists>q y. q \<in> set (active m') \<and> handles m' q = Some y \<and> isolation y = ISO_SERIALIZABLE \<and>
           serialization_snapshot y < sum_commit_seq s"
proof -
  have inv: "mgr_inv m h" using reach_inv [OF assms(1)] .
  have hi: "handles_inv m" using inv by (simp add: mgr_inv_def)
  have live: "is_live x" using assms(3) by simp
  have "\<exists>m1. m' = prune_committed_history_locked m1 \<and> sorted_wrt (<) (map sum_commit_seq (committed m1))"
  proof -
    have ab: "sorted_wrt (<) (map sum_commit_seq (committed (close_txn m p x TXN_ABORTED reg (commit_seq m) [] cs)))" for reg cs
      using closed_abort_inv(1) [OF inv assms(2) live] unfolding mgr_inv_def history_inv_def by blast
    have cm: "sorted_wrt (<) (map sum_commit_seq (committed
        (close_txn m p x TXN_COMMITTED True (commit_seq m + 1) (commit_summaries m p x) cs)))"
      if "commit_seq m \<noteq> UINT64_MAX" for cs
      using close_history_commit [OF hi _ assms(2) that] inv unfolding mgr_inv_def history_inv_def by blast
    show ?thesis
    proof (cases "m' = snd (qihse_txn_rollback env m p)")
      case True
      with ab show ?thesis unfolding rollback_closes [OF hi assms(2,3)] by auto
    next
      case False
      with assms(4) have "m' = snd (qihse_txn_commit env m p)" by blast
      with ab cm show ?thesis unfolding commit_closes [OF hi assms(2,3)] commit_refused_def
        by (auto split: if_splits)
    qed
  qed
  then obtain m1 where "m' = prune_committed_history_locked m1"
    "sorted_wrt (<) (map sum_commit_seq (committed m1))" by blast
  with pruned_bound [of m1 s] assms(5) show ?thesis by (simp add: view_simps)
qed

subsection \<open>Savepoints and two-phase commit\<close>

primrec record_all :: "txn_ref \<Rightarrow> (txn_env \<times> bool \<times> u8 \<times> bytes) list \<Rightarrow> txn_manager \<Rightarrow> txn_manager" where
  "record_all p [] m = m"
| "record_all p (a # as) m = record_all p as
     (case a of (env, w, eng, k) \<Rightarrow>
        snd (if w then qihse_txn_record_write env m p eng (Some k)
             else qihse_txn_record_read env m p eng (Some k)))"

lemma record_one:
  assumes "handles m p = Some x" "txn_wf x"
  shows "\<exists>y es. handles (snd (if w then qihse_txn_record_write env m p eng (Some k)
                   else qihse_txn_record_read env m p eng (Some k))) p = Some y \<and> txn_wf y \<and>
     rw_set y = rw_set x @ es \<and> savepoints y = savepoints x \<and> state y = state x \<and>
     resource_ctx y = resource_ctx x"
proof -
  from record_eq [OF assms, of env eng k] obtain cap where cap: "int (length (rw_set x)) + 1 \<le> cap"
    and r: "qihse_txn_record_read env m p eng (Some k) =
        (if ok_rw env \<or> int (length (rw_set x)) < rw_capacity x
         then (0, txn_at m p (\<lambda>_. recorded x cap (rw_entry_of eng k False))) else (-1, m))"
    and w: "qihse_txn_record_write env m p eng (Some k) =
        (if ok_rw env \<or> int (length (rw_set x)) < rw_capacity x
         then (0, txn_at m p (\<lambda>_. recorded x cap (rw_entry_of eng k True))) else (-1, m))"
    by blast
  have wf: "txn_wf (recorded x cap (rw_entry_of eng k b))" for b
    by (rule recorded_wf [OF assms(2) cap]) (simp add: rw_entry_of_def)
  show ?thesis
    using assms wf [of w] unfolding r w
    by (cases w) (auto simp: txn_at_def recorded_def rw_entry_of_def)
qed

lemma record_all_local:
  "handles m p = Some x \<Longrightarrow> txn_wf x \<Longrightarrow>
     \<exists>y es. handles (record_all p as m) p = Some y \<and> txn_wf y \<and> rw_set y = rw_set x @ es \<and>
       savepoints y = savepoints x \<and> state y = state x \<and> resource_ctx y = resource_ctx x"
proof (induction as arbitrary: m x)
  case Nil
  then show ?case by (intro exI [of _ x] exI [of _ "[]"]) simp
next
  case (Cons a as)
  obtain env w eng k where a: "a = (env, w, eng, k)" by (cases a)
  from record_one [OF Cons.prems, of w env eng k] obtain y es where y:
    "handles (snd (if w then qihse_txn_record_write env m p eng (Some k)
                   else qihse_txn_record_read env m p eng (Some k))) p = Some y" "txn_wf y"
    "rw_set y = rw_set x @ es" "savepoints y = savepoints x" "state y = state x"
    "resource_ctx y = resource_ctx x" by blast
  from Cons.IH [OF y(1,2)] y(3-6) show ?case by (auto simp: a)
qed

text \<open>
  C26: ROLLBACK TO SAVEPOINT restores the write set: after SAVEPOINT (name of at most 63
  characters) and any sequence of recorded reads and writes, rolling back returns 0, the
  recorded writes and their count are those at the savepoint, all reads are kept, and the
  savepoint stays on the stack.
\<close>
theorem txn_savepoint_restores:
  assumes "txn_reach m h" "handles m p = Some x" "state x = TXN_ACTIVE" "resource_ctx x = None"
    and "length (savepoints x) < QIHSE_TXN_MAX_SAVEPOINTS" "length nm \<le> 63"
    and "m1 = snd (qihse_txn_savepoint m p (Some nm))" "m2 = record_all p as m1"
    and "handles m2 p = Some z"
  shows "fst (qihse_txn_rollback_to_savepoint m2 p (Some nm)) = 0 \<and>
    (\<exists>y. handles (snd (qihse_txn_rollback_to_savepoint m2 p (Some nm))) p = Some y \<and>
      filter rw_is_write (rw_set y) = filter rw_is_write (rw_set x) \<and>
      write_count y = write_count x \<and>
      filter (\<lambda>e. \<not> rw_is_write e) (rw_set y) = filter (\<lambda>e. \<not> rw_is_write e) (rw_set z) \<and>
      savepoints y = savepoints x @ [\<lparr>sp_name = nm, sp_lsn = start_lsn x, sp_write_count = write_count x\<rparr>])"
proof -
  let ?sp = "\<lparr>sp_name = nm, sp_lsn = start_lsn x, sp_write_count = write_count x\<rparr>"
  let ?n = "length (savepoints x)"
  have inv: "mgr_inv m h" using reach_inv [OF assms(1)] .
  have m1: "handles m1 p = Some (x\<lparr>savepoints := savepoints x @ [?sp]\<rparr>)"
    using assms(2-7) by (simp add: qihse_txn_savepoint_def txn_at_def)
  have "mgr_inv m1 h" using savepoint_inv [OF inv] assms(7) by simp
  then have "txn_wf (x\<lparr>savepoints := savepoints x @ [?sp]\<rparr>)"
    using m1 by (auto simp: mgr_inv_def dest: handles_invD)
  from record_all_local [OF m1 this, of as] assms(8,9) obtain es where
    z: "txn_wf z" "rw_set z = rw_set x @ es" "savepoints z = savepoints x @ [?sp]" "state z = TXN_ACTIVE"
      "resource_ctx z = None"
    using assms(3,4) by auto
  have found: "find_savepoint (savepoints z) nm (length (savepoints z)) = int ?n"
    by (simp add: z(3))
  have c: "nat (write_count x) = length (filter rw_is_write (rw_set x))"
    using inv assms(2) by (auto simp: mgr_inv_def txn_wf_def dest: handles_invD)
  have w: "filter rw_is_write (rw_set (rolled_back z ?n)) = filter rw_is_write (rw_set x)"
    using rolled_back_writes [OF z(1), of ?n] by (simp add: z(2,3) c nth_append)
  have rd: "filter (\<lambda>e. \<not> rw_is_write e) (rw_set (rolled_back z ?n)) = filter (\<lambda>e. \<not> rw_is_write e) (rw_set z)"
    by (simp add: rolled_back_def keep_writes_reads)
  have r: "qihse_txn_rollback_to_savepoint m2 p (Some nm) = (0, txn_at m2 p (\<lambda>y. rolled_back z ?n))"
    using found by (simp add: rollback_to_eq [OF assms(9) z(4,5)] Let_def)
  show ?thesis
    unfolding r using w rd assms(9)
    by (auto simp: txn_at_def rolled_back_def z(3) nth_append)
qed

text \<open>
  A savepoint name longer than 63 characters can never be rolled back to: the stored
  name is truncated, the comparison uses the full name.
\<close>
lemma long_savepoint_lost:
  assumes "txn_reach m h" "63 < length nm"
  shows "qihse_txn_rollback_to_savepoint m p (Some nm) = (-1, m)"
proof (cases "\<exists>x. handles m p = Some x \<and> state x = TXN_ACTIVE \<and> resource_ctx x = None")
  case True
  then obtain x where x: "handles m p = Some x" "state x = TXN_ACTIVE" "resource_ctx x = None" by blast
  have "txn_wf x" using reach_inv [OF assms(1)] x(1) by (auto simp: mgr_inv_def dest: handles_invD)
  then have "\<forall>j < length (savepoints x). sp_name (savepoints x ! j) \<noteq> nm"
    using assms(2) unfolding txn_wf_def by (metis leD nth_mem)
  then show ?thesis
    by (simp add: rollback_to_eq [OF x] Let_def find_savepoint_none)
next
  case False
  then show ?thesis by (auto simp: qihse_txn_rollback_to_savepoint_def split: option.splits)
qed

text \<open>
  C25: COMMIT PREPARED is one decision for all participants: on 0 the registry says committed
  and exactly the commit callbacks of all participants are called; on -1 it does not and
  exactly the abort callbacks of all participants are called.
\<close>
theorem txn_2pc_decision:
  assumes "txn_reach m h" "handles m p = Some x" "state x = TXN_PREPARED"
    and "qihse_txn_commit_prepared env m p = (rc, m')"
  shows "(\<exists>y. handles m' p = Some y \<and> state y = (if rc = 0 then TXN_COMMITTED else TXN_ABORTED)) \<and>
    (rc = 0 \<or> rc = -1) \<and> (qihse_txn_is_committed m' (txn_id x) \<longleftrightarrow> rc = 0) \<and>
    calls m' = calls m @ (if rc = 0 then commit_calls (txn_id x) (participants m)
                          else abort_calls (txn_id x) (participants m))"
proof -
  have inv: "handles_inv m" "registry_inv m"
    using reach_inv [OF assms(1)] by (simp_all add: mgr_inv_def)
  have none: "reg_status m (txn_id x) = None"
    using live_status [OF inv(2) assms(2)] assms(3) by simp
  note view = view_simps close_status [OF inv(2)] status_committed
  note close = commit_prepared_closes [OF inv(1) assms(2,3), of env, unfolded assms(4)]
  show ?thesis
  proof (cases "commit_refused env m p x \<or> \<not> ok_registry env")
    case True
    then have "rc = -1" "m' = prune_committed_history_locked
                (close_txn m p x TXN_ABORTED (ok_registry env) (commit_seq m) []
                   (abort_calls (txn_id x) (participants m)))"
      using close by auto
    with none show ?thesis by (simp add: view)
  next
    case False
    then have "rc = 0" "m' = prune_committed_history_locked
                (close_txn m p x TXN_COMMITTED True (commit_seq m + 1) (commit_summaries m p x)
                   (commit_calls (txn_id x) (participants m)))"
      using close by auto
    then show ?thesis by (simp add: view)
  qed
qed

lemma prepare_calls_no_abort: "CallAbort i t \<notin> set (prepare_calls env u qs)"
  by (auto simp: prepare_calls_def Let_def)

text \<open>
  C34: when a participant refuses to prepare, the transaction is aborted (its handle says so, it
  leaves the active list, and the registry reports it aborted if the entry could be
  allocated) but no participant is told: the calls made are the prepares up to the refusal, no
  abort callback is called, and a later ABORT PREPARED is rejected, so participants that
  prepared stay prepared.
\<close>
theorem txn_prepare_failure_strands_participants:
  assumes "txn_reach m h" "handles m p = Some x" "state x = TXN_ACTIVE" "resource_ctx x = None"
    and "\<not> all_prepared env (participants m)" "m' = snd (qihse_txn_prepare env m p)"
  shows "fst (qihse_txn_prepare env m p) = -1 \<and>
    (\<exists>y. handles m' p = Some y \<and> txn_id y = txn_id x \<and> state y = TXN_ABORTED) \<and> p \<notin> set (active m') \<and>
    (qihse_txn_is_aborted m' (txn_id x) \<longleftrightarrow> ok_registry env) \<and> \<not> qihse_txn_is_committed m' (txn_id x) \<and>
    calls m' = calls m @ prepare_calls env (txn_id x) (participants m) \<and>
    (\<forall>i t. CallAbort i t \<in> set (calls m') \<longleftrightarrow> CallAbort i t \<in> set (calls m)) \<and>
    (\<forall>env'. qihse_txn_abort_prepared env' m' p = (-1, m'))"
proof -
  have hi: "handles_inv m" and ri: "registry_inv m"
    using reach_inv [OF assms(1)] by (simp_all add: mgr_inv_def)
  have none: "reg_status m (txn_id x) = None" using live_status [OF ri assms(2)] assms(3) by simp
  have p: "p \<notin> set (remove1 p (active m))" using hi by (simp add: handles_inv_def)
  have m': "fst (qihse_txn_prepare env m p) = -1" "m' = prune_committed_history_locked
      (close_txn m p x TXN_ABORTED (ok_registry env) (commit_seq m) []
        (prepare_calls env (txn_id x) (participants m)))"
    using assms(5,6) by (simp_all add: prepare_closes [OF hi assms(2-4)])
  have h: "handles m' p = Some ((clear_resource x)\<lparr>state := TXN_ABORTED\<rparr>)"
    by (simp add: m'(2) view_simps)
  then have ap: "qihse_txn_abort_prepared env' m' p = (-1, m')" for env' by (intro commit_noop(5)) simp
  have "p \<notin> set (active m')" "qihse_txn_is_aborted m' (txn_id x) \<longleftrightarrow> ok_registry env"
    "\<not> qihse_txn_is_committed m' (txn_id x)"
    using p none by (simp_all add: m'(2) view_simps close_status [OF ri] status_committed status_aborted)
  with h ap m' prepare_calls_no_abort show ?thesis by (simp add: view_simps clear_resource_def)
qed

subsection \<open>Witnesses\<close>

definition demo_pre :: txn_manager where
  "demo_pre = fst (txn_run [Begin env_ok ISO_SERIALIZABLE, Begin env_ok ISO_READ_COMMITTED,
     RecordRead env_ok 0 1 (Some [5]), RecordWrite env_ok 1 1 (Some [5])] (mgr_start, []))"

definition demo_reader :: txn where
  "demo_reader = \<lparr>txn_id = 1, state = TXN_ACTIVE, isolation = ISO_SERIALIZABLE, snapshot = 0,
     serialization_snapshot = 0, start_lsn = 0, savepoints = [],
     rw_set = [\<lparr>rw_engine = 1, rw_key = [5], rw_is_write = False\<rparr>], rw_capacity = 16,
     write_count = 0, resource_ctx = None, resource_commit = False, resource_rollback = False\<rparr>"

definition demo_writer :: txn where
  "demo_writer = \<lparr>txn_id = 2, state = TXN_ACTIVE, isolation = ISO_READ_COMMITTED, snapshot = 1,
     serialization_snapshot = 0, start_lsn = 0, savepoints = [],
     rw_set = [\<lparr>rw_engine = 1, rw_key = [5], rw_is_write = True\<rparr>], rw_capacity = 16,
     write_count = 1, resource_ctx = None, resource_commit = False, resource_rollback = False\<rparr>"

lemma demo_pre_eq:
  "demo_pre = \<lparr>next_txn_id = 3, handles = [0 \<mapsto> demo_reader, 1 \<mapsto> demo_writer], next_ref = 2,
     active = [1, 0], active_count = 2, registry_n_buckets = 1024,
     registry_buckets = replicate 1024 [], commit_seq = 0, committed = [], committed_count = 0,
     participants = [], calls = []\<rparr>"
  by (simp add: demo_pre_def mgr_start_def demo_reader_def demo_writer_def txn_eval fun_eq_iff)

lemma reach_apply:
  "txn_reach m h \<Longrightarrow> op_allowed op m \<Longrightarrow>
     txn_reach (snd (txn_apply op m)) (log_commit op m (fst (txn_apply op m)) h)"
  by (rule txn_reach.step) simp_all

lemma mgr_start_reach: "txn_reach mgr_start []"
  by (rule txn_reach.create [of True True True]) (simp add: mgr_start_def qihse_txn_manager_create_def)

lemma demo_pre_reach: "txn_reach demo_pre []"
  by (rule txn_run_reach [OF mgr_start_reach, where ops = "[Begin env_ok ISO_SERIALIZABLE, Begin env_ok ISO_READ_COMMITTED,
     RecordRead env_ok 0 1 (Some [5]), RecordWrite env_ok 1 1 (Some [5])]"])
    (simp_all add: demo_pre_def mgr_start_def txn_eval)

lemma demo_pre_commit: "fst (qihse_txn_commit env_ok demo_pre 1) = 0"
  by (simp add: commit_closes [of demo_pre 1 demo_writer] reach_inv [OF demo_pre_reach, unfolded mgr_inv_def]
      demo_pre_eq demo_writer_def demo_reader_def commit_refused_def txn_eval)


definition demo_post :: txn_manager where
  "demo_post = snd (qihse_txn_commit env_ok demo_pre 1)"

definition demo_history :: commit_history where
  "demo_history = [(1, [\<lparr>rw_engine = 1, rw_key = [5], rw_is_write = True\<rparr>])]"

lemma demo_commit_eq: "qihse_txn_commit env_ok demo_pre 1 = (0, demo_post)"
  using demo_pre_commit by (simp add: demo_post_def prod_eq_iff)

lemma demo_post_reach: "txn_reach demo_post demo_history"
  using txn_reach.step [OF demo_pre_reach, of "Commit env_ok 1" 0 demo_post] demo_commit_eq
  by (simp add: demo_history_def demo_pre_eq demo_writer_def writes_at_def)

lemma demo_post_eq:
  "demo_post = prune_committed_history_locked
     (close_txn demo_pre 1 demo_writer TXN_COMMITTED True 1 [summary_of demo_writer 1] [])"
proof -
  have x: "handles demo_pre 1 = Some demo_writer" "state demo_writer = TXN_ACTIVE"
    by (simp_all add: demo_pre_eq demo_writer_def)
  have "\<not> commit_refused env_ok demo_pre 1 demo_writer" "summary_needed_locked demo_pre 1 demo_writer"
      "ok_registry env_ok" "commit_seq demo_pre = 0" "resource_ctx demo_writer = None"
    by (simp_all add: demo_pre_eq demo_writer_def demo_reader_def commit_refused_def txn_eval)
  with commit_closes [OF _ x, of env_ok] reach_inv [OF demo_pre_reach] show ?thesis
    by (simp add: demo_post_def commit_summaries_def mgr_inv_def)
qed

lemma demo_post_handles: "handles demo_post = [0 \<mapsto> demo_reader, 1 \<mapsto> demo_writer\<lparr>state := TXN_COMMITTED\<rparr>]"
  by (simp add: demo_post_eq view_simps demo_pre_eq clear_resource_def demo_writer_def fun_eq_iff)

lemma demo_post_committed: "committed demo_post = [summary_of demo_writer 1]"
  by (simp add: demo_post_eq prune_eq close_txn_def demo_pre_eq min_serializable_snapshot_locked_def
      demo_reader_def is_live_def summary_of_def)

theorem txn_occ_exact_witness: "qihse_txn_validate_occ demo_post 0 = -1"
  using txn_occ_exact [OF demo_post_reach, of 0 demo_reader]
  by (simp add: demo_post_handles demo_reader_def demo_history_def conflicts_with_def)

theorem txn_commit_iff_witness:
  "fst (qihse_txn_commit env_ok demo_post 0) \<noteq> 0 \<and> fst (qihse_txn_commit env_ok demo_pre 1) = 0"
proof -
  have "fst (qihse_txn_commit env_ok demo_post 0) \<noteq> 0"
    using txn_commit_iff [OF demo_post_reach, of 0 demo_reader env_ok]
    by (simp add: demo_post_handles demo_reader_def demo_history_def conflicts_with_def)
  with demo_pre_commit show ?thesis by simp
qed

theorem txn_commit_outcome_witness:
  "qihse_txn_is_committed demo_post 2 \<and> commit_seq demo_post = 1"
  using txn_commit_outcome [OF demo_pre_reach _ _ demo_commit_eq, of demo_writer]
  by (auto simp: demo_pre_eq demo_writer_def)

theorem txn_registry_agrees_witness:
  "qihse_txn_is_committed demo_post 2 \<and> \<not> qihse_txn_is_committed demo_post 1"
proof -
  have h: "handles demo_post 1 = Some (demo_writer\<lparr>state := TXN_COMMITTED\<rparr>)"
      "handles demo_post 0 = Some demo_reader"
    by (simp_all add: demo_post_handles)
  from txn_registry_agrees [OF demo_post_reach h(1), THEN conjunct1]
    txn_registry_agrees [OF demo_post_reach h(2), THEN conjunct1]
  show ?thesis by (simp add: demo_writer_def demo_reader_def)
qed

theorem txn_history_bounded_witness:
  "committed demo_post = [summary_of demo_writer 1] \<and>
   (\<exists>q y. q \<in> set (active demo_post) \<and> handles demo_post q = Some y \<and>
      isolation y = ISO_SERIALIZABLE \<and> serialization_snapshot y < 1)"
proof -
  have "handles demo_pre 1 = Some demo_writer" "state demo_writer = TXN_ACTIVE"
    by (simp_all add: demo_pre_eq demo_writer_def)
  from txn_history_bounded [OF demo_pre_reach this, of demo_post env_ok "summary_of demo_writer 1"]
  show ?thesis by (simp add: demo_post_committed demo_commit_eq [simplified] summary_of_def)
qed

theorem txn_savepoint_restores_witness:
  "fst (qihse_txn_rollback_to_savepoint
      (record_all 1 [(env_ok, True, 1, [6])] (snd (qihse_txn_savepoint demo_pre 1 (Some ''a'')))) 1 (Some ''a'')) = 0"
proof -
  have x: "handles demo_pre 1 = Some demo_writer" "state demo_writer = TXN_ACTIVE" "resource_ctx demo_writer = None"
    "length (savepoints demo_writer) < QIHSE_TXN_MAX_SAVEPOINTS"
    by (simp_all add: demo_pre_eq demo_writer_def QIHSE_TXN_MAX_SAVEPOINTS_def)
  have "\<exists>z. handles (record_all 1 [(env_ok, True, 1, [6])] (snd (qihse_txn_savepoint demo_pre 1 (Some ''a'')))) 1 = Some z"
    by (simp add: demo_pre_eq demo_writer_def txn_eval)
  then obtain z where "handles (record_all 1 [(env_ok, True, 1, [6])] (snd (qihse_txn_savepoint demo_pre 1 (Some ''a'')))) 1 = Some z"
    by blast
  from txn_savepoint_restores [OF demo_pre_reach x _ refl refl this] show ?thesis by simp
qed

definition demo_part :: participant where
  "demo_part = \<lparr>part_engine = 0, part_prepare = True, part_commit = True, part_abort = True\<rparr>"

definition demo_2pc :: txn_manager where
  "demo_2pc = fst (txn_run [RegisterParticipant demo_part, RegisterParticipant demo_part,
     Begin env_ok ISO_READ_COMMITTED] (mgr_start, []))"

lemma demo_2pc_reach: "txn_reach demo_2pc []"
  by (rule txn_run_reach [OF mgr_start_reach, where ops = "[RegisterParticipant demo_part,
     RegisterParticipant demo_part, Begin env_ok ISO_READ_COMMITTED]"])
    (simp_all add: demo_2pc_def mgr_start_def txn_eval)

lemma demo_2pc_facts:
  "handles demo_2pc 0 = Some (new_txn mgr_start ISO_READ_COMMITTED)"
  "participants demo_2pc = [demo_part, demo_part]" "calls demo_2pc = []"
  by (simp_all add: demo_2pc_def mgr_start_def txn_eval)

theorem txn_prepare_failure_strands_participants_witness:
  "let m' = snd (qihse_txn_prepare (env_ok\<lparr>rc_prepare := \<lambda>i. if i = 1 then 1 else 0\<rparr>) demo_2pc 0) in
   calls m' = [CallPrepare 0 1, CallPrepare 1 1] \<and> qihse_txn_is_aborted m' 1 \<and> 0 \<notin> set (active m') \<and>
   qihse_txn_abort_prepared env_ok m' 0 = (-1, m')"
proof -
  let ?env = "env_ok\<lparr>rc_prepare := \<lambda>i. if i = 1 then 1 else 0\<rparr>"
  have "\<not> all_prepared ?env (participants demo_2pc)"
    by (simp add: all_prepared_def demo_2pc_facts demo_part_def exI [of _ "Suc 0"])
  from txn_prepare_failure_strands_participants [OF demo_2pc_reach demo_2pc_facts(1) _ _ this refl]
  show ?thesis
    by (simp add: demo_2pc_facts prepare_calls_def demo_part_def mgr_start_def txn_eval)
qed

definition demo_prepared :: txn_manager where
  "demo_prepared = snd (qihse_txn_prepare env_ok demo_2pc 0)"

lemma demo_prepared_reach: "txn_reach demo_prepared []"
  using reach_apply [OF demo_2pc_reach, of "Prepare env_ok 0"] by (simp add: demo_prepared_def)

lemma demo_prepared_facts:
  "handles demo_prepared 0 = Some ((new_txn mgr_start ISO_READ_COMMITTED)\<lparr>state := TXN_PREPARED\<rparr>)"
  "participants demo_prepared = [demo_part, demo_part]"
  "calls demo_prepared = [CallPrepare 0 1, CallPrepare 1 1]"
  using prepare_closes [OF _ demo_2pc_facts(1), of env_ok] reach_inv [OF demo_2pc_reach]
  by (simp_all add: demo_prepared_def mgr_inv_def demo_2pc_facts all_prepared_def env_ok_def
      txn_at_def prepare_calls_def demo_part_def mgr_start_def qihse_txn_manager_create_def QIHSE_TXN_FIRST_ID_def)

lemma demo_not_refused:
  "\<not> commit_refused env_ok demo_prepared 0 ((new_txn mgr_start ISO_READ_COMMITTED)\<lparr>state := TXN_PREPARED\<rparr>)"
proof -
  have "commit_seq demo_prepared = 0"
    using prepare_closes [OF _ demo_2pc_facts(1), of env_ok] reach_inv [OF demo_2pc_reach]
    by (simp add: demo_prepared_def mgr_inv_def demo_2pc_facts all_prepared_def env_ok_def txn_at_def
        demo_2pc_def mgr_start_def txn_eval)
  then show ?thesis
    by (simp add: commit_refused_def validate_occ_locked_def summary_needed_locked_def new_txn_def UINT64_MAX_def)
qed

theorem txn_2pc_decision_witness:
  "calls (snd (qihse_txn_commit_prepared env_ok demo_prepared 0)) =
     [CallPrepare 0 1, CallPrepare 1 1, CallCommit 0 1, CallCommit 1 1]"
proof -
  have x: "handles demo_prepared 0 = Some ((new_txn mgr_start ISO_READ_COMMITTED)\<lparr>state := TXN_PREPARED\<rparr>)"
    "state ((new_txn mgr_start ISO_READ_COMMITTED)\<lparr>state := TXN_PREPARED\<rparr>) = TXN_PREPARED"
    by (simp_all add: demo_prepared_facts)
  have "\<exists>m'. qihse_txn_commit_prepared env_ok demo_prepared 0 = (0, m')"
    using commit_prepared_closes [OF _ x, of env_ok] reach_inv [OF demo_prepared_reach] demo_not_refused
    by (simp add: mgr_inv_def env_ok_def)
  then obtain m' where m': "qihse_txn_commit_prepared env_ok demo_prepared 0 = (0, m')" ..
  from txn_2pc_decision [OF demo_prepared_reach x m'] show ?thesis
    by (simp add: m' demo_prepared_facts commit_calls_def demo_part_def mgr_start_def
        qihse_txn_manager_create_def QIHSE_TXN_FIRST_ID_def)
qed

lemma demo_post_prepared:
  "qihse_txn_prepare env_ok demo_post 0 =
     (0, (txn_at demo_post 0 (\<lambda>y. y\<lparr>state := TXN_PREPARED\<rparr>))\<lparr>calls := []\<rparr>)"
proof -
  have x: "handles demo_post 0 = Some demo_reader" "state demo_reader = TXN_ACTIVE" "resource_ctx demo_reader = None"
    by (simp_all add: demo_post_handles demo_reader_def)
  have "participants demo_post = []" "calls demo_post = []"
    by (simp_all add: demo_post_eq view_simps demo_pre_eq)
  then show ?thesis
    using prepare_closes [OF _ x, of env_ok] reach_inv [OF demo_post_reach]
    by (simp add: mgr_inv_def all_prepared_def prepare_calls_def)
qed

text \<open>
  ABORT PREPARED does not prune the history: it can leave a summary behind when no
  transaction is active, where ROLLBACK of the same transaction leaves none.
\<close>
lemma abort_prepared_keeps_history:
  "let m = snd (qihse_txn_prepare env_ok demo_post 0);
       m' = snd (qihse_txn_abort_prepared env_ok m 0)
   in txn_reach m' demo_history \<and> active m' = [] \<and> qihse_txn_committed_history_count m' = 1 \<and>
      qihse_txn_committed_history_count (snd (qihse_txn_rollback env_ok demo_post 0)) = 0"
proof -
  define m where "m = snd (qihse_txn_prepare env_ok demo_post 0)"
  let ?x = "demo_reader\<lparr>state := TXN_PREPARED\<rparr>"
  have reach: "txn_reach m demo_history"
    using reach_apply [OF demo_post_reach, of "Prepare env_ok 0"] by (simp add: m_def)
  have act: "active demo_post = [0]" by (simp add: demo_post_eq view_simps demo_pre_eq)
  have cnt: "committed_count demo_post = 1"
    using reach_inv [OF demo_post_reach] by (simp add: mgr_inv_def history_inv_def demo_post_committed)
  have m: "handles m 0 = Some ?x" "active m = [0]" "committed_count m = 1"
    unfolding m_def demo_post_prepared
    by (simp_all add: txn_at_def demo_post_handles act cnt)
  have hi: "handles_inv m" using reach_inv [OF reach] by (simp add: mgr_inv_def)
  have ab: "snd (qihse_txn_abort_prepared env_ok m 0) =
      close_txn m 0 ?x TXN_ABORTED True (commit_seq m) [] (abort_calls (txn_id ?x) (participants m))"
    using abort_prepared_closes [OF hi m(1), of env_ok] by (simp add: env_ok_def)
  have y: "handles demo_post 0 = Some demo_reader" "state demo_reader = TXN_ACTIVE"
    by (simp_all add: demo_post_handles demo_reader_def)
  from act have "committed_count (snd (qihse_txn_rollback env_ok demo_post 0)) = 0"
    using rollback_closes [OF _ y, of env_ok] reach_inv [OF demo_post_reach]
    by (simp add: mgr_inv_def prune_eq close_txn_def demo_post_committed history_inv_def
        min_serializable_snapshot_locked_def)
  moreover have "txn_reach (snd (qihse_txn_abort_prepared env_ok m 0)) demo_history"
    using reach_apply [OF reach, of "AbortPrepared env_ok 0"] by simp
  ultimately show ?thesis
    using m by (simp add: Let_def qihse_txn_committed_history_count_def ab close_txn_def flip: m_def)
qed

end
