(* ===== verification/Bytes.thy ===== *)
theory Bytes
  imports Prelude
begin

section \<open>Little-endian integers in byte buffers\<close>

text \<open>
  The C code copies integers between buffers and variables with \<open>memcpy\<close> on a
  little-endian machine. \<open>le_bytes n x\<close> is the memory of an \<open>n\<close>-byte integer, \<open>le_word\<close> reads
  it back; the two are inverse.
\<close>

definition le_bytes :: "nat \<Rightarrow> 'a::len word \<Rightarrow> bytes" where
  "le_bytes n x = map (\<lambda>i. ucast (drop_bit (8 * i) x)) [0..<n]"

primrec le_word :: "bytes \<Rightarrow> 'a::len word" where
  "le_word [] = 0"
| "le_word (b # bs) = ucast b OR push_bit 8 (le_word bs)"

lemma length_le_bytes [simp]: "length (le_bytes n x) = n"
  by (simp add: le_bytes_def)

lemma bit_le_word:
  "bit (le_word bs :: 'a::len word) i \<longleftrightarrow>
     i < LENGTH('a) \<and> i div 8 < length bs \<and> bit (bs ! (i div 8)) (i mod 8)"
proof (induction bs arbitrary: i)
  case (Cons b bs)
  show ?case
  proof (cases "i < 8")
    case True
    then show ?thesis by (auto simp: bit_or_iff bit_push_bit_iff bit_ucast_iff)
  next
    case False
    then have "i div 8 = Suc ((i - 8) div 8)" "i mod 8 = (i - 8) mod 8"
      by (auto simp: le_div_geq le_mod_geq)
    with False Cons.IH [of "i - 8"] show ?thesis
      by (auto simp: bit_or_iff bit_push_bit_iff bit_ucast_iff dest: bit_imp_le_length)
  qed
qed simp

lemma bit_le_bytes:
  "k < n \<Longrightarrow> bit (le_bytes n (x :: 'a::len word) ! k) j \<longleftrightarrow> j < 8 \<and> bit x (8 * k + j)"
  by (auto simp: le_bytes_def bit_ucast_iff bit_drop_bit_eq)

lemma le_word_le_bytes:
  "LENGTH('a) \<le> 8 * n \<Longrightarrow> le_word (le_bytes n (x :: 'a::len word)) = x"
proof (rule bit_eqI)
  fix i
  assume "LENGTH('a) \<le> 8 * n" "possible_bit TYPE('a word) i"
  then have "i < LENGTH('a)" "i div 8 < n" by auto
  then show "bit (le_word (le_bytes n x) :: 'a word) i \<longleftrightarrow> bit x i"
    by (simp add: bit_le_word bit_le_bytes)
qed

lemma le_bytes_le_word:
  assumes "8 * length bs \<le> LENGTH('a)"
  shows "le_bytes (length bs) (le_word bs :: 'a::len word) = bs"
proof (rule nth_equalityI)
  fix k
  assume k: "k < length (le_bytes (length bs) (le_word bs :: 'a word))"
  show "le_bytes (length bs) (le_word bs :: 'a word) ! k = bs ! k"
  proof (rule bit_eqI)
    fix j
    assume j: "possible_bit TYPE(8 word) j"
    then have "j < 8" by simp
    moreover from this k assms have "8 * k + j < LENGTH('a)" by simp
    ultimately show "bit (le_bytes (length bs) (le_word bs :: 'a word) ! k) j \<longleftrightarrow> bit (bs ! k) j"
      using k by (simp add: bit_le_bytes bit_le_word)
  qed
qed simp

lemma le_bytes_inject:
  "LENGTH('a) \<le> 8 * n \<Longrightarrow> le_bytes n (x :: 'a::len word) = le_bytes n y \<longleftrightarrow> x = y"
  by (metis le_word_le_bytes)

lemma le_word_roundtrips [simp]:
  "le_word (le_bytes 8 (x :: u64)) = x" "le_word (le_bytes 4 (y :: u32)) = y"
  by (simp_all add: le_word_le_bytes)

end
