(* ===== verification/Crc.thy ===== *)
theory Crc
  imports Bytes
begin

section \<open>CRC-32 of the write-ahead log\<close>

text \<open>
  Model of the checksum of \<^verbatim>\<open>src/tractable/qihse_wal.c\<close>: the eight tables that
  \<^verbatim>\<open>init_crc32_slice8\<close> builds, the slice-by-8 loop \<^verbatim>\<open>crc32_slice8\<close> and the entry point
  \<^verbatim>\<open>qihse_wal_crc32\<close>. The reference is the bitwise definition of the reflected CRC with
  polynomial 0xEDB88320. The bit step is linear for exclusive or and injective; the first
  gives the equivalence of the table-driven routine with the reference, the second that a
  change of one byte is always detected. The carry-less multiplication variant compiled
  on machines with PCLMULQDQ is vendor intrinsics and is not modelled.
\<close>

definition CRC_POLY :: u32 where
  "CRC_POLY = 0xEDB88320"

definition crc_bit :: "u32 \<Rightarrow> u32" where
  "crc_bit c = (if c AND 1 \<noteq> 0 then CRC_POLY XOR drop_bit 1 c else drop_bit 1 c)"

definition init_entry :: "u32 \<Rightarrow> u32" where
  "init_entry i = (crc_bit ^^ 8) i"

primrec s_crc32_table :: "nat \<Rightarrow> u32 list" where
  "s_crc32_table 0 = map (\<lambda>i. init_entry (of_nat i)) [0..<256]"
| "s_crc32_table (Suc j) =
     map (\<lambda>i. drop_bit 8 (s_crc32_table j ! i) XOR
              map (\<lambda>i. init_entry (of_nat i)) [0..<256] ! unat (s_crc32_table j ! i AND 0xFF)) [0..<256]"

primrec crc32_tail :: "bytes \<Rightarrow> u32 \<Rightarrow> u32" where
  "crc32_tail [] crc = crc"
| "crc32_tail (b # bs) crc =
     crc32_tail bs (s_crc32_table 0 ! unat ((crc XOR ucast b) AND 0xFF) XOR drop_bit 8 crc)"

fun crc32_slice8 :: "bytes \<Rightarrow> u32 \<Rightarrow> u32" where
  "crc32_slice8 (p0 # p1 # p2 # p3 # p4 # p5 # p6 # p7 # ps) crc =
     (let c = crc XOR le_word [p0, p1, p2, p3] in
      crc32_slice8 ps
        (s_crc32_table 7 ! unat (c AND 0xFF) XOR
         s_crc32_table 6 ! unat (drop_bit 8 c AND 0xFF) XOR
         s_crc32_table 5 ! unat (drop_bit 16 c AND 0xFF) XOR
         s_crc32_table 4 ! unat (drop_bit 24 c) XOR
         s_crc32_table 3 ! unat p4 XOR
         s_crc32_table 2 ! unat p5 XOR
         s_crc32_table 1 ! unat p6 XOR
         s_crc32_table 0 ! unat p7))"
| "crc32_slice8 ps crc = crc32_tail ps crc"

definition qihse_wal_crc32 :: "bytes option \<Rightarrow> u32" where
  "qihse_wal_crc32 data =
     (case data of
        None \<Rightarrow> 0
      | Some bs \<Rightarrow> if length bs = 0 then 0 else crc32_slice8 bs 0xFFFFFFFF XOR 0xFFFFFFFF)"

subsection \<open>Reference\<close>

definition crc_byte :: "u32 \<Rightarrow> u8 \<Rightarrow> u32" where
  "crc_byte c b = (crc_bit ^^ 8) (c XOR ucast b)"

definition crc_ref :: "bytes \<Rightarrow> u32 \<Rightarrow> u32" where
  "crc_ref bs c = foldl crc_byte c bs"

definition crc32_ref :: "bytes \<Rightarrow> u32" where
  "crc32_ref bs = crc_ref bs 0xFFFFFFFF XOR 0xFFFFFFFF"

subsection \<open>The bit step is linear and injective\<close>

lemma crc_bit_eq: "crc_bit c = drop_bit 1 c XOR (if bit c 0 then CRC_POLY else 0)"
  by (simp add: crc_bit_def and_one_eq bit_0 odd_iff_mod_2_eq_one xor.commute)

lemma crc_bit_xor: "crc_bit (a XOR b) = crc_bit a XOR crc_bit b"
  by (auto simp: crc_bit_eq drop_bit_xor bit_xor_iff xor.assoc xor.left_commute)

lemma crc_bits_xor: "(crc_bit ^^ n) (a XOR b) = (crc_bit ^^ n) a XOR (crc_bit ^^ n) b"
  by (induction n) (simp_all add: crc_bit_xor)

lemma crc_bits_add: "(crc_bit ^^ k) ((crc_bit ^^ n) x) = (crc_bit ^^ (n + k)) x"
  by (subst add.commute) (simp add: funpow_add)

lemma crc_bit_zero [simp]: "crc_bit 0 = 0"
  by (simp add: crc_bit_eq)

lemma bit_31_poly: "bit CRC_POLY 31"
  by (simp add: CRC_POLY_def)

lemma crc_bit_nonzero: "crc_bit c = 0 \<Longrightarrow> c = 0"
proof -
  assume z: "crc_bit c = 0"
  have "\<not> bit (crc_bit c) 31" by (simp add: z)
  then have b0: "\<not> bit c 0"
    by (auto simp: crc_bit_eq bit_xor_iff bit_drop_bit_eq bit_31_poly dest: bit_imp_le_length)
  with z have "drop_bit 1 c = 0" by (simp add: crc_bit_eq)
  then have "\<not> bit c (Suc n)" for n
    using bit_drop_bit_eq [of 1 c, THEN fun_cong, of n] by simp
  with b0 have "\<not> bit c n" for n by (cases n) auto
  then show "c = 0" by (intro bit_eqI) simp
qed

lemma crc_bits_nonzero: "(crc_bit ^^ n) c = 0 \<Longrightarrow> c = 0"
  by (induction n) (auto dest: crc_bit_nonzero)

lemma crc_bits_zero [simp]: "(crc_bit ^^ n) 0 = 0"
  by (induction n) simp_all

lemma xor_eq_0: "(a :: u32) XOR b = 0 \<Longrightarrow> a = b"
proof -
  assume "a XOR b = 0"
  then have "(a XOR b) XOR b = b" by simp
  then show ?thesis by (simp add: xor.assoc)
qed

lemma xor_right_cancel: "(a :: u32) XOR b = c XOR b \<longleftrightarrow> a = c"
proof
  assume "a XOR b = c XOR b"
  then have "(a XOR b) XOR b = (c XOR b) XOR b" by simp
  then show "a = c" by (simp add: xor.assoc)
qed simp

lemma xor_left_cancel: "(b :: u32) XOR a = b XOR c \<longleftrightarrow> a = c"
  using xor_right_cancel [of a b c] by (simp add: xor.commute)

lemma crc_bits_inject: "(crc_bit ^^ n) a = (crc_bit ^^ n) b \<longleftrightarrow> a = b"
proof
  assume "(crc_bit ^^ n) a = (crc_bit ^^ n) b"
  then have "(crc_bit ^^ n) (a XOR b) = 0" by (simp add: crc_bits_xor)
  then have "a XOR b = 0" by (rule crc_bits_nonzero)
  then show "a = b" by (simp add: xor_eq_0)
qed simp

subsection \<open>The tables\<close>

lemma crc_bits_shift: "(\<And>i. i < n \<Longrightarrow> \<not> bit x i) \<Longrightarrow> (crc_bit ^^ n) x = drop_bit n x"
proof (induction n)
  case (Suc n)
  then have "(crc_bit ^^ n) x = drop_bit n x" "\<not> bit x n" by simp_all
  then have "(crc_bit ^^ Suc n) x = drop_bit 1 (drop_bit n x)"
    by (simp add: crc_bit_eq bit_drop_bit_eq)
  then show ?case by (simp add: drop_bit_drop_bit add.commute)
qed simp

lemma low_byte_split: "(x :: u32) = (x AND 0xFF) XOR push_bit 8 (drop_bit 8 x)"
proof (rule bit_eqI)
  fix n
  have m: "(0xFF :: u32) = mask 8" by (simp add: mask_eq_exp_minus_1)
  show "bit x n \<longleftrightarrow> bit ((x AND 0xFF) XOR push_bit 8 (drop_bit 8 x)) n"
    by (cases "n < 8")
      (auto simp: m bit_xor_iff bit_and_iff bit_mask_iff bit_push_bit_iff bit_drop_bit_eq
        dest: bit_imp_le_length)
qed

lemma crc_byte_split: "(crc_bit ^^ 8) x = (crc_bit ^^ 8) (x AND 0xFF) XOR drop_bit 8 x"
proof -
  have "(crc_bit ^^ 8) (push_bit 8 (drop_bit 8 x)) = drop_bit 8 (push_bit 8 (drop_bit 8 x))"
    by (rule crc_bits_shift) (simp add: bit_push_bit_iff)
  also have "\<dots> = drop_bit 8 x"
    by (rule bit_eqI) (auto simp: bit_drop_bit_eq bit_push_bit_iff dest: bit_imp_le_length)
  finally show ?thesis
    by (subst low_byte_split) (simp only: crc_bits_xor)
qed

lemma unat_and_255: "unat ((x :: u32) AND 0xFF) < 256"
proof -
  have "x AND 0xFF \<le> 0xFF" by (rule word_and_le1)
  then show ?thesis by (simp add: word_le_nat_alt)
qed

lemma table_entry: "i < 256 \<Longrightarrow> s_crc32_table j ! i = (crc_bit ^^ (8 * Suc j)) (of_nat i)"
proof (induction j arbitrary: i)
  case 0
  then show ?case by (simp add: init_entry_def)
next
  case (Suc j)
  let ?t = "s_crc32_table j ! i"
  have "s_crc32_table (Suc j) ! i = drop_bit 8 ?t XOR init_entry (of_nat (unat (?t AND 0xFF)))"
    using Suc.prems unat_and_255 [of ?t] by simp
  also have "\<dots> = (crc_bit ^^ 8) ?t"
    unfolding crc_byte_split [of ?t] by (simp add: init_entry_def xor.commute)
  also have "\<dots> = (crc_bit ^^ (8 * Suc (Suc j))) (of_nat i)"
    unfolding Suc.IH [OF Suc.prems] crc_bits_add by (simp add: add.commute)
  finally show ?case .
qed

lemma word_table:
  "unat (x :: u32) < 256 \<Longrightarrow> s_crc32_table j ! unat x = (crc_bit ^^ (8 * Suc j)) x"
  by (simp add: table_entry)

lemma unat_byte: "unat (b :: u8) < 256"
proof -
  have "unat b < 2 ^ LENGTH(8)" by (rule unsigned_less)
  then show ?thesis by simp
qed

lemma byte_table: "s_crc32_table j ! unat (b :: u8) = (crc_bit ^^ (8 * Suc j)) (ucast b)"
proof -
  have "s_crc32_table j ! unat b = (crc_bit ^^ (8 * Suc j)) (of_nat (unat b))"
    by (rule table_entry [OF unat_byte])
  also have "(of_nat (unat b) :: u32) = ucast b" by simp
  finally show ?thesis .
qed

subsection \<open>Equivalence of the table-driven routine with the reference\<close>

lemma drop_xor_byte: "drop_bit 8 (c XOR ucast (b :: u8)) = drop_bit 8 (c :: u32)"
  by (rule bit_eqI) (auto simp: bit_drop_bit_eq bit_xor_iff bit_ucast_iff dest: bit_imp_le_length)

lemma crc32_tail_ref: "crc32_tail bs c = crc_ref bs c"
proof (induction bs arbitrary: c)
  case (Cons b bs)
  have "crc_byte c b = s_crc32_table 0 ! unat ((c XOR ucast b) AND 0xFF) XOR drop_bit 8 c"
    unfolding crc_byte_def crc_byte_split [of "c XOR ucast b"] drop_xor_byte
    using word_table [OF unat_and_255, of 0] by simp
  with Cons show ?case by (simp add: crc_ref_def)
qed (simp add: crc_ref_def)

lemma crc_byte_linear: "crc_byte c b = (crc_bit ^^ 8) c XOR (crc_bit ^^ 8) (ucast b)"
  by (simp add: crc_byte_def crc_bits_xor)

text \<open>Eight bytes at once, by linearity.\<close>

lemma crc_ref_8:
  "crc_ref [p0, p1, p2, p3, p4, p5, p6, p7] c =
     (crc_bit ^^ 64) c XOR (crc_bit ^^ 64) (ucast p0) XOR (crc_bit ^^ 56) (ucast p1) XOR
     (crc_bit ^^ 48) (ucast p2) XOR (crc_bit ^^ 40) (ucast p3) XOR (crc_bit ^^ 32) (ucast p4) XOR
     (crc_bit ^^ 24) (ucast p5) XOR (crc_bit ^^ 16) (ucast p6) XOR (crc_bit ^^ 8) (ucast p7)"
  by (simp add: crc_ref_def crc_byte_linear crc_bits_xor crc_bits_add xor.assoc)

lemma le_word_4:
  "(le_word [p0, p1, p2, p3] :: u32) =
     ucast p0 XOR push_bit 8 (ucast p1) XOR push_bit 16 (ucast p2) XOR push_bit 24 (ucast p3)"
proof (rule bit_eqI)
  fix n
  assume "possible_bit TYPE(32 word) n"
  then have "n < 32" by simp
  then consider "n < 8" | "8 \<le> n" "n < 16" | "16 \<le> n" "n < 24" | "24 \<le> n" "n < 32" by linarith
  then show "bit (le_word [p0, p1, p2, p3] :: u32) n \<longleftrightarrow> bit (ucast p0 XOR
      push_bit 8 (ucast p1) XOR push_bit 16 (ucast p2) XOR push_bit 24 (ucast p3) :: u32) n"
    by cases
      (auto simp: bit_or_iff bit_xor_iff bit_push_bit_iff bit_ucast_iff dest: bit_imp_le_length)
qed

lemma crc_push:
  assumes "k \<le> n" "drop_bit k (push_bit k x) = x"
  shows "(crc_bit ^^ n) (push_bit k x) = (crc_bit ^^ (n - k)) x"
proof -
  have "(crc_bit ^^ k) (push_bit k x) = x"
    using crc_bits_shift [of k "push_bit k x"] assms(2) by (simp add: bit_push_bit_iff)
  then show ?thesis using crc_bits_add [of "n - k" k "push_bit k x"] assms(1) by simp
qed

lemma drop_push_byte:
  "k \<le> 24 \<Longrightarrow> drop_bit k (push_bit k (ucast (b :: u8) :: u32)) = ucast b"
  by (rule bit_eqI)
    (auto simp: bit_drop_bit_eq bit_push_bit_iff bit_ucast_iff dest: bit_imp_le_length)

lemma crc_le_word:
  "(crc_bit ^^ 64) (le_word [p0, p1, p2, p3]) =
     (crc_bit ^^ 64) (ucast p0) XOR (crc_bit ^^ 56) (ucast p1) XOR
     (crc_bit ^^ 48) (ucast p2) XOR (crc_bit ^^ 40) (ucast p3)"
  unfolding le_word_4 crc_bits_xor by (simp add: crc_push drop_push_byte)

lemma le_bytes_4: "\<exists>b0 b1 b2 b3. (c :: u32) = le_word [b0, b1, b2, b3] \<and>
    c AND 0xFF = ucast b0 \<and> drop_bit 8 c AND 0xFF = ucast b1 \<and>
    drop_bit 16 c AND 0xFF = ucast b2 \<and> drop_bit 24 c = ucast b3"
proof -
  have m: "(0xFF :: u32) = mask 8" by (simp add: mask_eq_exp_minus_1)
  have b: "x AND 0xFF = ucast (ucast x :: u8)" for x :: u32
    by (rule bit_eqI) (auto simp: m bit_and_iff bit_mask_iff bit_ucast_iff)
  have t: "drop_bit 24 c = ucast (ucast (drop_bit 24 c) :: u8)"
    by (rule bit_eqI) (auto simp: bit_ucast_iff bit_drop_bit_eq dest: bit_imp_le_length)
  have "c = le_word (le_bytes 4 c)" by simp
  also have "le_bytes 4 c = [ucast c, ucast (drop_bit 8 c), ucast (drop_bit 16 c), ucast (drop_bit 24 c)]"
    by (simp add: le_bytes_def upt_rec)
  finally show ?thesis using b t by blast
qed

lemma slice_step:
  "(let c = crc XOR le_word [p0, p1, p2, p3] in
      s_crc32_table 7 ! unat (c AND 0xFF) XOR
      s_crc32_table 6 ! unat (drop_bit 8 c AND 0xFF) XOR
      s_crc32_table 5 ! unat (drop_bit 16 c AND 0xFF) XOR
      s_crc32_table 4 ! unat (drop_bit 24 c) XOR
      s_crc32_table 3 ! unat p4 XOR s_crc32_table 2 ! unat p5 XOR
      s_crc32_table 1 ! unat p6 XOR s_crc32_table 0 ! unat p7) =
   crc_ref [p0, p1, p2, p3, p4, p5, p6, p7] crc"
proof -
  let ?c = "crc XOR le_word [p0, p1, p2, p3]"
  obtain b0 b1 b2 b3 where b: "?c = le_word [b0, b1, b2, b3]"
    "?c AND 0xFF = ucast b0" "drop_bit 8 ?c AND 0xFF = ucast b1"
    "drop_bit 16 ?c AND 0xFF = ucast b2" "drop_bit 24 ?c = ucast b3"
    using le_bytes_4 by blast
  have u: "unat (ucast b :: u32) = unat b" for b :: u8
    by (simp add: unsigned_ucast_eq take_bit_nat_eq_self unat_byte [THEN less_trans])
  have "(crc_bit ^^ 64) ?c = (crc_bit ^^ 64) (ucast b0) XOR (crc_bit ^^ 56) (ucast b1) XOR
      (crc_bit ^^ 48) (ucast b2) XOR (crc_bit ^^ 40) (ucast b3)"
    unfolding b(1) by (rule crc_le_word)
  moreover have "(crc_bit ^^ 64) ?c = (crc_bit ^^ 64) crc XOR (crc_bit ^^ 64) (ucast p0) XOR
      (crc_bit ^^ 56) (ucast p1) XOR (crc_bit ^^ 48) (ucast p2) XOR (crc_bit ^^ 40) (ucast p3)"
    unfolding crc_bits_xor crc_le_word by simp
  ultimately have "((crc_bit ^^ 64) (ucast b0) XOR (crc_bit ^^ 56) (ucast b1) XOR
      (crc_bit ^^ 48) (ucast b2) XOR (crc_bit ^^ 40) (ucast b3)) XOR r =
      ((crc_bit ^^ 64) crc XOR (crc_bit ^^ 64) (ucast p0) XOR
      (crc_bit ^^ 56) (ucast p1) XOR (crc_bit ^^ 48) (ucast p2) XOR (crc_bit ^^ 40) (ucast p3)) XOR r" for r
    by (simp only:)
  from this [of "(crc_bit ^^ 32) (ucast p4) XOR (crc_bit ^^ 24) (ucast p5) XOR
      (crc_bit ^^ 16) (ucast p6) XOR (crc_bit ^^ 8) (ucast p7)"] show ?thesis
    unfolding Let_def b(2-5) u byte_table crc_ref_8 by (simp add: xor.assoc)
qed

lemma crc32_slice8_ref: "crc32_slice8 bs crc = crc_ref bs crc"
proof (induction bs crc rule: crc32_slice8.induct)
  case (1 p0 p1 p2 p3 p4 p5 p6 p7 ps crc)
  show ?case
    using 1 [OF refl] slice_step [of crc p0 p1 p2 p3 p4 p5 p6 p7]
    by (simp add: crc_ref_def Let_def)
qed (simp_all add: crc32_tail_ref)

subsection \<open>Error detection\<close>

lemma crc_ref_inject: "crc_ref bs c = crc_ref bs c' \<longleftrightarrow> c = c'"
proof (induction bs arbitrary: c c')
  case (Cons b bs)
  then show ?case by (simp add: crc_ref_def crc_byte_def crc_bits_inject xor_right_cancel)
qed (simp add: crc_ref_def)

lemma crc_ref_append: "crc_ref (xs @ ys) c = crc_ref ys (crc_ref xs c)"
  by (simp add: crc_ref_def)

lemma or_byte_xor:
  "(ucast (b :: u8) OR push_bit 8 y :: u32) = ucast b XOR push_bit 8 y"
  by (rule bit_eqI)
    (auto simp: bit_or_iff bit_xor_iff bit_push_bit_iff bit_ucast_iff dest: bit_imp_le_length)

lemma drop_push_le_word:
  "length bs < 4 \<Longrightarrow> drop_bit 8 (push_bit 8 (le_word bs :: u32)) = le_word bs"
  by (rule bit_eqI) (auto simp: bit_drop_bit_eq bit_push_bit_iff bit_le_word)

lemma crc_ref_short:
  "length bs \<le> 4 \<Longrightarrow> crc_ref bs c = (crc_bit ^^ (8 * length bs)) (c XOR le_word bs)"
proof (induction bs arbitrary: c)
  case (Cons b bs)
  let ?n = "8 * length bs"
  have "crc_ref (b # bs) c = crc_ref bs ((crc_bit ^^ 8) (c XOR ucast b))"
    by (simp add: crc_ref_def crc_byte_def)
  also have "\<dots> = (crc_bit ^^ ?n) ((crc_bit ^^ 8) (c XOR ucast b) XOR le_word bs)"
    using Cons by simp
  also have "le_word bs = (crc_bit ^^ 8) (push_bit 8 (le_word bs))"
    using crc_push [of 8 8 "le_word bs"] drop_push_le_word [of bs] Cons.prems by simp
  finally show ?case
    by (simp add: or_byte_xor crc_bits_xor crc_bits_add add.commute xor.assoc)
qed (simp add: crc_ref_def)

lemma wal_crc32_eq: "qihse_wal_crc32 (Some bs) = crc32_ref bs"
  by (simp add: qihse_wal_crc32_def crc32_slice8_ref crc32_ref_def crc_ref_def)

lemma burst_inject:
  assumes "length w = length w'" "length w \<le> 4"
  shows "crc_ref w c = crc_ref w' c \<longleftrightarrow> w = w'"
proof
  assume "crc_ref w c = crc_ref w' c"
  with assms have "c XOR le_word w = c XOR le_word w'" by (simp add: crc_ref_short crc_bits_inject)
  then have "(le_word w :: u32) = le_word w'" by (simp only: xor_left_cancel)
  moreover have "le_bytes (length w) (le_word w :: u32) = w"
    by (rule le_bytes_le_word) (use assms(2) in simp)
  moreover have "le_bytes (length w') (le_word w' :: u32) = w'"
    by (rule le_bytes_le_word) (use assms in simp)
  ultimately show "w = w'" using assms(1) by metis
qed simp

lemma crc32_burst:
  assumes "length w = length w'" "length w \<le> 4"
  shows "qihse_wal_crc32 (Some (xs @ w @ ys)) = qihse_wal_crc32 (Some (xs @ w' @ ys)) \<longleftrightarrow> w = w'"
proof -
  have "crc32_ref (xs @ w @ ys) = crc32_ref (xs @ w' @ ys) \<longleftrightarrow>
        crc_ref w (crc_ref xs 0xFFFFFFFF) = crc_ref w' (crc_ref xs 0xFFFFFFFF)"
    unfolding crc32_ref_def crc_ref_append xor_right_cancel crc_ref_inject by (rule refl)
  then show ?thesis by (simp add: wal_crc32_eq burst_inject [OF assms])
qed

text \<open>
  C27: the table-driven slice-by-8 routine computes the CRC-32 that is defined bit by bit
  for the reflected polynomial 0xEDB88320, for every input.
\<close>
theorem wal_crc32_slice8_correct: "qihse_wal_crc32 (Some bs) = crc32_ref bs"
  by (rule wal_crc32_eq)

end
