(* ===== verification/Wal.thy ===== *)
theory Wal
  imports Crc
begin

section \<open>The write-ahead log\<close>

text \<open>
  Model of \<^verbatim>\<open>src/tractable/qihse_wal.c\<close>: the record format, appends with segment
  rotation and the writer fence, flush, replay with the repair of a torn tail, opening a
  log after a restart, and checkpoints that remove old segments.

  Conventions. A log directory is a value of type \<open>wal_fs\<close>: the entries that readdir lists,
  each reduced to the index sscanf reads from the name and to whether the name is the
  canonical name of that index, and the contents of the segment files by index. A file
  descriptor is a flag: the code always writes to the file of \<open>seg_index\<close>. What the
  operating system decides (does a sync, an open, a read succeed, how many bytes does
  writev accept) is the record \<open>wal_io\<close>. Paths fit in PATH_MAX. A pointer with a length is
  an optional byte list and a 32-bit length. The mutex makes each locked section one atomic
  step; a call is one section, except that \<open>qihse_wal_append_checkpoint\<close> reads the current LSN and
  \<open>qihse_wal_checkpoint\<close> validates the log in a section of its own before the section that does the
  work (\<open>checkpoint_section\<close>). The number of replayed records, a C int, is
  an integer without bound: logs have fewer than 2^31 records.
\<close>

definition QIHSE_WAL_MAX_KEY :: u32 where
  "QIHSE_WAL_MAX_KEY = 4096"

definition QIHSE_WAL_MAX_VALUE :: u32 where
  "QIHSE_WAL_MAX_VALUE = 16 * 1024 * 1024"

definition QIHSE_WAL_RECORD_HEADER_SIZE :: nat where
  "QIHSE_WAL_RECORD_HEADER_SIZE = 30"

definition QIHSE_WAL_DEFAULT_SEGMENT_SIZE :: nat where
  "QIHSE_WAL_DEFAULT_SEGMENT_SIZE = 64 * 1024 * 1024"

definition QIHSE_WAL_OP_INSERT :: u32 where "QIHSE_WAL_OP_INSERT = 1"
definition QIHSE_WAL_OP_UPDATE :: u32 where "QIHSE_WAL_OP_UPDATE = 2"
definition QIHSE_WAL_OP_DELETE :: u32 where "QIHSE_WAL_OP_DELETE = 3"
definition QIHSE_WAL_OP_BEGIN :: u32 where "QIHSE_WAL_OP_BEGIN = 4"
definition QIHSE_WAL_OP_COMMIT :: u32 where "QIHSE_WAL_OP_COMMIT = 5"
definition QIHSE_WAL_OP_ABORT :: u32 where "QIHSE_WAL_OP_ABORT = 6"
definition QIHSE_WAL_OP_CHECKPOINT :: u32 where "QIHSE_WAL_OP_CHECKPOINT = 7"

lemmas wal_ops = QIHSE_WAL_OP_INSERT_def QIHSE_WAL_OP_UPDATE_def QIHSE_WAL_OP_DELETE_def
  QIHSE_WAL_OP_BEGIN_def QIHSE_WAL_OP_COMMIT_def QIHSE_WAL_OP_ABORT_def QIHSE_WAL_OP_CHECKPOINT_def

datatype wal_durability = DURABILITY_NONE | DURABILITY_FDATASYNC | DURABILITY_GROUP_COMMIT

record wal_record =
  rec_lsn :: u64
  rec_txn_id :: u64
  rec_engine_id :: u8
  rec_op_type :: u8
  rec_key_length :: u32
  rec_value_length :: u32
  rec_checksum :: u32

record wal =
  segment_size :: nat
  durability :: wal_durability
  next_lsn :: u64
  last_checkpoint_lsn :: u64
  marker_lsn :: u64
  marker_target :: u64
  recovering :: bool
  writer_failed :: bool
  seg_fd :: bool
  seg_index :: u64
  seg_offset :: nat

record wal_fs =
  entries :: "(u64 \<times> bool) list"
  files :: "u64 \<Rightarrow> bytes option"

record wal_io =
  io_alloc :: bool
  io_mkdir :: bool
  io_lock :: bool
  io_opendir :: bool
  io_open :: bool
  io_dirsync :: bool
  io_fstat :: bool
  io_sync :: bool
  io_rotate_sync :: bool
  io_close :: bool
  io_write :: "nat option"
  io_open_seg :: "u64 \<Rightarrow> bool"
  io_read :: "u64 \<Rightarrow> nat \<Rightarrow> bool"
  io_trunc :: bool
  io_trunc_sync :: bool
  io_unlink :: "u64 \<Rightarrow> bool"

type_synonym 'u replay_cb = "'u \<Rightarrow> wal_record \<Rightarrow> bytes option \<Rightarrow> bytes option \<Rightarrow> bool \<times> 'u"

subsection \<open>Records\<close>

definition record_shape_valid :: "u64 \<Rightarrow> u8 \<Rightarrow> u32 \<Rightarrow> u32 \<Rightarrow> u32 \<Rightarrow> bool" where
  "record_shape_valid t eng op klen vlen =
     (if klen > QIHSE_WAL_MAX_KEY \<or> vlen > QIHSE_WAL_MAX_VALUE then False
      else if op = QIHSE_WAL_OP_INSERT \<or> op = QIHSE_WAL_OP_UPDATE then True
      else if op = QIHSE_WAL_OP_DELETE then vlen = 0
      else if op = QIHSE_WAL_OP_BEGIN \<or> op = QIHSE_WAL_OP_COMMIT \<or> op = QIHSE_WAL_OP_ABORT
      then eng = 0 \<and> klen = 0 \<and> vlen = 0
      else if op = QIHSE_WAL_OP_CHECKPOINT then t = 0 \<and> eng = 0 \<and> klen = 8 \<and> vlen = 0
      else False)"

definition record_crc :: "wal_record \<Rightarrow> bytes option \<Rightarrow> bytes option \<Rightarrow> u32" where
  "record_crc r key value =
     qihse_wal_crc32 (Some (le_bytes 8 (rec_lsn r))) XOR
     qihse_wal_crc32 (Some (le_bytes 8 (rec_txn_id r))) XOR
     qihse_wal_crc32 (Some [rec_engine_id r]) XOR
     qihse_wal_crc32 (Some [rec_op_type r]) XOR
     qihse_wal_crc32 (Some (le_bytes 4 (rec_key_length r))) XOR
     qihse_wal_crc32 (Some (le_bytes 4 (rec_value_length r))) XOR
     (if rec_key_length r > 0 \<and> key \<noteq> None then qihse_wal_crc32 key else 0) XOR
     (if rec_value_length r > 0 \<and> value \<noteq> None then qihse_wal_crc32 value else 0)"

definition pack_header :: "wal_record \<Rightarrow> bytes" where
  "pack_header r =
     le_bytes 8 (rec_lsn r) @ le_bytes 8 (rec_txn_id r) @ [rec_engine_id r, rec_op_type r] @
     le_bytes 4 (rec_key_length r) @ le_bytes 4 (rec_value_length r) @ le_bytes 4 (rec_checksum r)"

definition unpack_header :: "bytes \<Rightarrow> wal_record" where
  "unpack_header hdr =
     \<lparr>rec_lsn = le_word (take 8 hdr), rec_txn_id = le_word (take 8 (drop 8 hdr)),
      rec_engine_id = hdr ! 16, rec_op_type = hdr ! 17,
      rec_key_length = le_word (take 4 (drop 18 hdr)),
      rec_value_length = le_word (take 4 (drop 22 hdr)),
      rec_checksum = le_word (take 4 (drop 26 hdr))\<rparr>"

subsection \<open>Segments\<close>

definition file_bytes :: "wal_fs \<Rightarrow> u64 \<Rightarrow> bytes" where
  "file_bytes fs i = (case files fs i of None \<Rightarrow> [] | Some bs \<Rightarrow> bs)"

definition seg_open :: "wal_io \<Rightarrow> wal \<Rightarrow> wal_fs \<Rightarrow> int \<times> wal \<times> wal_fs" where
  "seg_open io w fs =
     (if \<not> io_open io then (-1, w\<lparr>seg_fd := False\<rparr>, fs)
      else
        let i = seg_index w;
            created = (files fs i = None);
            fs1 = (if created then fs\<lparr>entries := entries fs @ [(i, True)], files := (files fs)(i \<mapsto> [])\<rparr>
                   else fs)
        in
          if created \<and> durability w \<noteq> DURABILITY_NONE \<and> \<not> io_dirsync io
          then (-1, w\<lparr>seg_fd := False\<rparr>, fs1)
          else (0, w\<lparr>seg_fd := True,
                     seg_offset := (if io_fstat io then length (file_bytes fs1 i) else 0)\<rparr>, fs1))"

definition seg_rotate :: "wal_io \<Rightarrow> wal \<Rightarrow> wal_fs \<Rightarrow> int \<times> wal \<times> wal_fs" where
  "seg_rotate io w fs =
     (if seg_fd w \<and> durability w \<noteq> DURABILITY_NONE \<and> \<not> io_rotate_sync io then (-1, w, fs)
      else if seg_fd w \<and> \<not> io_close io then (-1, w\<lparr>seg_fd := False\<rparr>, fs)
      else seg_open io (w\<lparr>seg_fd := False, seg_index := seg_index w + 1, seg_offset := 0\<rparr>) fs)"

definition write_seg :: "wal \<Rightarrow> wal_fs \<Rightarrow> bytes \<Rightarrow> wal_fs" where
  "write_seg w fs bs = fs\<lparr>files := (files fs)(seg_index w \<mapsto> file_bytes fs (seg_index w) @ bs)\<rparr>"

subsection \<open>Append and flush\<close>

definition arg_bytes :: "bytes option \<Rightarrow> u32 \<Rightarrow> bytes option" where
  "arg_bytes p n = (if n > 0 then map_option (take (unat n)) p else None)"

definition opt_bytes :: "bytes option \<Rightarrow> bytes" where
  "opt_bytes p = (case p of None \<Rightarrow> [] | Some bs \<Rightarrow> bs)"

definition make_record :: "u64 \<Rightarrow> u64 \<Rightarrow> u8 \<Rightarrow> u32 \<Rightarrow> bytes option \<Rightarrow> u32 \<Rightarrow> bytes option \<Rightarrow> u32 \<Rightarrow> wal_record" where
  "make_record lsn t eng op key klen value vlen =
     (let r = \<lparr>rec_lsn = lsn, rec_txn_id = t, rec_engine_id = eng, rec_op_type = ucast op,
               rec_key_length = klen, rec_value_length = vlen, rec_checksum = 0\<rparr>
      in r\<lparr>rec_checksum := record_crc r (arg_bytes key klen) (arg_bytes value vlen)\<rparr>)"

definition write_record ::
    "wal_io \<Rightarrow> wal \<Rightarrow> wal_fs \<Rightarrow> u64 \<Rightarrow> u8 \<Rightarrow> u32 \<Rightarrow> bytes option \<Rightarrow> u32 \<Rightarrow> bytes option \<Rightarrow> u32 \<Rightarrow>
     u64 \<times> wal \<times> wal_fs" where
  "write_record io w0 fs t eng op key klen value vlen =
     (let lsn = next_lsn w0;
          w = w0\<lparr>next_lsn := next_lsn w0 + 1\<rparr>;
          buf = pack_header (make_record lsn t eng op key klen value vlen) @
                opt_bytes (arg_bytes key klen) @ opt_bytes (arg_bytes value vlen);
          n = (case io_write io of None \<Rightarrow> 0 | Some k \<Rightarrow> min k (length buf));
          fs1 = write_seg w fs (take n buf)
      in
        if n \<noteq> length buf
        then (0, if n > 0 then w\<lparr>writer_failed := True, seg_fd := False\<rparr> else w, fs1)
        else
          let w1 = w\<lparr>seg_offset := seg_offset w + length buf\<rparr> in
          if durability w = DURABILITY_FDATASYNC \<and> \<not> io_sync io then (0, w1, fs1)
          else if op = QIHSE_WAL_OP_CHECKPOINT
          then (lsn, w1\<lparr>marker_lsn := lsn, marker_target := le_word (take 8 (opt_bytes (arg_bytes key klen)))\<rparr>, fs1)
          else (lsn, w1, fs1))"

definition wal_append_raw ::
    "wal_io \<Rightarrow> wal \<Rightarrow> wal_fs \<Rightarrow> u64 \<Rightarrow> u8 \<Rightarrow> u32 \<Rightarrow> bytes option \<Rightarrow> u32 \<Rightarrow> bytes option \<Rightarrow> u32 \<Rightarrow>
     u64 \<times> wal \<times> wal_fs" where
  "wal_append_raw io w fs t eng op key klen value vlen =
     (if writer_failed w \<or> \<not> seg_fd w \<or> \<not> record_shape_valid t eng op klen vlen \<or>
         (klen \<noteq> 0 \<and> key = None) \<or> (vlen \<noteq> 0 \<and> value = None) \<or> next_lsn w = UINT64_MAX
      then (0, w, fs)
      else
        let rec_total = QIHSE_WAL_RECORD_HEADER_SIZE + unat klen + unat vlen in
        if seg_offset w + rec_total > segment_size w \<and> seg_offset w > 0
        then (case seg_rotate io w fs of
                (rc, w1, fs1) \<Rightarrow>
                  if rc \<noteq> 0 then (0, w1, fs1)
                  else write_record io w1 fs1 t eng op key klen value vlen)
        else write_record io w fs t eng op key klen value vlen)"

definition qihse_wal_append ::
    "wal_io \<Rightarrow> wal \<Rightarrow> wal_fs \<Rightarrow> u64 \<Rightarrow> u8 \<Rightarrow> u32 \<Rightarrow> bytes option \<Rightarrow> u32 \<Rightarrow> bytes option \<Rightarrow> u32 \<Rightarrow>
     u64 \<times> wal \<times> wal_fs" where
  "qihse_wal_append io w fs t eng op key klen value vlen =
     (if op = QIHSE_WAL_OP_CHECKPOINT then (0, w, fs)
      else wal_append_raw io w fs t eng op key klen value vlen)"

definition qihse_wal_append_begin :: "wal_io \<Rightarrow> wal \<Rightarrow> wal_fs \<Rightarrow> u64 \<Rightarrow> u64 \<times> wal \<times> wal_fs" where
  "qihse_wal_append_begin io w fs t = wal_append_raw io w fs t 0 QIHSE_WAL_OP_BEGIN None 0 None 0"

definition qihse_wal_append_commit :: "wal_io \<Rightarrow> wal \<Rightarrow> wal_fs \<Rightarrow> u64 \<Rightarrow> u64 \<times> wal \<times> wal_fs" where
  "qihse_wal_append_commit io w fs t = wal_append_raw io w fs t 0 QIHSE_WAL_OP_COMMIT None 0 None 0"

definition qihse_wal_append_abort :: "wal_io \<Rightarrow> wal \<Rightarrow> wal_fs \<Rightarrow> u64 \<Rightarrow> u64 \<times> wal \<times> wal_fs" where
  "qihse_wal_append_abort io w fs t = wal_append_raw io w fs t 0 QIHSE_WAL_OP_ABORT None 0 None 0"

definition qihse_wal_current_lsn :: "wal \<Rightarrow> u64" where
  "qihse_wal_current_lsn w = next_lsn w"

definition qihse_wal_last_checkpoint :: "wal \<Rightarrow> u64" where
  "qihse_wal_last_checkpoint w = last_checkpoint_lsn w"

definition qihse_wal_append_checkpoint :: "wal_io \<Rightarrow> wal \<Rightarrow> wal_fs \<Rightarrow> u64 \<Rightarrow> u64 \<times> wal \<times> wal_fs" where
  "qihse_wal_append_checkpoint io w fs lsn =
     (if lsn = 0 \<or> lsn > qihse_wal_current_lsn w then (0, w, fs)
      else wal_append_raw io w fs 0 0 QIHSE_WAL_OP_CHECKPOINT (Some (le_bytes 8 lsn)) 8 None 0)"

definition qihse_wal_flush :: "wal_io \<Rightarrow> wal \<Rightarrow> int" where
  "qihse_wal_flush io w = (if \<not> writer_failed w \<and> seg_fd w then (if io_sync io then 0 else -1) else -1)"

subsection \<open>Replay\<close>

text \<open>
  \<open>replay_segment\<close> is the inner loop over one segment: \<open>rest\<close> is the part of the file from
  \<open>pos\<close> on, the accumulator holds the last LSN, the number of delivered records and the
  callback's state. A short header at the end is reported as \<open>SegTorn\<close> with its position;
  the outer loop decides whether to repair it.
\<close>

datatype seg_result = SegDone | SegStop | SegFail | SegTorn nat

definition checkpoint_bad :: "wal_record \<Rightarrow> bytes \<Rightarrow> bool" where
  "checkpoint_bad r key \<longleftrightarrow>
     ucast (rec_op_type r) = QIHSE_WAL_OP_CHECKPOINT \<and>
     (rec_txn_id r \<noteq> 0 \<or> rec_key_length r \<noteq> 8 \<or> rec_value_length r \<noteq> 0 \<or>
      (le_word (take 8 key) :: u64) = 0 \<or> le_word (take 8 key) > rec_lsn r)"

function replay_segment ::
    "(nat \<Rightarrow> bool) \<Rightarrow> u64 \<Rightarrow> 'u replay_cb \<Rightarrow> nat \<Rightarrow> bytes \<Rightarrow> u64 \<times> int \<times> 'u \<Rightarrow>
     seg_result \<times> u64 \<times> int \<times> 'u" where
  "replay_segment rd start cb pos rest st =
     (if rest = [] then (SegDone, st)
      else if length rest < QIHSE_WAL_RECORD_HEADER_SIZE then (SegTorn pos, st)
      else if \<not> rd pos then (SegFail, st)
      else
        let r = unpack_header (take QIHSE_WAL_RECORD_HEADER_SIZE rest);
            body = drop QIHSE_WAL_RECORD_HEADER_SIZE rest;
            klen = unat (rec_key_length r);
            vlen = unat (rec_value_length r)
        in
          if rec_lsn r = 0 \<or> rec_lsn r \<le> fst st then (SegFail, st)
          else if \<not> record_shape_valid (rec_txn_id r) (rec_engine_id r) (ucast (rec_op_type r))
                     (rec_key_length r) (rec_value_length r) then (SegFail, st)
          else if klen + vlen > length body then (SegFail, st)
          else
            let key = (if klen > 0 then Some (take klen body) else None);
                value = (if vlen > 0 then Some (take vlen (drop klen body)) else None)
            in
              if record_crc r key value \<noteq> rec_checksum r then (SegFail, st)
              else if checkpoint_bad r (opt_bytes key) then (SegFail, st)
              else
                let pos' = pos + QIHSE_WAL_RECORD_HEADER_SIZE + klen + vlen;
                    rest' = drop (klen + vlen) body
                in
                  if rec_lsn r \<ge> start
                  then (case cb (snd (snd st)) r key value of
                          (cont, u) \<Rightarrow>
                            if \<not> cont then (SegStop, rec_lsn r, fst (snd st) + 1, u)
                            else replay_segment rd start cb pos' rest' (rec_lsn r, fst (snd st) + 1, u))
                  else replay_segment rd start cb pos' rest' (rec_lsn r, snd st))"
  by pat_completeness auto
termination
  by (relation "measure (\<lambda>(rd, start, cb, pos, rest, st). length rest)")
    (auto simp: QIHSE_WAL_RECORD_HEADER_SIZE_def)

declare replay_segment.simps [simp del]

definition truncate_bytes :: "nat \<Rightarrow> bytes \<Rightarrow> bytes" where
  "truncate_bytes n bs = take n bs @ replicate (n - length bs) 0"

definition repair_torn_tail ::
    "wal_io \<Rightarrow> wal \<Rightarrow> wal_fs \<Rightarrow> u64 \<Rightarrow> u64 \<Rightarrow> nat \<Rightarrow> int \<times> wal \<times> wal_fs" where
  "repair_torn_tail io w fs idx final_idx position =
     (if \<not> recovering w \<or> idx \<noteq> final_idx \<or> \<not> io_trunc io then (-1, w, fs)
      else
        let fs1 = fs\<lparr>files := (files fs)(seg_index w \<mapsto>
                      truncate_bytes position (file_bytes fs (seg_index w)))\<rparr> in
        if \<not> io_trunc_sync io then (-1, w, fs1)
        else (0, w\<lparr>seg_offset := position\<rparr>, fs1))"

primrec insert_index :: "u64 \<Rightarrow> u64 list \<Rightarrow> u64 list" where
  "insert_index k [] = [k]"
| "insert_index k (x # xs) = (if x > k then k # x # xs else x # insert_index k xs)"

definition sort_indices :: "u64 list \<Rightarrow> u64 list" where
  "sort_indices xs = foldl (\<lambda>acc k. insert_index k acc) [] xs"

primrec replay_segments ::
    "wal_io \<Rightarrow> u64 \<Rightarrow> 'u replay_cb \<Rightarrow> u64 \<Rightarrow> u64 list \<Rightarrow> wal \<Rightarrow> wal_fs \<Rightarrow> u64 \<times> int \<times> 'u \<Rightarrow>
     int \<times> wal \<times> wal_fs \<times> 'u" where
  "replay_segments io start cb final [] w fs st = (fst (snd st), w, fs, snd (snd st))"
| "replay_segments io start cb final (i # is) w fs st =
     (if files fs i = None \<or> \<not> io_open_seg io i then (-1, w, fs, snd (snd st))
      else
        (case replay_segment (io_read io i) start cb 0 (file_bytes fs i) st of
           (SegDone, st') \<Rightarrow> replay_segments io start cb final is w fs st'
         | (SegStop, st') \<Rightarrow> (fst (snd st'), w, fs, snd (snd st'))
         | (SegFail, st') \<Rightarrow> (-1, w, fs, snd (snd st'))
         | (SegTorn position, st') \<Rightarrow>
             (case repair_torn_tail io w fs i final position of
                (rc, w1, fs1) \<Rightarrow>
                  if rc = 0 then replay_segments io start cb final is w1 fs1 st'
                  else (-1, w1, fs1, snd (snd st')))))"

definition qihse_wal_replay ::
    "wal_io \<Rightarrow> wal \<Rightarrow> wal_fs \<Rightarrow> u64 \<Rightarrow> 'u replay_cb \<Rightarrow> 'u \<Rightarrow> int \<times> wal \<times> wal_fs \<times> 'u" where
  "qihse_wal_replay io w fs start cb u =
     (if writer_failed w \<or> \<not> seg_fd w \<or> \<not> io_sync io then (-1, w, fs, u)
      else if \<not> io_opendir io then (-1, w, fs, u)
      else if \<not> io_alloc io then (-1, w, fs, u)
      else
        let idx = sort_indices (map fst (entries fs)) in
        replay_segments io start cb (if idx = [] then 0 else last idx) idx w fs (0, 0, u))"

subsection \<open>Opening a log\<close>

record wal_scan =
  scan_maximum :: u64
  scan_invalid :: bool
  scan_marker_lsn :: u64
  scan_marker_target :: u64
  scan_last_checkpoint :: u64

definition wal_scan_lsn :: "wal_scan replay_cb" where
  "wal_scan_lsn s0 r key value =
     (let s = s0\<lparr>scan_maximum := rec_lsn r\<rparr> in
      if ucast (rec_op_type r) = QIHSE_WAL_OP_CHECKPOINT
      then
        if rec_txn_id r \<noteq> 0 \<or> rec_key_length r \<noteq> 8 \<or> rec_value_length r \<noteq> 0
        then (False, s\<lparr>scan_invalid := True\<rparr>)
        else
          let target = le_word (take 8 (opt_bytes key)) in
          if target = 0 \<or> target > rec_lsn r then (False, s\<lparr>scan_invalid := True\<rparr>)
          else (True, s\<lparr>scan_marker_lsn := rec_lsn r, scan_marker_target := target,
                        scan_last_checkpoint := target\<rparr>)
      else (True, s))"

primrec max_segment :: "(u64 \<times> bool) list \<Rightarrow> u64 option \<Rightarrow> u64 option" where
  "max_segment [] acc = acc"
| "max_segment (e # es) acc =
     max_segment es
       (if snd e \<and> (case acc of None \<Rightarrow> True | Some x \<Rightarrow> fst e > x) then Some (fst e) else acc)"

definition fresh_wal :: "nat \<Rightarrow> wal_durability \<Rightarrow> u64 \<Rightarrow> wal" where
  "fresh_wal sz dur idx =
     \<lparr>segment_size = (if sz = 0 then QIHSE_WAL_DEFAULT_SEGMENT_SIZE else sz), durability = dur,
      next_lsn = 1, last_checkpoint_lsn = 0, marker_lsn = 0, marker_target = 0,
      recovering = False, writer_failed = False, seg_fd = False, seg_index = idx, seg_offset = 0\<rparr>"

definition scan_start :: wal_scan where
  "scan_start = \<lparr>scan_maximum = 0, scan_invalid = False, scan_marker_lsn = 0,
                 scan_marker_target = 0, scan_last_checkpoint = 0\<rparr>"

definition qihse_wal_create ::
    "wal_io \<Rightarrow> wal_io \<Rightarrow> wal_fs \<Rightarrow> nat \<Rightarrow> wal_durability \<Rightarrow> wal option \<times> wal_fs" where
  "qihse_wal_create io io_scan fs sz dur =
     (if \<not> io_alloc io \<or> \<not> io_mkdir io \<or> \<not> io_lock io \<or> \<not> io_opendir io then (None, fs)
      else
        let idx = (case max_segment (entries fs) None of None \<Rightarrow> 0 | Some i \<Rightarrow> i) in
        (case seg_open io (fresh_wal sz dur idx) fs of
           (rc, w, fs1) \<Rightarrow>
             if rc \<noteq> 0 then (None, fs1)
             else
               (case qihse_wal_replay io_scan (w\<lparr>recovering := True\<rparr>) fs1 0 wal_scan_lsn scan_start of
                  (scanned, w2, fs2, s) \<Rightarrow>
                    if scanned < 0 \<or> scan_invalid s \<or> scan_maximum s = UINT64_MAX then (None, fs2)
                    else (Some (w2\<lparr>recovering := False, marker_lsn := scan_marker_lsn s,
                                  marker_target := scan_marker_target s,
                                  last_checkpoint_lsn := scan_last_checkpoint s,
                                  next_lsn := scan_maximum s + 1\<rparr>), fs2))))"

text \<open>
  Destroying a handle ignores the results of its sync and closes; the handle is gone and the
  files stay as they are.
\<close>

definition qihse_wal_destroy :: "wal option \<Rightarrow> wal_fs \<Rightarrow> wal option \<times> wal_fs" where
  "qihse_wal_destroy w fs = (case w of None \<Rightarrow> (None, fs) | Some _ \<Rightarrow> (None, fs))"

subsection \<open>Checkpoint\<close>

function segment_last_lsn :: "(nat \<Rightarrow> bool) \<Rightarrow> nat \<Rightarrow> bytes \<Rightarrow> u64 \<Rightarrow> u64 option" where
  "segment_last_lsn rd pos rest last_lsn =
     (if rest = [] then Some last_lsn
      else if length rest < QIHSE_WAL_RECORD_HEADER_SIZE \<or> \<not> rd pos then None
      else
        let r = unpack_header (take QIHSE_WAL_RECORD_HEADER_SIZE rest);
            body = drop QIHSE_WAL_RECORD_HEADER_SIZE rest;
            klen = unat (rec_key_length r);
            vlen = unat (rec_value_length r)
        in
          if rec_lsn r = 0 \<or> rec_lsn r \<le> last_lsn \<or> rec_key_length r > QIHSE_WAL_MAX_KEY \<or>
             rec_value_length r > QIHSE_WAL_MAX_VALUE \<or> klen + vlen > length body
          then None
          else segment_last_lsn rd (pos + QIHSE_WAL_RECORD_HEADER_SIZE + klen + vlen)
                 (drop (klen + vlen) body) (rec_lsn r))"
  by pat_completeness auto
termination
  by (relation "measure (\<lambda>(rd, pos, rest, l). length rest)")
    (auto simp: QIHSE_WAL_RECORD_HEADER_SIZE_def)

declare segment_last_lsn.simps [simp del]

definition validate_record :: "unit replay_cb" where
  "validate_record u r key value = (True, u)"

definition remove_segment :: "wal_fs \<Rightarrow> u64 \<Rightarrow> wal_fs" where
  "remove_segment fs i = fs\<lparr>entries := removeAll (i, True) (entries fs), files := (files fs)(i := None)\<rparr>"

primrec prune_segments ::
    "wal_io \<Rightarrow> u64 \<Rightarrow> u64 \<Rightarrow> (u64 \<times> bool) list \<Rightarrow> wal_fs \<Rightarrow> bool \<Rightarrow> bool \<times> bool \<times> wal_fs" where
  "prune_segments io cur target [] fs removed = (True, removed, fs)"
| "prune_segments io cur target (e # es) fs removed =
     (if snd e \<and> fst e < cur
      then
        if files fs (fst e) = None \<or> \<not> io_open_seg io (fst e) then (False, removed, fs)
        else
          (case segment_last_lsn (io_read io (fst e)) 0 (file_bytes fs (fst e)) 0 of
             None \<Rightarrow> (False, removed, fs)
           | Some l \<Rightarrow>
               if l \<ge> target then prune_segments io cur target es fs removed
               else if \<not> io_unlink io (fst e) then (False, removed, fs)
               else prune_segments io cur target es (remove_segment fs (fst e)) True)
      else prune_segments io cur target es fs removed)"

text \<open>The second locked section of a checkpoint, and the whole call.\<close>

definition checkpoint_section :: "wal_io \<Rightarrow> wal \<Rightarrow> wal_fs \<Rightarrow> u64 \<Rightarrow> int \<times> wal \<times> wal_fs" where
  "checkpoint_section io w fs target =
     (if writer_failed w \<or> \<not> seg_fd w \<or> marker_target w \<noteq> target \<or>
         marker_lsn w < target \<or> target \<ge> next_lsn w \<or> target < last_checkpoint_lsn w
      then (-1, w, fs)
      else if \<not> io_sync io then (-1, w, fs)
      else if \<not> io_opendir io then (-1, w, fs)
      else
        (case prune_segments io (seg_index w) target (entries fs) fs False of
           (ok, removed, fs1) \<Rightarrow>
             if \<not> ok then (-1, w, fs1)
             else if removed \<and> durability w \<noteq> DURABILITY_NONE \<and> \<not> io_dirsync io then (-1, w, fs1)
             else (0, w\<lparr>last_checkpoint_lsn := target\<rparr>, fs1)))"

definition qihse_wal_checkpoint ::
    "wal_io \<Rightarrow> wal_io \<Rightarrow> wal \<Rightarrow> wal_fs \<Rightarrow> u64 \<Rightarrow> int \<times> wal \<times> wal_fs" where
  "qihse_wal_checkpoint io_val io w0 fs0 target =
     (if target = 0 then (-1, w0, fs0)
      else
        (case qihse_wal_replay io_val w0 fs0 0 validate_record () of
           (rc, w, fs, _) \<Rightarrow> if rc < 0 then (-1, w, fs) else checkpoint_section io w fs target))"

end
