(* ===== verification/WalLog.thy ===== *)
theory WalLog
  imports Wal "HOL-Library.Multiset"
begin

section \<open>The log as a list of records\<close>

text \<open>
  The refinement of the write-ahead log to its abstract value, the list of accepted records:
  the codec of one record (locale \<open>record_codec\<close>), replay as delivery of that list, the
  invariant \<open>log_inv\<close> that ties the segment files to it, and for every operation (append with
  rotation, opening with the repair of a torn tail, a crash, the removal of segments at a
  checkpoint) what it does to the list.
\<close>

subsection \<open>A record codec\<close>

locale record_codec =
  fixes enc :: "'e \<Rightarrow> bytes"
    and dec :: "bytes \<Rightarrow> ('e \<times> bytes) option"
    and ok :: "'e \<Rightarrow> bool"
  assumes dec_enc: "ok e \<Longrightarrow> dec (enc e @ rest) = Some (e, rest)"
    and enc_nonempty: "ok e \<Longrightarrow> enc e \<noteq> []"
begin

lemma enc_append_inject:
  assumes "ok e" "ok e'" "enc e @ xs = enc e' @ ys"
  shows "e = e' \<and> xs = ys"
proof -
  have "Some (e, xs) = dec (enc e @ xs)" by (simp only: dec_enc [OF assms(1)])
  also have "\<dots> = Some (e', ys)" by (simp only: assms(3) dec_enc [OF assms(2)])
  finally show ?thesis by simp
qed

lemma log_inject:
  assumes "\<forall>e \<in> set es. ok e" "\<forall>e \<in> set es'. ok e"
    and "concat (map enc es) = concat (map enc es')"
  shows "es = es'"
  using assms
proof (induction es arbitrary: es')
  case Nil
  show ?case
  proof (cases es')
    case (Cons a as)
    with Nil.prems have "ok a" "enc a = []" by simp_all
    with enc_nonempty [of a] show ?thesis by blast
  qed simp
next
  case (Cons e es)
  have "ok e" using Cons.prems by simp
  then have "concat (map enc (e # es)) \<noteq> []" using enc_nonempty [of e] by simp
  with Cons.prems(3) obtain e' es'' where es': "es' = e' # es''" by (cases es') simp_all
  have "ok e'" using Cons.prems(2) by (simp add: es')
  moreover have "enc e @ concat (map enc es) = enc e' @ concat (map enc es'')"
    using Cons.prems(3) unfolding es' list.map concat.simps .
  ultimately have "e = e' \<and> concat (map enc es) = concat (map enc es'')"
    by (rule enc_append_inject [OF \<open>ok e\<close>])
  moreover have "es = es''" if "concat (map enc es) = concat (map enc es'')"
    by (rule Cons.IH [OF _ _ that]) (use Cons.prems(1,2) in \<open>simp_all add: es'\<close>)
  ultimately show ?case by (simp add: es')
qed

end

type_synonym wal_entry = "wal_record \<times> bytes option \<times> bytes option"

definition encode_entry :: "wal_entry \<Rightarrow> bytes" where
  "encode_entry e = (case e of (r, k, v) \<Rightarrow> pack_header r @ opt_bytes k @ opt_bytes v)"

definition payload_ok :: "u32 \<Rightarrow> bytes option \<Rightarrow> bool" where
  "payload_ok n p = (case p of None \<Rightarrow> n = 0 | Some bs \<Rightarrow> n > 0 \<and> length bs = unat n)"

definition entry_ok :: "wal_entry \<Rightarrow> bool" where
  "entry_ok e = (case e of (r, k, v) \<Rightarrow>
     rec_lsn r \<noteq> 0 \<and>
     record_shape_valid (rec_txn_id r) (rec_engine_id r) (ucast (rec_op_type r))
       (rec_key_length r) (rec_value_length r) \<and>
     payload_ok (rec_key_length r) k \<and> payload_ok (rec_value_length r) v \<and>
     record_crc r k v = rec_checksum r \<and> \<not> checkpoint_bad r (opt_bytes k))"

definition parse_record :: "bytes \<Rightarrow> (wal_entry \<times> bytes) option" where
  "parse_record rest =
     (if length rest < QIHSE_WAL_RECORD_HEADER_SIZE then None
      else
        let r = unpack_header (take QIHSE_WAL_RECORD_HEADER_SIZE rest);
            body = drop QIHSE_WAL_RECORD_HEADER_SIZE rest;
            klen = unat (rec_key_length r);
            vlen = unat (rec_value_length r);
            key = (if klen > 0 then Some (take klen body) else None);
            value = (if vlen > 0 then Some (take vlen (drop klen body)) else None)
        in if klen + vlen \<le> length body \<and> entry_ok (r, key, value)
           then Some ((r, key, value), drop (klen + vlen) body) else None)"

lemma length_pack [simp]: "length (pack_header r) = 30"
  by (simp add: pack_header_def)

lemma unpack_pack: "unpack_header (pack_header r) = r"
  by (simp add: unpack_header_def pack_header_def nth_append)

lemma length_opt_bytes: "payload_ok n p \<Longrightarrow> length (opt_bytes p) = unat n"
  by (auto simp: payload_ok_def opt_bytes_def split: option.splits)

lemma unat_pos: "0 < unat (n :: 'a::len word) \<longleftrightarrow> n > 0"
  by (simp add: word_less_nat_alt)

lemma payload_read: "payload_ok n p \<Longrightarrow> (if n > 0 then Some (opt_bytes p) else None) = p"
  by (auto simp: payload_ok_def opt_bytes_def split: option.splits)

lemma parse_encode: "entry_ok e \<Longrightarrow> parse_record (encode_entry e @ rest) = Some (e, rest)"
proof -
  assume ok: "entry_ok e"
  obtain r k v where e: "e = (r, k, v)" by (cases e)
  have k: "payload_ok (rec_key_length r) k" and v: "payload_ok (rec_value_length r) v"
    using ok by (auto simp: e entry_ok_def)
  show ?thesis
    using ok length_opt_bytes [OF k] length_opt_bytes [OF v]
    by (simp add: parse_record_def e encode_entry_def QIHSE_WAL_RECORD_HEADER_SIZE_def unpack_pack
        Let_def unat_pos payload_read [OF k] payload_read [OF v] del: if_split cong: if_cong)
qed

interpretation wal_codec: record_codec encode_entry parse_record entry_ok
proof
  show "entry_ok e \<Longrightarrow> encode_entry e \<noteq> []" for e
    using length_pack by (auto simp: encode_entry_def split: prod.splits dest: arg_cong [where f = length])
qed (rule parse_encode)

subsection \<open>Replay of one segment\<close>

fun deliver :: "u64 \<Rightarrow> 'u replay_cb \<Rightarrow> wal_entry list \<Rightarrow> int \<times> 'u \<Rightarrow> bool \<times> int \<times> 'u" where
  "deliver start cb [] s = (True, s)"
| "deliver start cb ((r, k, v) # es) (n, u) =
     (if rec_lsn r \<ge> start
      then (case cb u r k v of
              (cont, u') \<Rightarrow> if cont then deliver start cb es (n + 1, u') else (False, n + 1, u'))
      else deliver start cb es (n, u))"

lemma replay_segment_parsed:
  assumes p: "parse_record rest = Some ((r, k, v), rest')" and rd: "rd pos" and l: "l < rec_lsn r"
  shows "replay_segment rd start cb pos rest (l, n, u) =
    (let pos' = pos + 30 + unat (rec_key_length r) + unat (rec_value_length r) in
     if rec_lsn r \<ge> start
     then (case cb u r k v of
             (cont, u') \<Rightarrow> if \<not> cont then (SegStop, rec_lsn r, n + 1, u')
                          else replay_segment rd start cb pos' rest' (rec_lsn r, n + 1, u'))
     else replay_segment rd start cb pos' rest' (rec_lsn r, n, u))"
proof -
  have h: "\<not> length rest < 30" and r: "r = unpack_header (take 30 rest)"
    and len: "unat (rec_key_length r) + unat (rec_value_length r) \<le> length (drop 30 rest)"
    and k: "k = (if 0 < unat (rec_key_length r) then Some (take (unat (rec_key_length r)) (drop 30 rest)) else None)"
    and v: "v = (if 0 < unat (rec_value_length r) then Some (take (unat (rec_value_length r))
                   (drop (unat (rec_key_length r)) (drop 30 rest))) else None)"
    and rest': "rest' = drop (unat (rec_key_length r) + unat (rec_value_length r)) (drop 30 rest)"
    and ok: "entry_ok (r, k, v)"
    using p unfolding parse_record_def QIHSE_WAL_RECORD_HEADER_SIZE_def Let_def
    by (auto split: if_splits)
  have ne: "rest \<noteq> []" using h by auto
  have fields: "rec_lsn r \<noteq> 0" "record_shape_valid (rec_txn_id r) (rec_engine_id r) (ucast (rec_op_type r))
       (rec_key_length r) (rec_value_length r)" "record_crc r k v = rec_checksum r"
      "\<not> checkpoint_bad r (opt_bytes k)"
    using ok by (auto simp: entry_ok_def)
  have nl: "\<not> rec_lsn r \<le> l" "\<not> length (drop 30 rest) < unat (rec_key_length r) + unat (rec_value_length r)"
    using l len by auto
  show ?thesis
    by (subst replay_segment.simps)
      (simp only: QIHSE_WAL_RECORD_HEADER_SIZE_def Let_def r [symmetric] k [symmetric] v [symmetric]
        rest' [symmetric] ne h rd fields nl fst_conv snd_conv not_True_eq_False not_False_eq_True
        if_False if_True simp_thms)
qed

lemma replay_segment_rejects:
  assumes "parse_record rest = None" "30 \<le> length rest"
  shows "replay_segment rd start cb pos rest st = (SegFail, st)"
proof -
  let ?r = "unpack_header (take 30 rest)"
  let ?k = "if 0 < unat (rec_key_length ?r) then Some (take (unat (rec_key_length ?r)) (drop 30 rest)) else None"
  let ?v = "if 0 < unat (rec_value_length ?r) then Some (take (unat (rec_value_length ?r))
                   (drop (unat (rec_key_length ?r)) (drop 30 rest))) else None"
  have "payload_ok (rec_key_length ?r) ?k" "payload_ok (rec_value_length ?r) ?v"
    if "\<not> unat (rec_key_length ?r) + unat (rec_value_length ?r) > length (drop 30 rest)"
    using that by (auto simp: payload_ok_def unat_pos [symmetric] unat_eq_0)
  then have bad: "unat (rec_key_length ?r) + unat (rec_value_length ?r) > length (drop 30 rest) \<or>
      rec_lsn ?r = 0 \<or> \<not> record_shape_valid (rec_txn_id ?r) (rec_engine_id ?r) (ucast (rec_op_type ?r))
       (rec_key_length ?r) (rec_value_length ?r) \<or> record_crc ?r ?k ?v \<noteq> rec_checksum ?r \<or>
      checkpoint_bad ?r (opt_bytes ?k)"
    using assms unfolding parse_record_def QIHSE_WAL_RECORD_HEADER_SIZE_def Let_def entry_ok_def
    by (auto split: if_splits)
  have ne: "rest \<noteq> []" using assms(2) by auto
  show ?thesis
    using bad assms(2) ne
    by (subst replay_segment.simps) (auto simp: QIHSE_WAL_RECORD_HEADER_SIZE_def Let_def)
qed

abbreviation entry_lsn :: "wal_entry \<Rightarrow> u64" where
  "entry_lsn e \<equiv> rec_lsn (fst e)"

definition log_bytes :: "wal_entry list \<Rightarrow> bytes" where
  "log_bytes es = concat (map encode_entry es)"

primrec last_lsn :: "u64 \<Rightarrow> wal_entry list \<Rightarrow> u64" where
  "last_lsn l [] = l"
| "last_lsn l (e # es) = last_lsn (entry_lsn e) es"

lemma log_bytes_simps [simp]:
  "log_bytes [] = []" "log_bytes (e # es) = encode_entry e @ log_bytes es"
  "log_bytes (es @ es') = log_bytes es @ log_bytes es'"
  by (simp_all add: log_bytes_def)

lemma length_encode: "entry_ok (r, k, v) \<Longrightarrow>
    length (encode_entry (r, k, v)) = 30 + unat (rec_key_length r) + unat (rec_value_length r)"
  by (auto simp: encode_entry_def entry_ok_def dest!: length_opt_bytes)

lemma replay_segment_log:
  assumes "\<forall>e \<in> set es. entry_ok e" "sorted_wrt (<) (l # map entry_lsn es)" "\<And>q. rd q"
    and d: "deliver start cb es (n, u) = (cont, n', u')"
  shows "(cont \<longrightarrow> replay_segment rd start cb pos (log_bytes es @ tail) (l, n, u) =
            replay_segment rd start cb (pos + length (log_bytes es)) tail (last_lsn l es, n', u')) \<and>
         (\<not> cont \<longrightarrow> (\<exists>l'. replay_segment rd start cb pos (log_bytes es @ tail) (l, n, u) =
            (SegStop, l', n', u')))"
  using assms(1,2) d
proof (induction es arbitrary: pos l n u)
  case Nil
  then show ?case by simp
next
  case (Cons e es)
  obtain r k v where e: "e = (r, k, v)" by (cases e)
  have ok: "entry_ok (r, k, v)" using Cons.prems(1) by (simp add: e)
  have p: "parse_record (log_bytes (e # es) @ tail) = Some ((r, k, v), log_bytes es @ tail)"
    using parse_encode [OF ok, of "log_bytes es @ tail"] by (simp add: e)
  have l: "l < rec_lsn r" using Cons.prems(2) by (simp add: e)
  have s: "sorted_wrt (<) (rec_lsn r # map entry_lsn es)" using Cons.prems(2) by (simp add: e)
  have oks: "\<forall>e \<in> set es. entry_ok e" using Cons.prems(1) by simp
  note step = replay_segment_parsed [of _ r k v _ rd pos l start cb n u, OF p assms(3) l]
  have pos: "pos + length (log_bytes (e # es)) =
      (pos + 30 + unat (rec_key_length r) + unat (rec_value_length r)) + length (log_bytes es)"
    using length_encode [OF ok] by (simp add: e)
  show ?case
  proof (cases "start \<le> rec_lsn r")
    case False
    with Cons.prems(3) have "deliver start cb es (n, u) = (cont, n', u')" by (simp add: e)
    from Cons.IH [OF oks s this] show ?thesis unfolding step pos using False by (simp add: e Let_def)
  next
    case True
    obtain c u1 where c: "cb u r k v = (c, u1)" by force
    show ?thesis
    proof (cases c)
      case True
      with Cons.prems(3) c \<open>start \<le> rec_lsn r\<close> have "deliver start cb es (n + 1, u1) = (cont, n', u')"
        by (simp add: e)
      from Cons.IH [OF oks s this] show ?thesis
        unfolding step pos using True \<open>start \<le> rec_lsn r\<close> by (simp add: e c Let_def)
    next
      case False
      with Cons.prems(3) c \<open>start \<le> rec_lsn r\<close> have "\<not> cont" "n' = n + 1" "u' = u1" by (auto simp: e)
      with False c \<open>start \<le> rec_lsn r\<close> show ?thesis unfolding step by (simp add: Let_def)
    qed
  qed
qed

lemma replay_segment_end [simp]: "replay_segment rd start cb pos [] st = (SegDone, st)"
  by (subst replay_segment.simps) simp

lemma replay_segment_torn:
  "0 < length rest \<Longrightarrow> length rest < 30 \<Longrightarrow> replay_segment rd start cb pos rest st = (SegTorn pos, st)"
  by (subst replay_segment.simps) (auto simp: QIHSE_WAL_RECORD_HEADER_SIZE_def)

text \<open>A proper prefix of a record is never accepted.\<close>

lemma parse_proper_prefix:
  assumes "entry_ok e" "encode_entry e = p @ q" "q \<noteq> []"
  shows "parse_record p = None"
proof (rule ccontr)
  assume "parse_record p \<noteq> None"
  then obtain e' rest where p: "parse_record p = Some (e', rest)" by auto
  obtain r k v where e: "e = (r, k, v)" by (cases e)
  have len: "length (p @ q) = 30 + unat (rec_key_length r) + unat (rec_value_length r)"
    using length_encode [of r k v] assms(1,2) by (simp add: e)
  from p have 30: "30 \<le> length p"
    by (simp add: parse_record_def QIHSE_WAL_RECORD_HEADER_SIZE_def split: if_splits)
  have "take 30 (p @ q) = pack_header r" using assms(2) by (simp add: e encode_entry_def flip: assms(2))
  with 30 have "take 30 p = pack_header r" by simp
  then have "unpack_header (take 30 p) = r" by (simp add: unpack_pack)
  with p 30 have "unat (rec_key_length r) + unat (rec_value_length r) \<le> length p - 30"
    by (auto simp: parse_record_def QIHSE_WAL_RECORD_HEADER_SIZE_def Let_def split: if_splits)
  with len 30 assms(3) show False by (cases q) auto
qed

subsection \<open>Replay of the directory\<close>

lemma mset_insert_index [simp]: "mset (insert_index k xs) = add_mset k (mset xs)"
  by (induction xs) auto

lemma sorted_insert_index: "sorted xs \<Longrightarrow> sorted (insert_index k xs)"
proof (induction xs)
  case (Cons x xs)
  have "set (insert_index k xs) = Set.insert k (set xs)"
    using mset_insert_index [of k xs] by (metis set_mset_add_mset_insert set_mset_mset)
  with Cons show ?case by auto
qed simp

lemma sort_indices_sort: "sort_indices xs = sort xs"
proof -
  have "mset (foldl (\<lambda>acc k. insert_index k acc) ys xs) = mset ys + mset xs" for ys
    by (induction xs arbitrary: ys) simp_all
  moreover have "sorted ys \<Longrightarrow> sorted (foldl (\<lambda>acc k. insert_index k acc) ys xs)" for ys
    by (induction xs arbitrary: ys) (simp_all add: sorted_insert_index)
  ultimately show ?thesis
    unfolding sort_indices_def by (intro properties_for_sort [symmetric]) simp_all
qed

lemma deliver_append:
  "deliver start cb (xs @ ys) s =
     (case deliver start cb xs s of (cont, s') \<Rightarrow> if cont then deliver start cb ys s' else (False, s'))"
  by (induction start cb xs s rule: deliver.induct) (auto split: prod.splits)

lemma last_lsn_append: "last_lsn l (xs @ ys) = last_lsn (last_lsn l xs) ys"
  by (induction xs arbitrary: l) simp_all

lemma sorted_lsn_append:
  "sorted_wrt (<) (l # map entry_lsn (xs @ ys)) \<Longrightarrow>
     sorted_wrt (<) (l # map entry_lsn xs) \<and> sorted_wrt (<) (last_lsn l xs # map entry_lsn ys)"
proof (induction xs arbitrary: l)
  case (Cons x xs)
  then have "sorted_wrt (<) (entry_lsn x # map entry_lsn (xs @ ys))" by simp
  from Cons.IH [OF this] Cons.prems show ?case by auto
qed simp

definition io_reads :: "wal_io \<Rightarrow> bool" where
  "io_reads io \<longleftrightarrow> io_sync io \<and> io_opendir io \<and> io_alloc io \<and> (\<forall>i. io_open_seg io i) \<and> (\<forall>i p. io_read io i p)"

lemma replay_segments_log:
  assumes "\<forall>i \<in> set is. files fs i = Some (log_bytes (G i)) \<and> (\<forall>e \<in> set (G i). entry_ok e)"
    and "sorted_wrt (<) (l # map entry_lsn (concat (map G is)))" "io_reads io"
    and "deliver start cb (concat (map G is)) (n, u) = (cont, n', u')"
  shows "(cont \<longrightarrow> replay_segments io start cb final (is @ js) w fs (l, n, u) =
            replay_segments io start cb final js w fs (last_lsn l (concat (map G is)), n', u')) \<and>
         (\<not> cont \<longrightarrow> replay_segments io start cb final (is @ js) w fs (l, n, u) = (n', w, fs, u'))"
  using assms(1,2,4)
proof (induction "is" arbitrary: l n u)
  case Nil
  then show ?case by simp
next
  case (Cons i "is")
  have f: "files fs i = Some (log_bytes (G i))" "\<forall>e \<in> set (G i). entry_ok e" using Cons.prems(1) by simp_all
  note srt = sorted_lsn_append [of l "G i" "concat (map G is)"]
  have s: "sorted_wrt (<) (l # map entry_lsn (G i))"
      "sorted_wrt (<) (last_lsn l (G i) # map entry_lsn (concat (map G is)))"
    using srt Cons.prems(2) by simp_all
  have rd: "io_open_seg io i" "\<And>q. io_read io i q" using assms(3) by (simp_all add: io_reads_def)
  obtain c1 n1 u1 where d1: "deliver start cb (G i) (n, u) = (c1, n1, u1)" by (metis prod_cases3)
  note seg = replay_segment_log [where rd = "io_read io i" and pos = 0 and tail = "[]", OF f(2) s(1) rd(2) d1]
  show ?case
  proof (cases c1)
    case True
    with Cons.prems(3) d1 have d2: "deliver start cb (concat (map G is)) (n1, u1) = (cont, n', u')"
      by (simp add: deliver_append)
    have "\<forall>i \<in> set is. files fs i = Some (log_bytes (G i)) \<and> (\<forall>e \<in> set (G i). entry_ok e)"
      using Cons.prems(1) by simp
    from Cons.IH [OF this s(2) d2] show ?thesis
      using True f(1) rd(1) seg by (simp add: file_bytes_def last_lsn_append)
  next
    case False
    with Cons.prems(3) d1 have "\<not> cont" "n' = n1" "u' = u1" by (simp_all add: deliver_append)
    with False f(1) rd(1) seg show ?thesis by (auto simp: file_bytes_def)
  qed
qed

subsection \<open>The state of a log\<close>

text \<open>
  \<open>log_inv w fs cur G tail\<close>: the directory holds exactly canonical segment files; the file of
  segment \<open>i\<close> is the encoding of the records \<open>G i\<close>, followed, in the current segment only, by
  the bytes \<open>tail\<close> of an unfinished record, which exist only behind the writer fence; the
  LSNs increase along the log and stay below the next LSN.
\<close>

definition segments :: "wal_fs \<Rightarrow> u64 list" where
  "segments fs = sort (map fst (entries fs))"

definition log_of :: "wal_fs \<Rightarrow> (u64 \<Rightarrow> wal_entry list) \<Rightarrow> wal_entry list" where
  "log_of fs G = concat (map G (segments fs))"

definition dir_inv :: "wal_fs \<Rightarrow> u64 \<Rightarrow> (u64 \<Rightarrow> wal_entry list) \<Rightarrow> bytes \<Rightarrow> bool" where
  "dir_inv fs cur G tail \<longleftrightarrow>
     distinct (entries fs) \<and> (\<forall>e \<in> set (entries fs). snd e) \<and>
     (\<forall>i. files fs i \<noteq> None \<longleftrightarrow> (i, True) \<in> set (entries fs)) \<and>
     files fs cur \<noteq> None \<and> (\<forall>i. files fs i \<noteq> None \<longrightarrow> i \<le> cur) \<and>
     (\<forall>i bs. files fs i = Some bs \<longrightarrow>
        bs = log_bytes (G i) @ (if i = cur then tail else []) \<and> (\<forall>e \<in> set (G i). entry_ok e)) \<and>
     sorted_wrt (<) (0 # map entry_lsn (log_of fs G))"

definition tail_prefix :: "bytes \<Rightarrow> bool" where
  "tail_prefix tail \<longleftrightarrow> tail = [] \<or> (\<exists>e q. entry_ok e \<and> encode_entry e = tail @ q \<and> q \<noteq> [])"

definition log_inv :: "wal \<Rightarrow> wal_fs \<Rightarrow> u64 \<Rightarrow> (u64 \<Rightarrow> wal_entry list) \<Rightarrow> bytes \<Rightarrow> bool" where
  "log_inv w fs cur G tail \<longleftrightarrow>
     dir_inv fs cur G tail \<and> (seg_fd w \<longrightarrow> seg_index w = cur) \<and> \<not> recovering w \<and>
     (tail = [] \<or> writer_failed w) \<and> tail_prefix tail \<and>
     (\<forall>e \<in> set (log_of fs G). entry_lsn e < next_lsn w) \<and> next_lsn w \<noteq> 0"

lemma tail_prefix_Nil [simp]: "tail_prefix []"
  by (simp add: tail_prefix_def)

lemma dir_invD:
  assumes "dir_inv fs cur G tail"
  shows "distinct (entries fs)" "\<And>e. e \<in> set (entries fs) \<Longrightarrow> snd e"
    "\<And>i. files fs i \<noteq> None \<longleftrightarrow> (i, True) \<in> set (entries fs)" "files fs cur \<noteq> None"
    "\<And>i. files fs i \<noteq> None \<Longrightarrow> i \<le> cur"
    "\<And>i bs. files fs i = Some bs \<Longrightarrow> bs = log_bytes (G i) @ (if i = cur then tail else [])"
    "\<And>i bs e. files fs i = Some bs \<Longrightarrow> e \<in> set (G i) \<Longrightarrow> entry_ok e"
    "sorted_wrt (<) (0 # map entry_lsn (log_of fs G))"
  using assms unfolding dir_inv_def by blast+

lemma set_segments: "set (segments fs) = fst ` set (entries fs)"
  by (simp add: segments_def)

lemma segments_files:
  "dir_inv fs cur G tail \<Longrightarrow> i \<in> set (segments fs) \<longleftrightarrow> files fs i \<noteq> None"
proof -
  assume dir: "dir_inv fs cur G tail"
  have c: "\<forall>e \<in> set (entries fs). snd e" and f: "files fs i \<noteq> None \<longleftrightarrow> (i, True) \<in> set (entries fs)"
    using dir by (simp_all add: dir_inv_def)
  from c have "i \<in> fst ` set (entries fs) \<longleftrightarrow> (i, True) \<in> set (entries fs)" by (force simp: image_iff)
  with f show ?thesis by (simp add: set_segments)
qed

lemma sorted_le_last: "sorted xs \<Longrightarrow> x \<in> set xs \<Longrightarrow> x \<le> last xs"
  by (cases xs rule: rev_cases) (auto simp: sorted_append)

lemma segments_snoc:
  assumes "dir_inv fs cur G tail"
  shows "\<exists>is. segments fs = is @ [cur] \<and> cur \<notin> set is \<and> sorted_wrt (<) (segments fs)"
proof -
  have "\<forall>e \<in> set (entries fs). snd e" using assms by (simp add: dir_inv_def)
  then have "inj_on fst (set (entries fs))" by (intro inj_onI) (auto simp: prod_eq_iff)
  then have d: "distinct (segments fs)"
    using dir_invD(1) [OF assms] by (simp add: segments_def distinct_map)
  have srt: "sorted (segments fs)" by (simp add: segments_def)
  have cur: "cur \<in> set (segments fs)" using segments_files [OF assms] dir_invD(4) [OF assms] by blast
  then have ne: "segments fs \<noteq> []" by auto
  have "last (segments fs) \<le> cur"
    using segments_files [OF assms, of "last (segments fs)"] dir_invD(5) [OF assms] last_in_set [OF ne]
    by blast
  moreover have "cur \<le> last (segments fs)"
    using sorted_le_last [OF srt cur] .
  ultimately have l: "last (segments fs) = cur" by simp
  from ne have "segments fs = butlast (segments fs) @ [cur]" using l by (metis append_butlast_last_id)
  moreover from this d have "cur \<notin> set (butlast (segments fs))" by (metis distinct_append not_distinct_conv_prefix)
  moreover have "sorted_wrt (<) (segments fs)" using srt d by (simp add: strict_sorted_iff)
  ultimately show ?thesis by blast
qed

lemma replay_log:
  assumes "log_inv w fs cur G tail" "\<not> writer_failed w" "seg_fd w" "io_reads io"
    and "deliver start cb (log_of fs G) (0, u) = (cont, n, u')"
  shows "qihse_wal_replay io w fs start cb u = (n, w, fs, u')"
proof -
  have dir: "dir_inv fs cur G tail" and t: "tail = []"
    using assms(1,2) by (auto simp: log_inv_def)
  have "\<forall>i \<in> set (segments fs). files fs i = Some (log_bytes (G i)) \<and> (\<forall>e \<in> set (G i). entry_ok e)"
  proof
    fix i assume "i \<in> set (segments fs)"
    then obtain bs where "files fs i = Some bs" using segments_files [OF dir] by auto
    moreover from this dir have "bs = log_bytes (G i) @ (if i = cur then tail else [])"
        "\<forall>e \<in> set (G i). entry_ok e"
      by (simp_all add: dir_inv_def)
    ultimately show "files fs i = Some (log_bytes (G i)) \<and> (\<forall>e \<in> set (G i). entry_ok e)"
      using t by simp
  qed
  moreover have "sorted_wrt (<) (0 # map entry_lsn (concat (map G (segments fs))))"
    using dir unfolding dir_inv_def log_of_def by blast
  moreover have "deliver start cb (concat (map G (segments fs))) (0, u) = (cont, n, u')"
    using assms(5) by (simp add: log_of_def)
  ultimately have "replay_segments io start cb f (segments fs @ []) w fs (0, 0, u) = (n, w, fs, u')" for f
    using replay_segments_log [of "segments fs" fs G 0 io start cb 0 u cont n u' f "[]" w] assms(4)
    by (cases cont) simp_all
  then show ?thesis
    using assms(2-4) by (simp add: qihse_wal_replay_def io_reads_def sort_indices_sort segments_def Let_def)
qed


subsection \<open>Rotation\<close>

lemma segments_add:
  assumes "dir_inv fs cur G tail" "cur < i"
  shows "segments (fs\<lparr>entries := entries fs @ [(i, True)], files := F\<rparr>) = segments fs @ [i]"
proof -
  have "\<forall>j \<in> set (segments fs). j \<le> i"
    using segments_files [OF assms(1)] dir_invD(5) [OF assms(1)] assms(2) by (meson le_less_trans less_imp_le)
  then have "sorted (segments fs @ [i])" by (simp add: segments_def sorted_append)
  then show ?thesis
    by (simp add: segments_def) (rule properties_for_sort, simp_all)
qed

lemma dir_inv_add:
  assumes "dir_inv fs cur G []" "cur < i"
  shows "dir_inv (fs\<lparr>entries := entries fs @ [(i, True)], files := (files fs)(i \<mapsto> [])\<rparr>) i (G(i := [])) []"
    and "log_of (fs\<lparr>entries := entries fs @ [(i, True)], files := (files fs)(i \<mapsto> [])\<rparr>) (G(i := [])) = log_of fs G"
proof -
  let ?fs = "fs\<lparr>entries := entries fs @ [(i, True)], files := (files fs)(i \<mapsto> [])\<rparr>"
  note D = dir_invD [OF assms(1)]
  have none: "files fs i = None" using D(5) [of i] assms(2) by (cases "files fs i") auto
  then have ni: "i \<notin> set (segments fs)" using segments_files [OF assms(1)] by simp
  have c: "concat (map (G(i := [])) (segments fs)) = concat (map G (segments fs))"
    using ni by (intro arg_cong [where f = concat] map_cong) auto
  show log: "log_of ?fs (G(i := [])) = log_of fs G"
    unfolding log_of_def segments_add [OF assms] map_append concat_append c by simp
  have "(i, True) \<notin> set (entries fs)" using D(3) [of i] none by simp
  then have "distinct (entries ?fs)" using D(1) by simp
  moreover have "\<forall>j. files ?fs j \<noteq> None \<longleftrightarrow> (j, True) \<in> set (entries ?fs)" using D(3) by auto
  moreover have "\<forall>j. files ?fs j \<noteq> None \<longrightarrow> j \<le> i"
  proof (intro allI impI)
    fix j assume "files ?fs j \<noteq> None"
    with D(5) [of j] assms(2) show "j \<le> i" by (cases "j = i") auto
  qed
  moreover have "\<forall>j bs. files ?fs j = Some bs \<longrightarrow>
      bs = log_bytes ((G(i := [])) j) @ (if j = i then [] else []) \<and> (\<forall>e \<in> set ((G(i := [])) j). entry_ok e)"
  proof (intro allI impI)
    fix j bs assume j: "files ?fs j = Some bs"
    show "bs = log_bytes ((G(i := [])) j) @ (if j = i then [] else []) \<and> (\<forall>e \<in> set ((G(i := [])) j). entry_ok e)"
      using j D(6) [of j bs] D(7) [of j bs] by (cases "j = i") auto
  qed
  moreover have "\<forall>e \<in> set (entries ?fs). snd e" using D(2) by auto
  ultimately show "dir_inv ?fs i (G(i := [])) []"
    unfolding dir_inv_def log using D(8) by simp
qed

lemma file_bytes_some: "files fs i = Some bs \<Longrightarrow> file_bytes fs i = bs"
  by (simp add: file_bytes_def)

lemma log_inv_cong:
  assumes "log_inv w fs cur G t" "seg_fd w' \<longrightarrow> seg_index w' = cur" "recovering w' = recovering w"
    "writer_failed w' = writer_failed w" "next_lsn w' = next_lsn w"
  shows "log_inv w' fs cur G t"
  using assms by (simp add: log_inv_def)

lemma rotate_log:
  assumes "log_inv w fs cur G []" "seg_fd w" "\<not> writer_failed w" "seg_index w \<noteq> UINT64_MAX"
    and "seg_rotate io w fs = (rc, w1, fs1)"
  shows "\<exists>cur' G'. log_inv w1 fs1 cur' G' [] \<and> log_of fs1 G' = log_of fs G \<and> \<not> writer_failed w1 \<and>
           next_lsn w1 = next_lsn w \<and> durability w1 = durability w \<and> (rc = 0 \<longrightarrow> seg_fd w1) \<and>
           (rc = 0 \<or> rc = -1)"
proof -
  have dir: "dir_inv fs (seg_index w) G []" and cur: "cur = seg_index w"
    using assms(1,2) by (simp_all add: log_inv_def)
  let ?i = "seg_index w + 1"
  let ?fs = "fs\<lparr>entries := entries fs @ [(?i, True)], files := (files fs)(?i \<mapsto> [])\<rparr>"
  have gt: "seg_index w < ?i" by (rule u64_succ_greater [OF assms(4)])
  note add = dir_inv_add [OF dir gt]
  have none: "files fs ?i = None"
    using dir_invD(5) [OF dir, of ?i] gt by (cases "files fs ?i") auto
  note field = seg_rotate_def seg_open_def Let_def
  show ?thesis
  proof (cases "durability w \<noteq> DURABILITY_NONE \<and> \<not> io_rotate_sync io \<or> \<not> io_close io \<or> \<not> io_open io")
    case True
    then have "fs1 = fs" "rc = -1" "seg_fd w1 \<longrightarrow> seg_index w1 = cur" "recovering w1 = recovering w"
        "writer_failed w1 = writer_failed w" "next_lsn w1 = next_lsn w" "durability w1 = durability w"
      using assms(2,5) cur by (auto simp: field split: if_splits)
    with log_inv_cong [OF assms(1), of w1] assms(3) show ?thesis by auto
  next
    case False
    then have w1: "fs1 = ?fs" "rc = 0 \<and> seg_fd w1 \<or> rc = -1 \<and> \<not> seg_fd w1" "seg_index w1 = ?i"
        "recovering w1 = recovering w" "writer_failed w1 = writer_failed w" "next_lsn w1 = next_lsn w"
        "durability w1 = durability w"
      using assms(2,5) none by (auto simp: field split: if_splits)
    have "log_inv w1 ?fs ?i (G(?i := [])) []"
      using assms(1) add w1 by (auto simp: log_inv_def)
    with w1 add(2) assms(3) show ?thesis by (intro exI [of _ ?i] exI [of _ "G(?i := [])"]) auto
  qed
qed

subsection \<open>Writing a record\<close>

lemma log_of_files [simp]: "log_of (fs\<lparr>files := F\<rparr>) G = log_of fs G" "segments (fs\<lparr>files := F\<rparr>) = segments fs"
  by (simp_all add: log_of_def segments_def)

lemma log_replace:
  assumes "dir_inv fs cur G tail"
  shows "log_of fs (G(cur := es)) = concat (map G (butlast (segments fs))) @ es"
    and "log_of fs G = concat (map G (butlast (segments fs))) @ G cur"
proof -
  obtain "is" where "is": "segments fs = is @ [cur]" "cur \<notin> set is" using segments_snoc [OF assms] by blast
  then have "concat (map (G(cur := es)) is) = concat (map G is)"
    by (intro arg_cong [where f = concat] map_cong) auto
  with "is" show "log_of fs (G(cur := es)) = concat (map G (butlast (segments fs))) @ es"
    "log_of fs G = concat (map G (butlast (segments fs))) @ G cur" by (simp_all add: log_of_def)
qed

lemma dir_inv_replace:
  assumes "dir_inv fs cur G tail" "\<forall>e \<in> set es. entry_ok e"
    and "sorted_wrt (<) (0 # map entry_lsn (log_of fs (G(cur := es))))"
  shows "dir_inv (fs\<lparr>files := (files fs)(cur \<mapsto> log_bytes es @ tail')\<rparr>) cur (G(cur := es)) tail'"
proof -
  note D = dir_invD [OF assms(1)]
  let ?fs = "fs\<lparr>files := (files fs)(cur \<mapsto> log_bytes es @ tail')\<rparr>"
  let ?G = "G(cur := es)"
  have f: "c = log_bytes (?G i) @ (if i = cur then tail' else []) \<and> (\<forall>e \<in> set (?G i). entry_ok e)"
    if "files ?fs i = Some c" for i c
    using that D(6,7) [of i] assms(2) by (cases "i = cur") auto
  have n: "files ?fs i \<noteq> None \<longleftrightarrow> files fs i \<noteq> None" for i using D(4) by (cases "i = cur") simp_all
  have e: "entries ?fs = entries fs" by simp
  show ?thesis
    unfolding dir_inv_def n e log_of_files(1) using D(1-5) assms(3) f by blast
qed

lemma dir_file:
  assumes "dir_inv fs cur G tail"
  shows "file_bytes fs cur = log_bytes (G cur) @ tail" "\<forall>e \<in> set (G cur). entry_ok e"
proof -
  obtain b where b: "files fs cur = Some b" using dir_invD(4) [OF assms] by auto
  with dir_invD(6,7) [OF assms b] show "file_bytes fs cur = log_bytes (G cur) @ tail" "\<forall>e \<in> set (G cur). entry_ok e"
    by (simp_all add: file_bytes_def)
qed

lemma dir_inv_tail:
  assumes "dir_inv fs cur G []"
  shows "dir_inv (fs\<lparr>files := (files fs)(cur \<mapsto> file_bytes fs cur @ bs)\<rparr>) cur G bs"
  using dir_inv_replace [OF assms dir_file(2) [OF assms], of bs] dir_invD(8) [OF assms]
  by (simp add: dir_file(1) [OF assms])

lemma dir_inv_record:
  assumes "dir_inv fs cur G []" "entry_ok e" "\<forall>e' \<in> set (log_of fs G). entry_lsn e' < entry_lsn e"
  shows "dir_inv (fs\<lparr>files := (files fs)(cur \<mapsto> file_bytes fs cur @ encode_entry e)\<rparr>) cur (G(cur := G cur @ [e])) []"
    and "log_of (fs\<lparr>files := (files fs)(cur \<mapsto> file_bytes fs cur @ encode_entry e)\<rparr>) (G(cur := G cur @ [e])) = log_of fs G @ [e]"
proof -
  have log: "log_of fs (G(cur := G cur @ [e])) = log_of fs G @ [e]"
    by (simp add: log_replace [OF assms(1)])
  then show "log_of (fs\<lparr>files := (files fs)(cur \<mapsto> file_bytes fs cur @ encode_entry e)\<rparr>) (G(cur := G cur @ [e])) = log_of fs G @ [e]"
    by simp
  have "entry_lsn e \<noteq> 0" using assms(2) by (auto simp: entry_ok_def split: prod.splits)
  then have "sorted_wrt (<) (0 # map entry_lsn (log_of fs (G(cur := G cur @ [e]))))"
    using dir_invD(8) [OF assms(1)] assms(3) unfolding log by (auto simp: sorted_wrt_append word_neq_0_conv)
  from dir_inv_replace [OF assms(1) _ this, of "[]"] dir_file [OF assms(1)] assms(2)
  show "dir_inv (fs\<lparr>files := (files fs)(cur \<mapsto> file_bytes fs cur @ encode_entry e)\<rparr>) cur (G(cur := G cur @ [e])) []"
    by simp
qed

definition args_ok :: "bytes option \<Rightarrow> u32 \<Rightarrow> bool" where
  "args_ok p n \<longleftrightarrow> n = 0 \<or> (\<exists>bs. p = Some bs \<and> unat n \<le> length bs)"

definition appended ::
    "u64 \<Rightarrow> u64 \<Rightarrow> u8 \<Rightarrow> u32 \<Rightarrow> bytes option \<Rightarrow> u32 \<Rightarrow> bytes option \<Rightarrow> u32 \<Rightarrow> wal_entry" where
  "appended lsn t eng op key klen value vlen =
     (make_record lsn t eng op key klen value vlen, arg_bytes key klen, arg_bytes value vlen)"

definition target_ok :: "u32 \<Rightarrow> bytes option \<Rightarrow> u32 \<Rightarrow> u64 \<Rightarrow> bool" where
  "target_ok op key klen lsn \<longleftrightarrow> op \<noteq> QIHSE_WAL_OP_CHECKPOINT \<or>
     (0 < (le_word (take 8 (opt_bytes (arg_bytes key klen))) :: u64) \<and>
      le_word (take 8 (opt_bytes (arg_bytes key klen))) \<le> lsn)"

lemma args_payload: "args_ok p n \<Longrightarrow> payload_ok n (arg_bytes p n)"
  by (cases "n = 0") (auto simp: args_ok_def payload_ok_def arg_bytes_def word_neq_0_conv)

lemma shape_op: "record_shape_valid t eng op klen vlen \<Longrightarrow> ucast (ucast op :: u8) = op"
  by (auto simp: record_shape_valid_def wal_ops split: if_splits)

lemma record_crc_checksum [simp]: "record_crc (r\<lparr>rec_checksum := c\<rparr>) k v = record_crc r k v"
  by (simp add: record_crc_def)

lemma make_record_fields [simp]:
  "rec_lsn (make_record lsn t eng op key klen value vlen) = lsn"
  "rec_txn_id (make_record lsn t eng op key klen value vlen) = t"
  "rec_engine_id (make_record lsn t eng op key klen value vlen) = eng"
  "rec_op_type (make_record lsn t eng op key klen value vlen) = ucast op"
  "rec_key_length (make_record lsn t eng op key klen value vlen) = klen"
  "rec_value_length (make_record lsn t eng op key klen value vlen) = vlen"
  by (simp_all add: make_record_def Let_def)

lemma appended_ok:
  assumes "lsn \<noteq> 0" "record_shape_valid t eng op klen vlen" "args_ok key klen" "args_ok value vlen"
    "target_ok op key klen lsn"
  shows "entry_ok (appended lsn t eng op key klen value vlen)"
proof -
  have "record_crc (make_record lsn t eng op key klen value vlen) (arg_bytes key klen) (arg_bytes value vlen) =
      rec_checksum (make_record lsn t eng op key klen value vlen)"
    by (simp add: make_record_def Let_def record_crc_def)
  moreover have "\<not> checkpoint_bad (make_record lsn t eng op key klen value vlen) (opt_bytes (arg_bytes key klen))"
    using assms(2,5) shape_op [OF assms(2)]
    by (auto simp: checkpoint_bad_def target_ok_def record_shape_valid_def wal_ops split: if_splits)
  ultimately show ?thesis
    using assms args_payload shape_op [OF assms(2)] by (simp add: entry_ok_def appended_def)
qed

definition wal_abs :: "wal \<Rightarrow> wal_fs \<Rightarrow> wal_entry list \<Rightarrow> bool" where
  "wal_abs w fs log \<longleftrightarrow> (\<exists>cur G tail. log_inv w fs cur G tail \<and> log_of fs G = log)"

lemma write_record_log:
  assumes inv: "log_inv w fs cur G []" and "seg_fd w" "\<not> writer_failed w" "next_lsn w \<noteq> UINT64_MAX"
    and ok: "entry_ok (appended (next_lsn w) t eng op key klen value vlen)"
    and res: "write_record io w fs t eng op key klen value vlen = (lsn, w', fs')"
  shows "wal_abs w' fs' (log_of fs G) \<and> lsn = 0 \<and> (writer_failed w' \<longrightarrow> \<not> seg_fd w') \<or>
     wal_abs w' fs' (log_of fs G @ [appended (next_lsn w) t eng op key klen value vlen]) \<and>
       \<not> writer_failed w' \<and> seg_fd w' \<and>
       (lsn = next_lsn w \<or> lsn = 0 \<and> durability w = DURABILITY_FDATASYNC \<and> \<not> io_sync io)"
proof -
  let ?e = "appended (next_lsn w) t eng op key klen value vlen"
  let ?buf = "encode_entry ?e"
  let ?n = "case io_write io of None \<Rightarrow> 0 | Some k \<Rightarrow> min k (length ?buf)"
  let ?fs = "\<lambda>bs. fs\<lparr>files := (files fs)(cur \<mapsto> file_bytes fs cur @ bs)\<rparr>"
  have cur: "seg_index w = cur" using inv assms(2) by (simp add: log_inv_def)
  have dir: "dir_inv fs cur G []" and below: "\<forall>e \<in> set (log_of fs G). entry_lsn e < next_lsn w"
    and nz: "next_lsn w \<noteq> 0" and nr: "\<not> recovering w"
    using inv by (simp_all add: log_inv_def)
  have gt: "next_lsn w < next_lsn w + 1" by (rule u64_succ_greater [OF assms(4)])
  have nz': "next_lsn w + 1 \<noteq> 0" using gt by (metis not_less_zero word_not_simps(1) word_gt_0_no)
  have buf: "pack_header (make_record (next_lsn w) t eng op key klen value vlen) @
                opt_bytes (arg_bytes key klen) @ opt_bytes (arg_bytes value vlen) = ?buf"
    by (simp add: encode_entry_def appended_def)
  note res' = res [unfolded write_record_def Let_def buf]
  show ?thesis
  proof (cases "?n = length ?buf")
    case False
    then have w': "fs' = ?fs (take ?n ?buf)" "lsn = 0" "next_lsn w' = next_lsn w + 1" "\<not> recovering w'"
        "seg_index w' = cur" "writer_failed w' \<longrightarrow> \<not> seg_fd w'" "?n > 0 \<longrightarrow> writer_failed w'"
      using res' cur nr assms(3) by (auto simp: write_seg_def split: if_splits)
    have "drop ?n ?buf \<noteq> []" using False by (auto split: option.splits)
    then have "tail_prefix (take ?n ?buf)"
      unfolding tail_prefix_def using ok append_take_drop_id [of ?n ?buf] by metis
    then have "log_inv w' fs' cur G (take ?n ?buf)"
      using w' dir_inv_tail [OF dir, of "take ?n ?buf"] below gt nz'
      by (auto simp: log_inv_def intro: less_trans)
    moreover have "log_of fs' G = log_of fs G" using w'(1) by simp
    ultimately have "wal_abs w' fs' (log_of fs G)" unfolding wal_abs_def by blast
    with w'(2,6) show ?thesis by blast
  next
    case True
    then have w': "fs' = ?fs ?buf" "lsn = next_lsn w \<or> lsn = 0 \<and> durability w = DURABILITY_FDATASYNC \<and> \<not> io_sync io"
        "next_lsn w' = next_lsn w + 1" "\<not> recovering w'" "seg_index w' = cur" "\<not> writer_failed w'" "seg_fd w'"
      using res' cur nr assms(2,3) by (auto simp: write_seg_def split: if_splits)
    have "\<forall>e' \<in> set (log_of fs G). entry_lsn e' < entry_lsn ?e" using below by (simp add: appended_def)
    note rec = dir_inv_record [OF dir ok this]
    have "log_inv w' fs' cur (G(cur := G cur @ [?e])) []"
      using w' rec below gt nz' by (auto simp: log_inv_def appended_def intro: less_trans)
    moreover have "log_of fs' (G(cur := G cur @ [?e])) = log_of fs G @ [?e]" unfolding w'(1) by (rule rec(2))
    ultimately have "wal_abs w' fs' (log_of fs G @ [?e])" unfolding wal_abs_def by blast
    with w'(2,6,7) show ?thesis by blast
  qed
qed

lemma append_raw_log:
  assumes abs: "wal_abs w fs log" and "args_ok key klen" "args_ok value vlen"
    and "target_ok op key klen (next_lsn w)" "seg_index w \<noteq> UINT64_MAX"
    and res: "wal_append_raw io w fs t eng op key klen value vlen = (lsn, w', fs')"
  shows "wal_abs w' fs' log \<and> lsn = 0 \<or>
     wal_abs w' fs' (log @ [appended (next_lsn w) t eng op key klen value vlen]) \<and>
       \<not> writer_failed w' \<and> seg_fd w' \<and>
       (lsn = next_lsn w \<or> lsn = 0 \<and> durability w = DURABILITY_FDATASYNC \<and> \<not> io_sync io)"
proof (cases "writer_failed w \<or> \<not> seg_fd w \<or> \<not> record_shape_valid t eng op klen vlen \<or>
         (klen \<noteq> 0 \<and> key = None) \<or> (vlen \<noteq> 0 \<and> value = None) \<or> next_lsn w = UINT64_MAX")
  case True
  then have "(lsn, w', fs') = (0, w, fs)" using res unfolding wal_append_raw_def if_P [OF True] by simp
  with abs show ?thesis by simp
next
  case False
  from abs obtain cur G tail where inv0: "log_inv w fs cur G tail" and log: "log_of fs G = log"
    unfolding wal_abs_def by blast
  then have "tail = []" and nz: "next_lsn w \<noteq> 0" using False by (auto simp: log_inv_def)
  with inv0 have inv: "log_inv w fs cur G []" by simp
  have ok: "entry_ok (appended (next_lsn w) t eng op key klen value vlen)"
    using appended_ok [OF nz _ assms(2,3,4)] False by blast
  show ?thesis
  proof (cases "seg_offset w + (QIHSE_WAL_RECORD_HEADER_SIZE + unat klen + unat vlen) > segment_size w \<and> seg_offset w > 0")
    case no: False
    have "write_record io w fs t eng op key klen value vlen = (lsn, w', fs')"
      using res unfolding wal_append_raw_def Let_def if_not_P [OF False] if_not_P [OF no] .
    from write_record_log [OF inv _ _ _ ok this] False log show ?thesis by blast
  next
    case True
    obtain rc w1 fs1 where rot: "seg_rotate io w fs = (rc, w1, fs1)" by (metis prod_cases3)
    have fl: "seg_fd w" "\<not> writer_failed w" using False by simp_all
    from rotate_log [OF inv fl assms(5) rot] obtain cur' G' where
      r: "log_inv w1 fs1 cur' G' []" "log_of fs1 G' = log_of fs G" "\<not> writer_failed w1"
        "next_lsn w1 = next_lsn w" "durability w1 = durability w" "rc = 0 \<longrightarrow> seg_fd w1" by blast
    show ?thesis
    proof (cases "rc = 0")
      case no: False
      then have "(lsn, w', fs') = (0, w1, fs1)"
        using res no unfolding wal_append_raw_def Let_def if_not_P [OF False] if_P [OF True] rot by simp
      moreover have "wal_abs w1 fs1 log" using r(1,2) log unfolding wal_abs_def by blast
      ultimately show ?thesis by simp
    next
      case rc: True
      then have wr: "write_record io w1 fs1 t eng op key klen value vlen = (lsn, w', fs')"
        using res rc unfolding wal_append_raw_def Let_def if_not_P [OF False] if_P [OF True] rot by simp
      have ok1: "entry_ok (appended (next_lsn w1) t eng op key klen value vlen)" using ok r(4) by simp
      from write_record_log [OF r(1) _ r(3) _ ok1 wr] False rc r(2,4,5,6) log show ?thesis by auto
    qed
  qed
qed

definition io_writes :: "wal_io \<Rightarrow> bool" where
  "io_writes io \<longleftrightarrow> io_sync io \<and> io_rotate_sync io \<and> io_close io \<and> io_open io \<and> io_dirsync io \<and>
     (\<exists>k. io_write io = Some k \<and> 2 ^ 32 \<le> k)"

definition writable :: "wal \<Rightarrow> bool" where
  "writable w \<longleftrightarrow> seg_fd w \<and> \<not> writer_failed w \<and> next_lsn w \<noteq> UINT64_MAX"

lemma write_record_succeeds:
  assumes "io_writes io" "record_shape_valid t eng op klen vlen" "args_ok key klen" "args_ok value vlen"
  shows "fst (write_record io w fs t eng op key klen value vlen) = next_lsn w"
proof -
  let ?buf = "pack_header (make_record (next_lsn w) t eng op key klen value vlen) @
                opt_bytes (arg_bytes key klen) @ opt_bytes (arg_bytes value vlen)"
  have "klen \<le> QIHSE_WAL_MAX_KEY" "vlen \<le> QIHSE_WAL_MAX_VALUE"
    using assms(2) by (auto simp: record_shape_valid_def not_less split: if_splits)
  then have "unat klen \<le> 4096" "unat vlen \<le> 16777216"
    by (simp_all add: QIHSE_WAL_MAX_KEY_def QIHSE_WAL_MAX_VALUE_def word_le_nat_alt)
  then have "length ?buf \<le> 2 ^ 32"
    using length_opt_bytes [OF args_payload [OF assms(3)]] length_opt_bytes [OF args_payload [OF assms(4)]]
    by simp
  then have "(case io_write io of None \<Rightarrow> 0 | Some k \<Rightarrow> min k (length ?buf)) = length ?buf"
    using assms(1) by (auto simp: io_writes_def)
  with assms(1) show ?thesis
    unfolding write_record_def Let_def by (simp add: io_writes_def)
qed

lemma append_raw_succeeds:
  assumes "writable w" "io_writes io" "record_shape_valid t eng op klen vlen" "args_ok key klen" "args_ok value vlen"
  shows "fst (wal_append_raw io w fs t eng op key klen value vlen) = next_lsn w"
proof -
  have rot: "\<exists>w1 fs1. seg_rotate io w fs = (0, w1, fs1) \<and> next_lsn w1 = next_lsn w"
    using assms(2) by (auto simp: seg_rotate_def seg_open_def io_writes_def Let_def)
  have ok: "\<not> (writer_failed w \<or> \<not> seg_fd w \<or> \<not> record_shape_valid t eng op klen vlen \<or>
         (klen \<noteq> 0 \<and> key = None) \<or> (vlen \<noteq> 0 \<and> value = None) \<or> next_lsn w = UINT64_MAX)"
    using assms by (auto simp: writable_def args_ok_def)
  show ?thesis
    using rot write_record_succeeds [OF assms(2-5)]
    unfolding wal_append_raw_def Let_def if_not_P [OF ok] by auto
qed

subsection \<open>Opening a log\<close>

text \<open>The target of the last checkpoint marker in a list of records.\<close>

primrec checkpoint_of :: "u64 \<Rightarrow> wal_entry list \<Rightarrow> u64" where
  "checkpoint_of c [] = c"
| "checkpoint_of c (e # es) =
     checkpoint_of (if ucast (rec_op_type (fst e)) = QIHSE_WAL_OP_CHECKPOINT
                    then le_word (take 8 (opt_bytes (fst (snd e)))) else c) es"

lemma scan_ok:
  assumes "entry_ok (r, k, v)"
  shows "\<exists>s'. wal_scan_lsn s r k v = (True, s') \<and> scan_maximum s' = rec_lsn r \<and> scan_invalid s' = scan_invalid s \<and>
    scan_last_checkpoint s' = checkpoint_of (scan_last_checkpoint s) [(r, k, v)]"
  using assms by (auto simp: wal_scan_lsn_def entry_ok_def checkpoint_bad_def Let_def)

lemma deliver_scan:
  "\<forall>e \<in> set es. entry_ok e \<Longrightarrow>
     \<exists>s'. deliver 0 wal_scan_lsn es (n, s) = (True, n + int (length es), s') \<and>
       scan_maximum s' = last_lsn (scan_maximum s) es \<and> scan_invalid s' = scan_invalid s \<and>
       scan_last_checkpoint s' = checkpoint_of (scan_last_checkpoint s) es"
proof (induction es arbitrary: n s)
  case (Cons e es)
  obtain r k v where e: "e = (r, k, v)" by (cases e)
  then obtain s1 where s1: "wal_scan_lsn s r k v = (True, s1)" "scan_maximum s1 = rec_lsn r"
      "scan_invalid s1 = scan_invalid s" "scan_last_checkpoint s1 = checkpoint_of (scan_last_checkpoint s) [(r, k, v)]"
    using scan_ok [of r k v s] Cons.prems by auto
  from Cons.IH [of "n + 1" s1] Cons.prems s1 show ?case by (simp add: e add.assoc)
qed simp

lemma max_segment_upper:
  "(\<forall>e \<in> set es. snd e \<longrightarrow> fst e \<le> m) \<Longrightarrow> (m, True) \<in> set es \<or> acc = Some m \<Longrightarrow>
     (\<forall>x. acc = Some x \<longrightarrow> x \<le> m) \<Longrightarrow> max_segment es acc = Some m"
proof (induction es arbitrary: acc)
  case (Cons e es)
  show ?case
  proof (cases "e = (m, True)")
    case True
    then have "snd e \<and> (case acc of None \<Rightarrow> True | Some x \<Rightarrow> fst e > x) \<or> acc = Some m"
      using Cons.prems(3) by (cases acc) auto
    then show ?thesis using Cons True by auto
  next
    case False
    then show ?thesis using Cons by (auto split: option.splits)
  qed
qed auto

lemma max_segment_cur:
  assumes "dir_inv fs cur G tail"
  shows "max_segment (entries fs) None = Some cur"
proof (rule max_segment_upper)
  note D = dir_invD [OF assms]
  show "\<forall>e \<in> set (entries fs). snd e \<longrightarrow> fst e \<le> cur"
  proof (intro ballI impI)
    fix e assume "e \<in> set (entries fs)" "snd e"
    then have "(fst e, True) \<in> set (entries fs)" by (metis (full_types) prod.collapse)
    with D(3,5) show "fst e \<le> cur" by blast
  qed
  show "(cur, True) \<in> set (entries fs) \<or> None = Some cur" using D(3,4) by blast
qed simp

lemma log_entries_ok:
  assumes "dir_inv fs cur G tail" shows "\<forall>e \<in> set (log_of fs G). entry_ok e"
proof
  fix e assume "e \<in> set (log_of fs G)"
  then obtain i where i: "i \<in> set (segments fs)" "e \<in> set (G i)" by (auto simp: log_of_def)
  then obtain bs where "files fs i = Some bs" using segments_files [OF assms] by auto
  from dir_invD(7) [OF assms this i(2)] show "entry_ok e" .
qed

lemma recover_segments:
  assumes dir: "dir_inv fs cur G tail" and "tail_prefix tail" and "io_reads io" "io_trunc io" "io_trunc_sync io"
    and w: "recovering w" "seg_index w = cur"
    and d: "deliver 0 cb (log_of fs G) (0, u) = (True, n, u')"
  shows "replay_segments io 0 cb cur (segments fs) w fs (0, 0, u) =
    (if tail = [] then (n, w, fs, u')
     else if length tail < 30
     then (n, w\<lparr>seg_offset := length (log_bytes (G cur))\<rparr>,
           fs\<lparr>files := (files fs)(cur \<mapsto> log_bytes (G cur))\<rparr>, u')
     else (-1, w, fs, u'))"
proof -
  note D = dir_invD [OF dir]
  obtain "is" where "is": "segments fs = is @ [cur]" "cur \<notin> set is" using segments_snoc [OF dir] by blast
  have log: "log_of fs G = concat (map G is) @ G cur" by (simp add: log_of_def "is"(1))
  obtain n1 u1 where d1: "deliver 0 cb (concat (map G is)) (0, u) = (True, n1, u1)"
    and d2: "deliver 0 cb (G cur) (n1, u1) = (True, n, u')"
    using d by (auto simp: log deliver_append split: prod.splits if_splits)
  have pre: "\<forall>i \<in> set is. files fs i = Some (log_bytes (G i)) \<and> (\<forall>e \<in> set (G i). entry_ok e)"
  proof
    fix i assume i: "i \<in> set is"
    then obtain bs where bs: "files fs i = Some bs" using segments_files [OF dir, of i] "is" by auto
    from i "is"(2) have "i \<noteq> cur" by auto
    with D(6) [OF bs] D(7) [OF bs] bs show "files fs i = Some (log_bytes (G i)) \<and> (\<forall>e \<in> set (G i). entry_ok e)" by simp
  qed
  have srt: "sorted_wrt (<) (0 # map entry_lsn (concat (map G is)))"
      "sorted_wrt (<) (last_lsn 0 (concat (map G is)) # map entry_lsn (G cur))"
    using sorted_lsn_append [of 0 "concat (map G is)" "G cur"] D(8) unfolding log by blast+
  obtain b where b: "files fs cur = Some b" using D(4) by auto
  then have fb: "file_bytes fs cur = log_bytes (G cur) @ tail" using D(6) [OF b] by (simp add: file_bytes_def)
  have okc: "\<forall>e \<in> set (G cur). entry_ok e" using D(7) [OF b] by blast
  have rd: "io_open_seg io cur" "\<And>q. io_read io cur q" using assms(3) by (simp_all add: io_reads_def)
  have "replay_segments io 0 cb cur (is @ [cur]) w fs (0, 0, u) =
      replay_segments io 0 cb cur [cur] w fs (last_lsn 0 (concat (map G is)), n1, u1)"
    using replay_segments_log [OF pre srt(1) assms(3) d1, of cur "[cur]" w] by blast
  moreover have "replay_segment (io_read io cur) 0 cb 0 (file_bytes fs cur) (last_lsn 0 (concat (map G is)), n1, u1) =
      replay_segment (io_read io cur) 0 cb (length (log_bytes (G cur))) tail
        (last_lsn (last_lsn 0 (concat (map G is))) (G cur), n, u')"
    using replay_segment_log [where rd = "io_read io cur" and pos = 0 and tail = tail, OF okc srt(2) rd(2) d2]
    by (simp add: fb)
  moreover have "replay_segment rd 0 cb q tail st =
      (if tail = [] then (SegDone, st) else if length tail < 30 then (SegTorn q, st) else (SegFail, st))" for rd q st
  proof (cases "length tail < 30")
    case True
    then show ?thesis using replay_segment_torn [of tail rd 0 cb q st] by auto
  next
    case False
    then have "parse_record tail = None"
      using assms(2) parse_proper_prefix unfolding tail_prefix_def by auto
    from replay_segment_rejects [OF this, of rd 0 cb q st] False show ?thesis by auto
  qed
  ultimately show ?thesis
    using b rd(1) assms(4,5) w by (simp add: "is"(1) repair_torn_tail_def truncate_bytes_def fb Let_def)
qed


definition io_opens :: "wal_io \<Rightarrow> bool" where
  "io_opens io \<longleftrightarrow> io_alloc io \<and> io_mkdir io \<and> io_lock io \<and> io_opendir io \<and> io_open io \<and> io_dirsync io \<and> io_fstat io"

definition io_repairs :: "wal_io \<Rightarrow> bool" where
  "io_repairs io \<longleftrightarrow> io_reads io \<and> io_trunc io \<and> io_trunc_sync io"

lemma dir_inv_cut:
  assumes "dir_inv fs cur G tail"
  shows "dir_inv (fs\<lparr>files := (files fs)(cur \<mapsto> log_bytes (G cur))\<rparr>) cur G []"
  using dir_inv_replace [OF assms dir_file(2) [OF assms], of "[]"] dir_invD(8) [OF assms] by simp

lemma open_replay:
  assumes dir: "dir_inv fs cur G tail" and "tail_prefix tail" "io_repairs io"
    and w: "recovering w" "seg_index w = cur" "seg_fd w" "\<not> writer_failed w"
  shows "\<exists>s'. scan_maximum s' = last_lsn 0 (log_of fs G) \<and> \<not> scan_invalid s' \<and>
    scan_last_checkpoint s' = checkpoint_of 0 (log_of fs G) \<and>
    qihse_wal_replay io w fs 0 wal_scan_lsn scan_start =
    (if tail = [] then (int (length (log_of fs G)), w, fs, s')
     else if length tail < 30
     then (int (length (log_of fs G)), w\<lparr>seg_offset := length (log_bytes (G cur))\<rparr>,
           fs\<lparr>files := (files fs)(cur \<mapsto> log_bytes (G cur))\<rparr>, s')
     else (-1, w, fs, s'))"
proof -
  obtain s' where s': "deliver 0 wal_scan_lsn (log_of fs G) (0, scan_start) = (True, int (length (log_of fs G)), s')"
      "scan_maximum s' = last_lsn 0 (log_of fs G)" "\<not> scan_invalid s'" "scan_last_checkpoint s' = checkpoint_of 0 (log_of fs G)"
    using deliver_scan [OF log_entries_ok [OF dir], of 0 scan_start] by (auto simp: scan_start_def)
  have r: "io_reads io" "io_trunc io" "io_trunc_sync io" using assms(3) by (simp_all add: io_repairs_def)
  obtain "is" where "is": "segments fs = is @ [cur]" using segments_snoc [OF dir] by blast
  have "qihse_wal_replay io w fs 0 wal_scan_lsn scan_start =
      replay_segments io 0 wal_scan_lsn cur (segments fs) w fs (0, 0, scan_start)"
    using w r(1) "is" by (simp add: qihse_wal_replay_def io_reads_def sort_indices_sort flip: segments_def)
  with recover_segments [OF dir assms(2) r w(1,2) s'(1)] s'(2-4) show ?thesis by auto
qed

lemma last_lsn_upper:
  "sorted_wrt (<) (l # map entry_lsn es) \<Longrightarrow> l \<le> last_lsn l es \<and> (\<forall>e \<in> set es. entry_lsn e \<le> last_lsn l es)"
proof (induction es arbitrary: l)
  case (Cons e es)
  have "sorted_wrt (<) (entry_lsn e # map entry_lsn es)" using Cons.prems by simp
  from Cons.IH [OF this] Cons.prems show ?case by auto
qed simp

lemma seg_open_existing:
  assumes "files fs (seg_index w) \<noteq> None" "io_opens io"
  shows "seg_open io w fs = (0, w\<lparr>seg_fd := True, seg_offset := length (file_bytes fs (seg_index w))\<rparr>, fs)"
  using assms by (auto simp: seg_open_def io_opens_def Let_def)

lemma create_log:
  assumes dir: "dir_inv fs cur G tail" and "tail_prefix tail" "io_opens io" "io_repairs io'"
    and "last_lsn 0 (log_of fs G) \<noteq> UINT64_MAX"
  shows "if length tail < 30
    then \<exists>w fs'. qihse_wal_create io io' fs sz dur = (Some w, fs') \<and> wal_abs w fs' (log_of fs G) \<and>
           next_lsn w = last_lsn 0 (log_of fs G) + 1 \<and> seg_fd w \<and> \<not> writer_failed w \<and> seg_index w = cur \<and>
           last_checkpoint_lsn w = checkpoint_of 0 (log_of fs G)
    else qihse_wal_create io io' fs sz dur = (None, fs)"
proof -
  note D = dir_invD [OF dir]
  let ?L = "last_lsn 0 (log_of fs G)"
  let ?cut = "fs\<lparr>files := (files fs)(cur \<mapsto> log_bytes (G cur))\<rparr>"
  obtain w0 where open_: "seg_open io (fresh_wal sz dur cur) fs = (0, w0, fs)"
    and w0: "seg_fd w0" "seg_index w0 = cur" "\<not> writer_failed w0"
    using seg_open_existing [of fs "fresh_wal sz dur cur" io] D(4) assms(3) by (simp add: fresh_wal_def)
  let ?w = "w0\<lparr>recovering := True\<rparr>"
  obtain s where s: "scan_maximum s = ?L" "\<not> scan_invalid s" "scan_last_checkpoint s = checkpoint_of 0 (log_of fs G)" and rep:
    "qihse_wal_replay io' ?w fs 0 wal_scan_lsn scan_start =
    (if tail = [] then (int (length (log_of fs G)), ?w, fs, s)
     else if length tail < 30
     then (int (length (log_of fs G)), ?w\<lparr>seg_offset := length (log_bytes (G cur))\<rparr>, ?cut, s)
     else (-1, ?w, fs, s))"
    using open_replay [OF dir assms(2,4), of ?w] w0 by auto
  have gt: "?L < ?L + 1" by (rule u64_succ_greater [OF assms(5)])
  then have nz: "?L + 1 \<noteq> 0" by (metis not_less_zero word_not_simps(1) word_gt_0_no)
  have up: "\<forall>e \<in> set (log_of fs G). entry_lsn e < ?L + 1" using last_lsn_upper [OF D(8)] gt by (auto intro: le_less_trans)
  have inv: "wal_abs w fs' (log_of fs G)"
    if "dir_inv fs' cur G []" "log_of fs' G = log_of fs G" "seg_index w = cur" "\<not> recovering w" "next_lsn w = ?L + 1" for w fs'
    using that up nz unfolding wal_abs_def by (intro exI [of _ cur] exI [of _ G] exI [of _ "[]"]) (simp add: log_inv_def)
  have cr: "qihse_wal_create io io' fs sz dur =
      (case qihse_wal_replay io' ?w fs 0 wal_scan_lsn scan_start of
         (scanned, w2, fs2, s) \<Rightarrow>
            if scanned < 0 \<or> scan_invalid s \<or> scan_maximum s = UINT64_MAX then (None, fs2)
            else (Some (w2\<lparr>recovering := False, marker_lsn := scan_marker_lsn s,
                marker_target := scan_marker_target s, last_checkpoint_lsn := scan_last_checkpoint s,
                next_lsn := scan_maximum s + 1\<rparr>), fs2))"
    using assms(3) by (simp add: qihse_wal_create_def max_segment_cur [OF dir] open_ io_opens_def)
  consider "tail = []" | "tail \<noteq> []" "length tail < 30" | "30 \<le> length tail" by force
  then show ?thesis
  proof cases
    case 1
    with dir have "dir_inv fs cur G []" by simp
    with 1 assms(5) s w0 inv [of fs] show ?thesis unfolding cr rep by simp
  next
    case 2
    with assms(5) s w0 inv [of ?cut] dir_inv_cut [OF dir] show ?thesis unfolding cr rep by simp
  next
    case 3
    then show ?thesis unfolding cr rep by auto
  qed
qed


subsection \<open>Crashes\<close>

text \<open>A crash loses the last \<open>d\<close> bytes of the newest segment.\<close>

definition crash :: "wal_fs \<Rightarrow> u64 \<Rightarrow> nat \<Rightarrow> wal_fs" where
  "crash fs cur d =
     fs\<lparr>files := (files fs)(cur \<mapsto> take (length (file_bytes fs cur) - d) (file_bytes fs cur))\<rparr>"

lemma encode_length_pos: "entry_ok e \<Longrightarrow> 0 < length (encode_entry e)"
  by (cases e) (simp add: length_encode)

lemma tail_prefix_take:
  assumes "tail_prefix tail" shows "tail_prefix (take n tail)"
proof (cases "tail = []")
  case False
  with assms obtain e q where "entry_ok e" "encode_entry e = tail @ q" "q \<noteq> []" unfolding tail_prefix_def by blast
  then have "entry_ok e \<and> encode_entry e = take n tail @ (drop n tail @ q) \<and> drop n tail @ q \<noteq> []" by simp
  then show ?thesis unfolding tail_prefix_def by blast
qed simp

lemma cut_log:
  assumes "\<forall>e \<in> set es. entry_ok e" "tail_prefix tail"
  shows "\<exists>k tail'. take n (log_bytes es @ tail) = log_bytes (take k es) @ tail' \<and> tail_prefix tail' \<and> k \<le> length es \<and>
           (\<forall>j \<le> length es. length (log_bytes (take j es)) \<le> n \<longrightarrow> j \<le> k)"
  using assms(1)
proof (induction es arbitrary: n)
  case Nil
  then show ?case using tail_prefix_take [OF assms(2)] by auto
next
  case (Cons e es)
  let ?m = "length (encode_entry e)"
  show ?case
  proof (cases "?m \<le> n")
    case True
    from Cons obtain k tail' where k: "take (n - ?m) (log_bytes es @ tail) = log_bytes (take k es) @ tail'"
      "tail_prefix tail'" "k \<le> length es" "\<forall>j \<le> length es. length (log_bytes (take j es)) \<le> n - ?m \<longrightarrow> j \<le> k"
      by (metis list.set_intros(2))
    have "j \<le> Suc k" if "j \<le> Suc (length es)" "length (log_bytes (take j (e # es))) \<le> n" for j
      using that k(4) by (cases j) auto
    with True k(1-3) show ?thesis by (intro exI [of _ "Suc k"] exI [of _ tail']) simp
  next
    case False
    have "tail_prefix (take n (encode_entry e))"
      using Cons.prems False unfolding tail_prefix_def
      by (intro disjI2 exI [of _ e] exI [of _ "drop n (encode_entry e)"]) simp
    moreover have "j \<le> 0" if "length (log_bytes (take j (e # es))) \<le> n" for j
      using that False by (cases j) auto
    ultimately show ?thesis using False
      by (intro exI [of _ 0] exI [of _ "take n (encode_entry e)"]) auto
  qed
qed

lemma crash_dir:
  assumes dir: "dir_inv fs cur G tail" and tp: "tail_prefix tail"
  shows "\<exists>k G' tail'. dir_inv (crash fs cur d) cur G' tail' \<and> tail_prefix tail' \<and>
    log_of (crash fs cur d) G' = take k (log_of fs G) \<and> k \<le> length (log_of fs G) \<and>
    (\<forall>j \<le> length (log_of fs G). length (log_bytes (take j (log_of fs G))) + d \<le> length (log_bytes (log_of fs G) @ tail) \<longrightarrow> j \<le> k) \<and>
    (d \<le> length (file_bytes fs cur) \<longrightarrow>
       length (log_bytes (take k (log_of fs G))) + length tail' + d = length (log_bytes (log_of fs G) @ tail))"
proof -
  note F = dir_file [OF dir] and L = log_replace [OF dir]
  let ?pre = "concat (map G (butlast (segments fs)))"
  let ?n = "length (file_bytes fs cur) - d"
  from cut_log [OF F(2) tp, of ?n] obtain k tail' where k: "take ?n (log_bytes (G cur) @ tail) = log_bytes (take k (G cur)) @ tail'"
      "tail_prefix tail'" "k \<le> length (G cur)" "\<forall>j \<le> length (G cur). length (log_bytes (take j (G cur))) \<le> ?n \<longrightarrow> j \<le> k"
    by blast
  let ?G = "G(cur := take k (G cur))"
  have log': "log_of fs ?G = take (length ?pre + k) (log_of fs G)"
    unfolding L by simp
  have j: "j \<le> length ?pre + k" if "j \<le> length (log_of fs G)"
      "length (log_bytes (take j (log_of fs G))) + d \<le> length (log_bytes (log_of fs G) @ tail)" for j
  proof (cases "j \<le> length ?pre")
    case False
    then obtain i where i: "j = length ?pre + i" by (metis nat_le_linear le_iff_add)
    with that(2) have "length (log_bytes (take i (G cur))) \<le> ?n" by (simp add: L(2) F(1))
    with k(4) i that(1) show ?thesis by (simp add: L(2))
  qed simp
  have "sorted_wrt (<) (0 # map entry_lsn (log_of fs ?G))"
    using sorted_lsn_append [of 0 "take (length ?pre + k) (log_of fs G)" "drop (length ?pre + k) (log_of fs G)"] dir_invD(8) [OF dir]
    unfolding append_take_drop_id log' by blast
  moreover have "\<forall>e \<in> set (take k (G cur)). entry_ok e" using F(2) by (meson in_set_takeD)
  ultimately have "dir_inv (crash fs cur d) cur ?G tail'"
    using dir_inv_replace [OF dir, of "take k (G cur)" tail'] k(1) by (simp add: crash_def F(1))
  moreover have "log_of (crash fs cur d) ?G = take (length ?pre + k) (log_of fs G)"
    using log' by (simp add: crash_def)
  moreover have "length (log_bytes (take k (G cur))) + length tail' = ?n"
    using arg_cong [OF k(1), of length] by (simp add: F(1))
  ultimately show ?thesis
    using k(2,3) j by (intro exI [of _ "length ?pre + k"] exI [of _ ?G] exI [of _ tail']) (auto simp: L(2) F(1))
qed


subsection \<open>Checkpoints\<close>

lemma segment_last_lsn_entry:
  assumes ok: "entry_ok e"
  shows "segment_last_lsn rd pos (encode_entry e @ rest) l =
    (if \<not> rd pos \<or> entry_lsn e \<le> l then None
     else segment_last_lsn rd (pos + length (encode_entry e)) rest (entry_lsn e))"
proof -
  obtain r k v where e: "e = (r, k, v)" by (cases e)
  note ok' = ok [unfolded e]
  have len: "length (encode_entry (r, k, v)) = 30 + unat (rec_key_length r) + unat (rec_value_length r)"
    by (rule length_encode [OF ok'])
  have hdr: "unpack_header (take 30 (encode_entry (r, k, v))) = r"
    by (simp add: encode_entry_def unpack_pack)
  have shape: "\<not> rec_key_length r > QIHSE_WAL_MAX_KEY" "\<not> rec_value_length r > QIHSE_WAL_MAX_VALUE" "rec_lsn r \<noteq> 0"
    using ok' by (auto simp: entry_ok_def record_shape_valid_def split: if_splits)
  have ne: "encode_entry (r, k, v) \<noteq> []" using len by auto
  show ?thesis
    by (subst segment_last_lsn.simps)
      (simp add: e ne hdr shape len QIHSE_WAL_RECORD_HEADER_SIZE_def Let_def add.assoc)
qed

lemma segment_last_lsn_end [simp]: "segment_last_lsn rd pos [] l = Some l"
  by (subst segment_last_lsn.simps) simp

lemma segment_last_lsn_some:
  "\<forall>e \<in> set es. entry_ok e \<Longrightarrow> segment_last_lsn rd pos (log_bytes es) l = Some x \<Longrightarrow> x = last_lsn l es"
  by (induction es arbitrary: pos l) (auto simp: segment_last_lsn_entry split: if_splits)

lemma segment_last_lsn_log:
  "\<forall>e \<in> set es. entry_ok e \<Longrightarrow> sorted_wrt (<) (l # map entry_lsn es) \<Longrightarrow> (\<And>q. rd q) \<Longrightarrow>
     segment_last_lsn rd pos (log_bytes es) l = Some (last_lsn l es)"
  by (induction es arbitrary: pos l) (auto simp: segment_last_lsn_entry)

lemma segments_remove:
  assumes "\<forall>e \<in> set (entries fs). snd e"
  shows "segments (remove_segment fs i) = removeAll i (segments fs)"
proof -
  have "map fst (removeAll (i, True) es) = removeAll i (map fst es)" if "\<forall>e \<in> set es. snd e" for es
    using that by (induction es) auto
  with assms show ?thesis
    by (simp add: segments_def remove_segment_def removeAll_filter_not_eq filter_sort)
qed

lemma sorted_concat_removeAll:
  "sorted_wrt P (l # concat (map g xs)) \<Longrightarrow> sorted_wrt P (l # concat (map g (removeAll i xs)))"
  by (induction xs) (auto simp: sorted_wrt_append)

lemma dir_inv_remove:
  assumes "dir_inv fs cur G tail" "i \<noteq> cur"
  shows "dir_inv (remove_segment fs i) cur G tail"
proof -
  note D = dir_invD [OF assms(1)]
  let ?fs = "remove_segment fs i"
  have c: "\<forall>e \<in> set (entries fs). snd e" using D(2) by blast
  have ent: "set (entries ?fs) = set (entries fs) - {(i, True)}" "distinct (entries ?fs)"
    using D(1) by (auto simp: remove_segment_def distinct_removeAll)
  have fl: "files ?fs j = (if j = i then None else files fs j)" for j by (simp add: remove_segment_def)
  have "sorted_wrt (<) (0 # map entry_lsn (log_of ?fs G))"
    using D(8) unfolding log_of_def segments_remove [OF c] map_concat map_map by (rule sorted_concat_removeAll)
  moreover have "files ?fs j \<noteq> None \<longleftrightarrow> (j, True) \<in> set (entries ?fs)" for j
    using D(3) [of j] by (simp add: fl ent)
  moreover have "files ?fs cur \<noteq> None" using D(4) assms(2) by (simp add: fl)
  moreover have "files ?fs j \<noteq> None \<longrightarrow> j \<le> cur" for j using D(5) [of j] by (simp add: fl)
  moreover have "files ?fs j = Some bs \<longrightarrow> bs = log_bytes (G j) @ (if j = cur then tail else []) \<and> (\<forall>e \<in> set (G j). entry_ok e)" for j bs
    using D(6,7) [of j bs] by (simp add: fl split: if_splits)
  ultimately show ?thesis using ent(2) c unfolding dir_inv_def ent(1) by blast
qed


lemma dir_segment:
  assumes "dir_inv fs cur G tail" "files fs i \<noteq> None"
  shows "sorted_wrt (<) (0 # map entry_lsn (G i))" "\<forall>e \<in> set (G i). entry_ok e"
    and "i \<noteq> cur \<Longrightarrow> file_bytes fs i = log_bytes (G i)"
proof -
  obtain bs where bs: "files fs i = Some bs" using assms(2) by blast
  have "i \<in> set xs \<Longrightarrow> sorted_wrt P (l # concat (map g xs)) \<Longrightarrow> sorted_wrt P (l # g i)"
    for P l xs and g :: "u64 \<Rightarrow> u64 list"
    by (induction xs) (auto simp: sorted_wrt_append)
  from this [of "segments fs" "(<)" 0 "map entry_lsn \<circ> G"]
  show "sorted_wrt (<) (0 # map entry_lsn (G i))"
    using dir_invD(8) [OF assms(1)] segments_files [OF assms(1)] assms(2) by (simp add: log_of_def map_concat)
  show "\<forall>e \<in> set (G i). entry_ok e" using dir_invD(7) [OF assms(1) bs] by blast
  show "i \<noteq> cur \<Longrightarrow> file_bytes fs i = log_bytes (G i)"
    using dir_invD(6) [OF assms(1) bs] bs by (simp add: file_bytes_def)
qed

lemma prune_log:
  assumes "dir_inv fs cur G tail" "prune_segments io cur target es fs rm = (ok, rm', fs1)"
  shows "\<exists>R. dir_inv fs1 cur G tail \<and> segments fs1 = filter (\<lambda>i. i \<notin> R) (segments fs) \<and>
    (\<forall>i \<in> R. i < cur \<and> last_lsn 0 (G i) < target) \<and>
    (ok \<longrightarrow> (\<forall>i \<in> set (segments fs1). (i, True) \<in> set es \<and> i < cur \<longrightarrow> target \<le> last_lsn 0 (G i)))"
  using assms
proof (induction es arbitrary: fs rm)
  case Nil
  then show ?case by (intro exI [of _ "{}"]) simp
next
  case (Cons e es)
  let ?i = "fst e"
  show ?case
  proof (cases "snd e \<and> ?i < cur")
    case False
    have "prune_segments io cur target es fs rm = (ok, rm', fs1)"
      using Cons.prems(2) unfolding prune_segments.simps if_not_P [OF False] .
    from Cons.IH [OF Cons.prems(1) this] False show ?thesis by (metis fst_conv set_ConsD snd_conv)
  next
    case here: True
    show ?thesis
    proof (cases "files fs ?i = None \<or> \<not> io_open_seg io ?i \<or> segment_last_lsn (io_read io ?i) 0 (file_bytes fs ?i) 0 = None")
      case True
      then have "\<not> ok \<and> fs1 = fs" using here Cons.prems(2) by (auto split: option.splits if_splits)
      then show ?thesis using Cons.prems(1) by (intro exI [of _ "{}"]) simp
    next
      case False
      then obtain l where l: "segment_last_lsn (io_read io ?i) 0 (file_bytes fs ?i) 0 = Some l" by blast
      note S = dir_segment [OF Cons.prems(1), of ?i]
      have "l = last_lsn 0 (G ?i)" using segment_last_lsn_some [OF S(2)] l False here S(3) by auto
      then consider "target \<le> last_lsn 0 (G ?i)" "prune_segments io cur target es fs rm = (ok, rm', fs1)"
        | "last_lsn 0 (G ?i) < target" "\<not> ok" "fs1 = fs"
        | "last_lsn 0 (G ?i) < target" "prune_segments io cur target es (remove_segment fs ?i) True = (ok, rm', fs1)"
        using here False l Cons.prems(2) by (auto split: if_splits)
      then show ?thesis
      proof cases
        case 1
        from Cons.IH [OF Cons.prems(1) 1(2)] 1(1) here show ?thesis by (metis fst_conv set_ConsD)
      next
        case 2
        then show ?thesis using Cons.prems(1) by (intro exI [of _ "{}"]) simp
      next
        case 3
        have dir: "dir_inv (remove_segment fs ?i) cur G tail" using dir_inv_remove [OF Cons.prems(1)] here by auto
        from Cons.IH [OF dir 3(2)] obtain R where R: "dir_inv fs1 cur G tail"
          "segments fs1 = filter (\<lambda>i. i \<notin> R) (segments (remove_segment fs ?i))" "\<forall>i \<in> R. i < cur \<and> last_lsn 0 (G i) < target"
          "ok \<longrightarrow> (\<forall>i \<in> set (segments fs1). (i, True) \<in> set es \<and> i < cur \<longrightarrow> target \<le> last_lsn 0 (G i))" by blast
        have "\<forall>e \<in> set (entries fs). snd e" using dir_invD(2) [OF Cons.prems(1)] by blast
        then have seg: "segments fs1 = filter (\<lambda>i. i \<notin> Set.insert ?i R) (segments fs)"
          unfolding R(2) by (auto simp: segments_remove removeAll_filter_not_eq intro!: filter_cong)
        have "\<forall>i \<in> Set.insert ?i R. i < cur \<and> last_lsn 0 (G i) < target" using R(3) 3(1) here by simp
        moreover have "ok \<longrightarrow> (\<forall>i \<in> set (segments fs1). (i, True) \<in> set (e # es) \<and> i < cur \<longrightarrow> target \<le> last_lsn 0 (G i))"
          using R(4) seg by auto
        ultimately show ?thesis using R(1) seg by blast
      qed
    qed
  qed
qed

end
