(* ===== verification/WalProps.thy ===== *)
theory WalProps
  imports WalLog
begin

section \<open>What the write-ahead log guarantees\<close>

text \<open>
  The properties of the write-ahead log over the refinement of \<open>WalLog\<close>: append and replay,
  reopening after a crash, checkpoints, the fence after a short write, and the detection of damaged
  records. The example log \<open>demo_wal\<close>, \<open>demo_fs\<close> serves the instances.
\<close>

subsection \<open>Delivery\<close>

definition collect :: "wal_entry list replay_cb" where
  "collect u r k v = (True, u @ [(r, k, v)])"

abbreviation log_from :: "u64 \<Rightarrow> wal_entry list \<Rightarrow> wal_entry list" where
  "log_from start es \<equiv> filter (\<lambda>e. start \<le> entry_lsn e) es"

lemma deliver_log_from: "deliver start cb (log_from start es) s = deliver start cb es s"
  by (induction start cb es s rule: deliver.induct) (auto split: prod.splits)

lemma deliver_collect:
  "deliver start collect es (n, u) = (True, n + int (length (log_from start es)), u @ log_from start es)"
  by (induction es arbitrary: n u) (auto simp: collect_def)

lemma abs_next: "wal_abs w fs log \<Longrightarrow> next_lsn w \<noteq> 0"
  by (auto simp: wal_abs_def log_inv_def)

lemma replay_abs:
  assumes "wal_abs w fs log" "\<not> writer_failed w" "seg_fd w" "io_reads io"
  shows "qihse_wal_replay io w fs start cb u =
    (case deliver start cb log (0, u) of (cont, n, u') \<Rightarrow> (n, w, fs, u'))"
proof -
  obtain cur G tail where "log_inv w fs cur G tail" "log_of fs G = log"
    using assms(1) unfolding wal_abs_def by blast
  with replay_log [of w fs cur G tail io start cb u] assms(2-4) show ?thesis
    by (auto split: prod.splits)
qed

subsection \<open>The fence\<close>

lemma fenced_replay: "writer_failed w \<Longrightarrow> qihse_wal_replay io w fs start cb u = (-1, w, fs, u)"
  by (simp add: qihse_wal_replay_def)

lemma fenced_append: "writer_failed w \<Longrightarrow> wal_append_raw io w fs t eng op key klen value vlen = (0, w, fs)"
  by (simp add: wal_append_raw_def)

subsection \<open>Checkpoints\<close>

lemma replay_segments_keeps:
  "\<not> recovering w \<Longrightarrow> replay_segments io start cb final is w fs st = (rc, w', fs', u) \<Longrightarrow> w' = w \<and> fs' = fs"
  by (induction "is" arbitrary: st)
    (auto simp: repair_torn_tail_def split: if_splits prod.splits seg_result.splits)

lemma replay_keeps:
  "\<not> recovering w \<Longrightarrow> qihse_wal_replay io w fs start cb u = (rc, w', fs', u') \<Longrightarrow> w' = w \<and> fs' = fs"
  by (auto simp: qihse_wal_replay_def Let_def dest: replay_segments_keeps split: if_splits)

lemma log_from_filter_segments:
  assumes "\<forall>i \<in> R. i \<in> set is \<longrightarrow> log_from target (G i) = []"
  shows "log_from target (concat (map G (filter (\<lambda>i. i \<notin> R) is))) = log_from target (concat (map G is))"
  using assms by (induction "is") auto

lemma prune_keeps_from:
  assumes dir: "dir_inv fs cur G tail" and "\<forall>i \<in> R. i < cur \<and> last_lsn 0 (G i) < target"
    and "segments fs1 = filter (\<lambda>i. i \<notin> R) (segments fs)"
  shows "log_from target (log_of fs1 G) = log_from target (log_of fs G)"
proof -
  have "log_from target (G i) = []" if "i \<in> R" "i \<in> set (segments fs)" for i
  proof -
    have "sorted_wrt (<) (0 # map entry_lsn (G i))"
      using dir_segment(1) [OF dir] segments_files [OF dir] that(2) by blast
    from last_lsn_upper [OF this] assms(2) that(1) show ?thesis
      by (auto simp: filter_empty_conv not_le intro: le_less_trans)
  qed
  then show ?thesis unfolding log_of_def assms(3) by (intro log_from_filter_segments) blast
qed

lemma prune_abs:
  assumes abs: "wal_abs w fs log" and w: "seg_fd w" "\<not> writer_failed w"
    and pr: "prune_segments io (seg_index w) target (entries fs) fs False = (ok, removed, fs1)"
  shows "\<exists>log'. wal_abs w fs1 log' \<and> log_from target log' = log_from target log \<and> set log' \<subseteq> set log \<and>
    (ok \<longrightarrow> (\<forall>i. files fs1 i \<noteq> None \<and> i < seg_index w \<longrightarrow>
      (\<exists>l. segment_last_lsn (\<lambda>_. True) 0 (file_bytes fs1 i) 0 = Some l \<and> target \<le> l)))"
proof -
  obtain G where inv: "log_inv w fs (seg_index w) G []" and log: "log_of fs G = log"
    using abs w unfolding wal_abs_def log_inv_def by blast
  then have dir: "dir_inv fs (seg_index w) G []" by (simp add: log_inv_def)
  obtain R where R: "dir_inv fs1 (seg_index w) G []" "segments fs1 = filter (\<lambda>i. i \<notin> R) (segments fs)"
    "\<forall>i \<in> R. i < seg_index w \<and> last_lsn 0 (G i) < target"
    "ok \<longrightarrow> (\<forall>i \<in> set (segments fs1). (i, True) \<in> set (entries fs) \<and> i < seg_index w \<longrightarrow> target \<le> last_lsn 0 (G i))"
    using prune_log [OF dir pr] by blast
  have sub: "set (log_of fs1 G) \<subseteq> set (log_of fs G)" by (auto simp: log_of_def R(2))
  with R(1) inv have "log_inv w fs1 (seg_index w) G []" by (auto simp: log_inv_def)
  then have "wal_abs w fs1 (log_of fs1 G)" unfolding wal_abs_def by blast
  moreover have "\<exists>l. segment_last_lsn (\<lambda>_. True) 0 (file_bytes fs1 i) 0 = Some l \<and> target \<le> l"
    if "ok" "files fs1 i \<noteq> None" "i < seg_index w" for i
  proof -
    have i: "i \<in> set (segments fs1)" using segments_files [OF R(1)] that(2) by blast
    then have "i \<in> set (segments fs)" by (simp add: R(2))
    then have "(i, True) \<in> set (entries fs)" using segments_files [OF dir] dir_invD(3) [OF dir] by blast
    with R(4) that(1,3) i have "target \<le> last_lsn 0 (G i)" by blast
    with segment_last_lsn_log [OF dir_segment(2,1) [OF R(1) that(2)], of "\<lambda>_. True" 0]
      dir_segment(3) [OF R(1) that(2)] that(3) show ?thesis by auto
  qed
  ultimately show ?thesis using prune_keeps_from [OF dir R(3,2)] sub log by blast
qed


lemma section_abs:
  assumes abs: "wal_abs w fs log" and res: "checkpoint_section io w fs target = (rc, w', fs')"
  shows "\<exists>log'. wal_abs w' fs' log' \<and> log_from target log' = log_from target log \<and> set log' \<subseteq> set log \<and>
    next_lsn w' = next_lsn w \<and> (rc \<noteq> 0 \<longrightarrow> w' = w) \<and>
    (rc = 0 \<longrightarrow> w' = w\<lparr>last_checkpoint_lsn := target\<rparr> \<and> (\<forall>i. files fs' i \<noteq> None \<and> i < seg_index w \<longrightarrow>
      (\<exists>l. segment_last_lsn (\<lambda>_. True) 0 (file_bytes fs' i) 0 = Some l \<and> target \<le> l)))"
proof (cases "writer_failed w \<or> \<not> seg_fd w \<or> marker_target w \<noteq> target \<or> marker_lsn w < target \<or>
    target \<ge> next_lsn w \<or> target < last_checkpoint_lsn w \<or> \<not> io_sync io \<or> \<not> io_opendir io")
  case True
  then have "(rc, w', fs') = (-1, w, fs)" using res by (auto simp: checkpoint_section_def split: if_splits)
  with abs show ?thesis by auto
next
  case False
  obtain ok removed fs1 where pr: "prune_segments io (seg_index w) target (entries fs) fs False = (ok, removed, fs1)"
    by (metis prod_cases3)
  have cases: "rc = -1 \<and> w' = w \<and> fs' = fs1 \<or>
      rc = 0 \<and> ok \<and> w' = w\<lparr>last_checkpoint_lsn := target\<rparr> \<and> fs' = fs1"
    using res False by (auto simp: checkpoint_section_def pr split: if_splits)
  have w: "seg_fd w" "\<not> writer_failed w" using False by auto
  have keep: "wal_abs (w\<lparr>last_checkpoint_lsn := target\<rparr>) fs1 l = wal_abs w fs1 l" for l
    by (simp add: wal_abs_def log_inv_def)
  from prune_abs [OF abs w pr] cases show ?thesis by (auto simp: keep)
qed

lemma checkpoint_abs:
  assumes abs: "wal_abs w fs log" and res: "qihse_wal_checkpoint io_val io w fs target = (rc, w', fs')"
  shows "\<exists>log'. wal_abs w' fs' log' \<and> log_from target log' = log_from target log \<and> set log' \<subseteq> set log \<and>
    next_lsn w' = next_lsn w \<and> (rc \<noteq> 0 \<longrightarrow> w' = w) \<and>
    (rc = 0 \<longrightarrow> w' = w\<lparr>last_checkpoint_lsn := target\<rparr> \<and> (\<forall>i. files fs' i \<noteq> None \<and> i < seg_index w \<longrightarrow>
      (\<exists>l. segment_last_lsn (\<lambda>_. True) 0 (file_bytes fs' i) 0 = Some l \<and> target \<le> l)))"
proof -
  have nr: "\<not> recovering w" using abs by (auto simp: wal_abs_def log_inv_def)
  obtain rc0 w0 fs0 u0 where rep: "qihse_wal_replay io_val w fs 0 validate_record () = (rc0, w0, fs0, u0)"
    by (metis prod_cases4)
  with replay_keeps [OF nr rep] have [simp]: "w0 = w" "fs0 = fs" by simp_all
  show ?thesis
  proof (cases "target = 0 \<or> rc0 < 0")
    case True
    then have "(rc, w', fs') = (-1, w, fs)" using res by (auto simp: qihse_wal_checkpoint_def rep split: if_splits)
    with abs show ?thesis by auto
  next
    case False
    then have "checkpoint_section io w fs target = (rc, w', fs')"
      using res by (simp add: qihse_wal_checkpoint_def rep)
    then show ?thesis by (rule section_abs [OF abs])
  qed
qed

definition io_prunes :: "wal_io \<Rightarrow> bool" where
  "io_prunes io \<longleftrightarrow> io_reads io \<and> io_dirsync io \<and> (\<forall>i. io_unlink io i)"

lemma prune_succeeds:
  assumes "dir_inv fs cur G []" "io_prunes io" "distinct es" "set es \<subseteq> set (entries fs)"
  shows "fst (prune_segments io cur target es fs rm)"
  using assms(1,3,4)
proof (induction es arbitrary: fs rm)
  case (Cons e es)
  let ?i = "fst e"
  have io: "io_open_seg io ?i" "\<And>q. io_read io ?i q" "io_unlink io ?i"
    using assms(2) by (simp_all add: io_prunes_def io_reads_def)
  have es: "distinct es" "set es \<subseteq> set (entries fs)" using Cons.prems by auto
  show ?case
  proof (cases "snd e \<and> ?i < cur")
    case True
    then have e: "e = (?i, True)" by (cases e) simp
    then have mem: "(?i, True) \<in> set (entries fs)" using Cons.prems(3) by auto
    then have f: "files fs ?i \<noteq> None" using dir_invD(3) [OF Cons.prems(1)] by blast
    have l: "segment_last_lsn (io_read io ?i) 0 (file_bytes fs ?i) 0 = Some (last_lsn 0 (G ?i))"
      using segment_last_lsn_log [OF dir_segment(2,1) [OF Cons.prems(1) f], of "io_read io ?i" 0] io(2)
        dir_segment(3) [OF Cons.prems(1) f] True by auto
    have "set es \<subseteq> set (entries (remove_segment fs ?i))"
      using Cons.prems(2,3) e by (auto simp: remove_segment_def)
    from Cons.IH [OF dir_inv_remove [OF Cons.prems(1)] es(1) this, of True] True
    have "fst (prune_segments io cur target es (remove_segment fs ?i) True)" by auto
    with Cons.IH [OF Cons.prems(1) es, of rm] True f l io show ?thesis by auto
  next
    case False
    then show ?thesis using Cons.IH [OF Cons.prems(1) es, of rm] by auto
  qed
qed simp

lemma checkpoint_succeeds:
  assumes abs: "wal_abs w fs log" and w: "seg_fd w" "\<not> writer_failed w" and io: "io_reads io_val" "io_prunes io"
    and "target \<noteq> 0" "marker_target w = target" "target \<le> marker_lsn w" "target < next_lsn w" "last_checkpoint_lsn w \<le> target"
  shows "fst (qihse_wal_checkpoint io_val io w fs target) = 0"
proof -
  have "deliver 0 validate_record es (n, ()) = (True, n + int (length es), ())" for es n
    by (induction es arbitrary: n) (auto simp: validate_record_def)
  from this [of log 0] have rep: "qihse_wal_replay io_val w fs 0 validate_record () = (int (length log), w, fs, ())"
    using replay_abs [OF abs w(2,1) io(1), of 0 validate_record "()"] by simp
  obtain G where dir: "dir_inv fs (seg_index w) G []"
    using abs w unfolding wal_abs_def log_inv_def by blast
  obtain ok removed fs1 where pr: "prune_segments io (seg_index w) target (entries fs) fs False = (ok, removed, fs1)"
    by (metis prod_cases3)
  then have ok using prune_succeeds [OF dir io(2) dir_invD(1) [OF dir] subset_refl, of target False] by simp
  with pr rep assms show ?thesis
    by (auto simp: qihse_wal_checkpoint_def checkpoint_section_def io_prunes_def io_reads_def)
qed

definition marker :: "u64 \<Rightarrow> u64 \<Rightarrow> wal_entry" where
  "marker lsn target = appended lsn 0 0 QIHSE_WAL_OP_CHECKPOINT (Some (le_bytes 8 target)) 8 None 0"

lemma write_marker:
  assumes "io_writes io"
  shows "\<exists>w1 fs1. write_record io w fs 0 0 QIHSE_WAL_OP_CHECKPOINT (Some (le_bytes 8 target)) 8 None 0 = (next_lsn w, w1, fs1) \<and>
    marker_lsn w1 = next_lsn w \<and> marker_target w1 = target \<and> last_checkpoint_lsn w1 = last_checkpoint_lsn w \<and>
    next_lsn w1 = next_lsn w + 1"
  using assms by (auto simp: write_record_def io_writes_def Let_def arg_bytes_def opt_bytes_def)

lemma append_marker:
  assumes "writable w" "io_writes io" "target \<noteq> 0" "target \<le> next_lsn w"
  shows "\<exists>w1 fs1. qihse_wal_append_checkpoint io w fs target = (next_lsn w, w1, fs1) \<and>
    marker_lsn w1 = next_lsn w \<and> marker_target w1 = target \<and> last_checkpoint_lsn w1 = last_checkpoint_lsn w \<and>
    next_lsn w1 = next_lsn w + 1"
proof -
  obtain w0 fs0 where rot: "seg_rotate io w fs = (0, w0, fs0)" "next_lsn w0 = next_lsn w"
      "last_checkpoint_lsn w0 = last_checkpoint_lsn w"
    using assms(2) by (auto simp: seg_rotate_def seg_open_def io_writes_def Let_def)
  have "record_shape_valid 0 0 QIHSE_WAL_OP_CHECKPOINT 8 0"
    by (simp add: record_shape_valid_def wal_ops QIHSE_WAL_MAX_KEY_def QIHSE_WAL_MAX_VALUE_def)
  with write_marker [OF assms(2), of w fs target] write_marker [OF assms(2), of w0 fs0 target] rot assms(1,3,4)
  show ?thesis
    by (auto simp: qihse_wal_append_checkpoint_def qihse_wal_current_lsn_def wal_append_raw_def writable_def Let_def)
qed

lemma append_marker_log:
  assumes "wal_abs w fs log" "seg_index w \<noteq> UINT64_MAX" "target \<noteq> 0" "target \<le> next_lsn w"
    and "qihse_wal_append_checkpoint io w fs target = (next_lsn w, w1, fs1)"
  shows "wal_abs w1 fs1 (log @ [marker (next_lsn w) target])" "\<not> writer_failed w1" "seg_fd w1"
proof -
  have "wal_append_raw io w fs 0 0 QIHSE_WAL_OP_CHECKPOINT (Some (le_bytes 8 target)) 8 None 0 = (next_lsn w, w1, fs1)"
    using assms(3-5) by (auto simp: qihse_wal_append_checkpoint_def qihse_wal_current_lsn_def split: if_splits)
  from append_raw_log [OF assms(1) _ _ _ assms(2) this] assms(3,4) abs_next [OF assms(1)]
  show "wal_abs w1 fs1 (log @ [marker (next_lsn w) target])" "\<not> writer_failed w1" "seg_fd w1"
    by (auto simp: args_ok_def target_ok_def arg_bytes_def opt_bytes_def marker_def word_neq_0_conv)
qed

lemma checkpoint_cycle:
  assumes "wal_abs w fs log" "writable w" "seg_index w \<noteq> UINT64_MAX" "target \<noteq> 0" "target \<le> next_lsn w"
    and "last_checkpoint_lsn w \<le> target" "io_writes io" "io_reads io1" "io_prunes io2"
  shows "\<exists>w1 fs1 w2 fs2 log'. qihse_wal_append_checkpoint io w fs target = (next_lsn w, w1, fs1) \<and>
    seg_fd w1 \<and> \<not> writer_failed w1 \<and>
    qihse_wal_checkpoint io1 io2 w1 fs1 target = (0, w2, fs2) \<and> last_checkpoint_lsn w2 = target \<and>
    wal_abs w2 fs2 log' \<and> \<not> writer_failed w2 \<and> seg_fd w2 \<and>
    log_from target log' = log_from target log @ [marker (next_lsn w) target]"
proof -
  obtain w1 fs1 where m: "qihse_wal_append_checkpoint io w fs target = (next_lsn w, w1, fs1)"
      "marker_lsn w1 = next_lsn w" "marker_target w1 = target" "last_checkpoint_lsn w1 = last_checkpoint_lsn w"
      "next_lsn w1 = next_lsn w + 1"
    using append_marker [OF assms(2,7,4,5), of fs] by blast
  note a = append_marker_log [OF assms(1,3-5) m(1)]
  have gt: "target < next_lsn w1"
    using assms(2,5) u64_succ_greater [of "next_lsn w"] by (auto simp: m(5) writable_def)
  obtain rc w2 fs2 where c: "qihse_wal_checkpoint io1 io2 w1 fs1 target = (rc, w2, fs2)" by (metis prod_cases3)
  have rc: "rc = 0" using checkpoint_succeeds [OF a(1,3,2) assms(8,9,4) m(3) _ gt] m(2,4) assms(5,6) c by simp
  obtain log' where l: "wal_abs w2 fs2 log'" "log_from target log' = log_from target (log @ [marker (next_lsn w) target])"
      "w2 = w1\<lparr>last_checkpoint_lsn := target\<rparr>"
    using checkpoint_abs [OF a(1) c] rc by blast
  then have "\<not> writer_failed w2" "seg_fd w2" "last_checkpoint_lsn w2 = target" using a by simp_all
  with l(1,2) m(1) a(2,3) c rc assms(5) show ?thesis
    by (intro exI [of _ w1] exI [of _ fs1] exI [of _ w2] exI [of _ fs2] exI [of _ log']) (simp add: marker_def appended_def)
qed

subsection \<open>A new log\<close>

lemma create_empty:
  assumes "entries fs = []" "files fs = (\<lambda>_. None)" "io_opens io" "io_repairs io'"
  shows "\<exists>w fs'. qihse_wal_create io io' fs sz dur = (Some w, fs') \<and> wal_abs w fs' [] \<and>
    next_lsn w = 1 \<and> seg_fd w \<and> \<not> writer_failed w \<and> seg_index w = 0"
proof -
  let ?fs = "fs\<lparr>entries := [(0, True)], files := (\<lambda>_. None)(0 \<mapsto> [])\<rparr>"
  have dir: "dir_inv ?fs 0 (\<lambda>_. []) []"
    by (simp add: dir_inv_def log_of_def segments_def)
  have log: "log_of ?fs (\<lambda>_. []) = []" by (simp add: log_of_def segments_def)
  have idx: "seg_index (fresh_wal sz dur 0) = 0" by (simp add: fresh_wal_def)
  have "seg_open io (fresh_wal sz dur 0) fs = seg_open io (fresh_wal sz dur 0) ?fs"
    using assms(1-3) by (simp add: seg_open_def idx io_opens_def Let_def file_bytes_def)
  moreover have "max_segment (entries ?fs) None = Some 0" by simp
  ultimately have "qihse_wal_create io io' fs sz dur = qihse_wal_create io io' ?fs sz dur"
    using assms(1,3) by (simp add: qihse_wal_create_def io_opens_def)
  with create_log [OF dir _ assms(3,4), of sz dur, unfolded log] show ?thesis
    by (auto simp: UINT64_MAX_def)
qed


subsection \<open>Sizes\<close>

lemma u64_max_le: "UINT64_MAX \<le> x \<longleftrightarrow> x = UINT64_MAX"
proof -
  have "UINT64_MAX = - 1" by (simp add: UINT64_MAX_def)
  with word_order.extremum_unique [of x] show ?thesis by simp
qed

definition newest :: "wal_fs \<Rightarrow> u64" where
  "newest fs = last (segments fs)"

definition log_size :: "wal_fs \<Rightarrow> nat" where
  "log_size fs = sum_list (map (\<lambda>i. length (file_bytes fs i)) (segments fs))"

lemma newest_cur: "dir_inv fs cur G tail \<Longrightarrow> newest fs = cur"
  using segments_snoc [of fs cur G tail] by (auto simp: newest_def)

lemma length_log_concat: "length (log_bytes (concat (map G is))) = sum_list (map (\<lambda>i. length (log_bytes (G i))) is)"
  by (induction "is") simp_all

lemma dir_log_size:
  assumes "dir_inv fs cur G tail"
  shows "log_size fs = length (log_bytes (log_of fs G) @ tail)"
proof -
  obtain "is" where "is": "segments fs = is @ [cur]" "cur \<notin> set is" using segments_snoc [OF assms] by blast
  have m: "map (\<lambda>i. length (file_bytes fs i)) is = map (\<lambda>i. length (log_bytes (G i))) is"
  proof (rule map_cong [OF refl])
    fix i assume "i \<in> set is"
    with "is" segments_files [OF assms, of i] have "files fs i \<noteq> None" "i \<noteq> cur" by auto
    with dir_segment(3) [OF assms] show "length (file_bytes fs i) = length (log_bytes (G i))" by simp
  qed
  show ?thesis
    using dir_file(1) [OF assms] by (simp add: log_size_def log_of_def "is"(1) length_log_concat m)
qed

lemma length_log_take: "j \<le> k \<Longrightarrow> length (log_bytes (take j es)) \<le> length (log_bytes (take k es))"
proof -
  assume "j \<le> k"
  then have "take k es = take j es @ take (k - j) (drop j es)" using take_add [of j "k - j" es] by simp
  then show ?thesis by simp
qed

lemma log_size_abs: "wal_abs w fs log \<Longrightarrow> \<not> writer_failed w \<Longrightarrow> log_size fs = length (log_bytes log)"
  by (auto simp: wal_abs_def log_inv_def dir_log_size)

lemma last_lsn_take:
  assumes "sorted_wrt (<) (0 # map entry_lsn log)"
  shows "last_lsn 0 (take k log) \<le> last_lsn 0 log"
proof -
  have "last_lsn 0 log = last_lsn (last_lsn 0 (take k log)) (drop k log)"
    using last_lsn_append [of 0 "take k log" "drop k log"] by simp
  moreover have "sorted_wrt (<) (last_lsn 0 (take k log) # map entry_lsn (drop k log))"
    using sorted_lsn_append [of 0 "take k log" "drop k log"] assms unfolding append_take_drop_id by blast
  ultimately show ?thesis using last_lsn_upper by metis
qed

subsection \<open>A running example\<close>

definition io_good :: wal_io where
  "io_good = \<lparr>io_alloc = True, io_mkdir = True, io_lock = True, io_opendir = True, io_open = True,
     io_dirsync = True, io_fstat = True, io_sync = True, io_rotate_sync = True, io_close = True,
     io_write = Some 4294967296, io_open_seg = (\<lambda>_. True), io_read = (\<lambda>_ _. True), io_trunc = True,
     io_trunc_sync = True, io_unlink = (\<lambda>_. True)\<rparr>"

lemma io_good [simp]:
  "io_reads io_good" "io_writes io_good" "io_opens io_good" "io_repairs io_good" "io_prunes io_good"
  by (simp_all add: io_good_def io_reads_def io_writes_def io_opens_def io_repairs_def io_prunes_def)

definition demo_wal :: wal where
  "demo_wal = (fresh_wal 0 DURABILITY_FDATASYNC 0)\<lparr>seg_fd := True\<rparr>"

definition demo_fs :: wal_fs where
  "demo_fs = \<lparr>entries = [(0, True)], files = [0 \<mapsto> []]\<rparr>"

lemma demo_fields [simp]:
  "seg_fd demo_wal" "\<not> writer_failed demo_wal" "next_lsn demo_wal = 1" "seg_index demo_wal = 0"
  "durability demo_wal = DURABILITY_FDATASYNC" "seg_offset demo_wal = 0" "last_checkpoint_lsn demo_wal = 0"
  "marker_lsn demo_wal = 0" "marker_target demo_wal = 0" "segment_size demo_wal = 67108864" "\<not> recovering demo_wal"
  by (simp_all add: demo_wal_def fresh_wal_def QIHSE_WAL_DEFAULT_SEGMENT_SIZE_def)

lemma demo_abs: "wal_abs demo_wal demo_fs []"
proof -
  have "log_inv demo_wal demo_fs 0 (\<lambda>_. []) []"
    by (simp add: log_inv_def dir_inv_def log_of_def segments_def demo_fs_def)
  then show ?thesis unfolding wal_abs_def by (auto simp: log_of_def)
qed

lemma demo_writable [simp]: "writable demo_wal"
  by (simp add: writable_def UINT64_MAX_def)

lemma demo_insert:
  "\<exists>w fs. qihse_wal_append io_good demo_wal demo_fs 7 1 QIHSE_WAL_OP_INSERT (Some [1, 2]) 2 (Some [3]) 1 = (1, w, fs) \<and>
    wal_abs w fs [appended 1 7 1 QIHSE_WAL_OP_INSERT (Some [1, 2]) 2 (Some [3]) 1] \<and> \<not> writer_failed w \<and> seg_fd w"
proof -
  have args: "args_ok (Some [1, 2]) 2" "args_ok (Some [3]) 1" by (simp_all add: args_ok_def)
  have shape: "record_shape_valid 7 1 QIHSE_WAL_OP_INSERT 2 1"
    by (simp add: record_shape_valid_def wal_ops QIHSE_WAL_MAX_KEY_def QIHSE_WAL_MAX_VALUE_def)
  obtain lsn w fs where r: "wal_append_raw io_good demo_wal demo_fs 7 1 QIHSE_WAL_OP_INSERT (Some [1, 2]) 2 (Some [3]) 1 = (lsn, w, fs)"
    by (metis prod_cases3)
  have "lsn = 1" using append_raw_succeeds [OF demo_writable io_good(2) shape args, of demo_fs] r by simp
  with append_raw_log [OF demo_abs args _ _ r] r show ?thesis
    by (auto simp: target_ok_def wal_ops UINT64_MAX_def qihse_wal_append_def)
qed


lemma demo_insert_fs:
  assumes "qihse_wal_append io_good demo_wal demo_fs 7 1 QIHSE_WAL_OP_INSERT (Some [1, 2]) 2 (Some [3]) 1 = (lsn, w, fs)"
  shows "newest fs = 0" "file_bytes fs 0 = encode_entry (appended 1 7 1 QIHSE_WAL_OP_INSERT (Some [1, 2]) 2 (Some [3]) 1)"
proof -
  let ?e = "appended 1 7 1 QIHSE_WAL_OP_INSERT (Some [1, 2]) 2 (Some [3]) 1"
  have "fs = write_seg (demo_wal\<lparr>next_lsn := 2\<rparr>) demo_fs (encode_entry ?e)"
    using assms
    by (simp add: qihse_wal_append_def wal_append_raw_def write_record_def record_shape_valid_def wal_ops
        QIHSE_WAL_MAX_KEY_def QIHSE_WAL_MAX_VALUE_def QIHSE_WAL_RECORD_HEADER_SIZE_def io_good_def UINT64_MAX_def
        encode_entry_def appended_def arg_bytes_def opt_bytes_def Let_def)
  then show "newest fs = 0" "file_bytes fs 0 = encode_entry ?e"
    by (simp_all add: write_seg_def newest_def segments_def demo_fs_def file_bytes_def)
qed

subsection \<open>Reopening after a crash\<close>

lemma reopen_after_crash:
  assumes "wal_abs w fs log" "last_lsn 0 log \<noteq> UINT64_MAX" "io_opens io" "io_repairs io'"
    and "d \<le> length (file_bytes fs (newest fs))"
  shows "\<exists>k \<le> length log.
    (\<forall>j \<le> length log. length (log_bytes (take j log)) + d \<le> log_size fs \<longleftrightarrow> j \<le> k) \<and>
    (if log_size fs - d - length (log_bytes (take k log)) < QIHSE_WAL_RECORD_HEADER_SIZE
     then \<exists>w' fs'. qihse_wal_create io io' (crash fs (newest fs) d) sz dur = (Some w', fs') \<and>
            wal_abs w' fs' (take k log) \<and> next_lsn w' = last_lsn 0 (take k log) + 1 \<and>
            last_checkpoint_lsn w' = checkpoint_of 0 (take k log) \<and> seg_fd w' \<and> \<not> writer_failed w'
     else qihse_wal_create io io' (crash fs (newest fs) d) sz dur = (None, crash fs (newest fs) d))"
proof -
  obtain cur G tail where inv: "log_inv w fs cur G tail" and log: "log_of fs G = log"
    using assms(1) unfolding wal_abs_def by blast
  then have dir: "dir_inv fs cur G tail" and tp: "tail_prefix tail" by (simp_all add: log_inv_def)
  note cur = newest_cur [OF dir] and sz = dir_log_size [OF dir]
  obtain k G' tail' where k: "dir_inv (crash fs cur d) cur G' tail'" "tail_prefix tail'"
    "log_of (crash fs cur d) G' = take k log" "k \<le> length log"
    "\<forall>j \<le> length log. length (log_bytes (take j log)) + d \<le> length (log_bytes log @ tail) \<longrightarrow> j \<le> k"
    "length (log_bytes (take k log)) + length tail' + d = length (log_bytes log @ tail)"
    using crash_dir [OF dir tp, of d] assms(5) unfolding log cur by blast
  have "last_lsn 0 (take k log) \<le> last_lsn 0 log"
    using last_lsn_take dir_invD(8) [OF dir] unfolding log by blast
  then have "last_lsn 0 (take k log) \<noteq> UINT64_MAX" using assms(2) by (auto simp: u64_max_le)
  note open_ = create_log [OF k(1,2) assms(3,4), of sz dur, unfolded k(3), OF this]
  have left: "log_size fs - d - length (log_bytes (take k log)) = length tail'" using k(6) sz log by simp
  have "length (log_bytes (take j log)) + d \<le> log_size fs" if "j \<le> k" for j
    using length_log_take [OF that, of log] k(6) sz log by simp
  with k(5) have "\<forall>j \<le> length log. length (log_bytes (take j log)) + d \<le> log_size fs \<longleftrightarrow> j \<le> k"
    unfolding sz log by blast
  moreover have "if length tail' < QIHSE_WAL_RECORD_HEADER_SIZE
     then \<exists>w' fs'. qihse_wal_create io io' (crash fs cur d) sz dur = (Some w', fs') \<and>
            wal_abs w' fs' (take k log) \<and> next_lsn w' = last_lsn 0 (take k log) + 1 \<and>
            last_checkpoint_lsn w' = checkpoint_of 0 (take k log) \<and> seg_fd w' \<and> \<not> writer_failed w'
     else qihse_wal_create io io' (crash fs cur d) sz dur = (None, crash fs cur d)"
    unfolding QIHSE_WAL_RECORD_HEADER_SIZE_def using open_ by (auto split: if_splits)
  ultimately show ?thesis
    unfolding cur left [symmetric] using k(4) by (intro exI [of _ k] conjI)
qed

subsection \<open>Corruption\<close>

lemma parse_corrupt:
  assumes "payload_ok (rec_key_length r) k" "payload_ok (rec_value_length r) v" "\<not> entry_ok (r, k, v)"
  shows "parse_record (pack_header r @ opt_bytes k @ opt_bytes v @ rest) = None"
  using assms(3) length_opt_bytes [OF assms(1)] length_opt_bytes [OF assms(2)]
  by (simp add: parse_record_def QIHSE_WAL_RECORD_HEADER_SIZE_def unpack_pack
      Let_def unat_pos payload_read [OF assms(1)] payload_read [OF assms(2)] del: if_split cong: if_cong)

lemma replay_corrupt:
  assumes "payload_ok (rec_key_length r) k" "payload_ok (rec_value_length r) v" "\<not> entry_ok (r, k, v)"
  shows "replay_segment rd start cb pos (pack_header r @ opt_bytes k @ opt_bytes v @ rest) st = (SegFail, st)"
  using replay_segment_rejects [OF parse_corrupt [OF assms, of rest], of rd start cb pos st] by simp

subsection \<open>Append, then replay\<close>

lemma append_replay:
  assumes "wal_abs w fs log" "writable w" "seg_index w \<noteq> UINT64_MAX" "io_writes io" "io_reads io'"
    and "record_shape_valid t eng op klen vlen" "op \<noteq> QIHSE_WAL_OP_CHECKPOINT" "args_ok key klen" "args_ok value vlen"
  shows "\<exists>w' fs'. qihse_wal_append io w fs t eng op key klen value vlen = (next_lsn w, w', fs') \<and>
    qihse_wal_replay io' w' fs' 0 collect [] =
      (int (length log) + 1, w', fs', log @ [appended (next_lsn w) t eng op key klen value vlen])"
proof -
  obtain lsn w' fs' where r: "wal_append_raw io w fs t eng op key klen value vlen = (lsn, w', fs')"
    by (metis prod_cases3)
  have lsn: "lsn = next_lsn w"
    using append_raw_succeeds [OF assms(2,4,6,8,9), of fs] r by simp
  have nz: "next_lsn w \<noteq> 0" by (rule abs_next [OF assms(1)])
  have "target_ok op key klen (next_lsn w)" using assms(7) by (simp add: target_ok_def)
  with append_raw_log [OF assms(1,8,9) _ assms(3) r] lsn nz
  have "wal_abs w' fs' (log @ [appended (next_lsn w) t eng op key klen value vlen])" "\<not> writer_failed w'" "seg_fd w'"
    by auto
  from replay_abs [OF this assms(5), of 0 collect "[]"] r lsn assms(7) show ?thesis
    by (simp add: deliver_collect qihse_wal_append_def)
qed

subsection \<open>A failed sync\<close>

lemma write_record_nosync:
  assumes "durability w = DURABILITY_FDATASYNC" "op \<noteq> QIHSE_WAL_OP_CHECKPOINT" "io_sync io"
  shows "write_record (io\<lparr>io_sync := False\<rparr>) w fs t eng op key klen value vlen =
    (0, snd (write_record io w fs t eng op key klen value vlen))"
  using assms by (simp add: write_record_def Let_def)

lemma append_raw_nosync:
  assumes "durability w = DURABILITY_FDATASYNC" "op \<noteq> QIHSE_WAL_OP_CHECKPOINT" "io_sync io"
  shows "wal_append_raw (io\<lparr>io_sync := False\<rparr>) w fs t eng op key klen value vlen =
    (0, snd (wal_append_raw io w fs t eng op key klen value vlen))"
proof -
  have rot: "seg_rotate (io\<lparr>io_sync := False\<rparr>) w fs = seg_rotate io w fs"
    by (simp add: seg_rotate_def seg_open_def Let_def)
  have dur: "durability w1 = DURABILITY_FDATASYNC" if "seg_rotate io w fs = (rc, w1, fs1)" for rc w1 fs1
    using that assms(1) by (auto simp: seg_rotate_def seg_open_def Let_def split: if_splits)
  show ?thesis
    unfolding wal_append_raw_def Let_def rot using dur write_record_nosync [OF _ assms(2,3)] assms(1)
    by (auto split: prod.splits)
qed

subsection \<open>Properties\<close>

text \<open>
  C12: appending refines appending to the list of records. When the call returns a
  non-zero LSN the record with that LSN, which is the next one, is the new last record of the log;
  when it returns 0 the log is unchanged, except that with synchronous durability and a failed
  sync the record may be in the log. This holds for every outcome of the I/O calls.
\<close>
theorem wal_append_refines:
  assumes "wal_abs w fs log" "args_ok key klen" "args_ok value vlen" "seg_index w \<noteq> UINT64_MAX"
    and "qihse_wal_append io w fs t eng op key klen value vlen = (lsn, w', fs')"
  shows "let e = appended (next_lsn w) t eng op key klen value vlen in
    if lsn \<noteq> 0 then lsn = next_lsn w \<and> wal_abs w' fs' (log @ [e])
    else wal_abs w' fs' log \<or> wal_abs w' fs' (log @ [e]) \<and> durability w = DURABILITY_FDATASYNC \<and> \<not> io_sync io"
proof (cases "op = QIHSE_WAL_OP_CHECKPOINT")
  case True
  then show ?thesis using assms(1,5) by (simp add: qihse_wal_append_def)
next
  case False
  then have t: "target_ok op key klen (next_lsn w)" by (simp add: target_ok_def)
  have r: "wal_append_raw io w fs t eng op key klen value vlen = (lsn, w', fs')"
    using assms(5) False by (simp add: qihse_wal_append_def)
  from append_raw_log [OF assms(1-3) t assms(4) r] abs_next [OF assms(1)] show ?thesis by (auto simp: Let_def)
qed

theorem wal_append_refines_witness:
  "\<exists>w fs. qihse_wal_append io_good demo_wal demo_fs 7 1 QIHSE_WAL_OP_INSERT (Some [1, 2]) 2 (Some [3]) 1 = (1, w, fs) \<and>
     wal_abs w fs [appended 1 7 1 QIHSE_WAL_OP_INSERT (Some [1, 2]) 2 (Some [3]) 1]"
proof -
  obtain w fs where r: "qihse_wal_append io_good demo_wal demo_fs 7 1 QIHSE_WAL_OP_INSERT (Some [1, 2]) 2 (Some [3]) 1 = (1, w, fs)"
    using demo_insert by blast
  from wal_append_refines [OF demo_abs _ _ _ r] r show ?thesis
    by (simp add: args_ok_def UINT64_MAX_def)
qed

text \<open>
  C18: a record that is appended is read back by replay. On a usable log, when the I/O calls
  succeed, appending a well-formed record returns its LSN, and replaying the whole log afterwards
  delivers the earlier records followed by exactly this record with its header, key and value.
\<close>
theorem wal_append_replay:
  assumes "wal_abs w fs log" "writable w" "seg_index w \<noteq> UINT64_MAX" "io_writes io" "io_reads io'"
    and "record_shape_valid t eng op klen vlen" "op \<noteq> QIHSE_WAL_OP_CHECKPOINT" "args_ok key klen" "args_ok value vlen"
  shows "\<exists>w' fs'. qihse_wal_append io w fs t eng op key klen value vlen = (next_lsn w, w', fs') \<and>
    qihse_wal_replay io' w' fs' 0 collect [] =
      (int (length log) + 1, w', fs', log @ [appended (next_lsn w) t eng op key klen value vlen])"
  by (rule append_replay [OF assms])

theorem wal_append_replay_witness:
  "\<exists>w fs. qihse_wal_append io_good demo_wal demo_fs 7 1 QIHSE_WAL_OP_INSERT (Some [1, 2]) 2 (Some [3]) 1 = (1, w, fs) \<and>
     qihse_wal_replay io_good w fs 0 collect [] =
       (1, w, fs, [appended 1 7 1 QIHSE_WAL_OP_INSERT (Some [1, 2]) 2 (Some [3]) 1])"
  using wal_append_replay [OF demo_abs demo_writable _ io_good(2,1), of 7 1 QIHSE_WAL_OP_INSERT 2 1 "Some [1, 2]" "Some [3]"]
  by (simp add: args_ok_def UINT64_MAX_def record_shape_valid_def wal_ops QIHSE_WAL_MAX_KEY_def QIHSE_WAL_MAX_VALUE_def)


text \<open>
  Replay delivers the log. On an open log that is not fenced, when the reads succeed,
  replay calls the callback on exactly the records from the start LSN on, in log order, until the
  callback stops it; it returns the number of calls and changes neither the handle nor the files.
\<close>
lemma replay_refines:
  assumes "wal_abs w fs log" "\<not> writer_failed w" "seg_fd w" "io_reads io"
  shows "qihse_wal_replay io w fs start cb u =
    (case deliver start cb (log_from start log) (0, u) of (cont, n, u') \<Rightarrow> (n, w, fs, u'))"
  unfolding deliver_log_from by (rule replay_abs [OF assms])

text \<open>
  C8: what reopening finds after a crash that loses any number of bytes at the end of the newest
  segment, fenced or not. What survives of the log is the longest prefix none of whose bytes were
  lost. If what is left behind it is shorter than a record header, opening succeeds: the log is
  exactly that prefix, the next LSN follows its last record, so no LSN of a surviving record is used
  again, and the last checkpoint is the one its last marker names. Otherwise opening refuses and leaves the files as they are.
\<close>
theorem wal_reopen_after_crash:
  assumes "wal_abs w fs log" "last_lsn 0 log \<noteq> UINT64_MAX" "io_opens io" "io_repairs io'"
    and "d \<le> length (file_bytes fs (newest fs))"
  shows "\<exists>k \<le> length log.
    (\<forall>j \<le> length log. length (log_bytes (take j log)) + d \<le> log_size fs \<longleftrightarrow> j \<le> k) \<and>
    (if log_size fs - d - length (log_bytes (take k log)) < QIHSE_WAL_RECORD_HEADER_SIZE
     then \<exists>w' fs'. qihse_wal_create io io' (crash fs (newest fs) d) sz dur = (Some w', fs') \<and>
            wal_abs w' fs' (take k log) \<and> next_lsn w' = last_lsn 0 (take k log) + 1 \<and>
            last_checkpoint_lsn w' = checkpoint_of 0 (take k log) \<and> seg_fd w' \<and> \<not> writer_failed w'
     else qihse_wal_create io io' (crash fs (newest fs) d) sz dur = (None, crash fs (newest fs) d))"
  by (rule reopen_after_crash [OF assms])

theorem wal_reopen_after_crash_witness:
  "\<exists>w fs w' fs'. qihse_wal_append io_good demo_wal demo_fs 7 1 QIHSE_WAL_OP_INSERT (Some [1, 2]) 2 (Some [3]) 1 = (1, w, fs) \<and>
     qihse_wal_create io_good io_good (crash fs (newest fs) 4) 0 DURABILITY_FDATASYNC = (Some w', fs') \<and>
     wal_abs w' fs' [] \<and> next_lsn w' = 1"
proof -
  let ?e = "appended 1 7 1 QIHSE_WAL_OP_INSERT (Some [1, 2]) 2 (Some [3]) 1"
  obtain w fs where r: "qihse_wal_append io_good demo_wal demo_fs 7 1 QIHSE_WAL_OP_INSERT (Some [1, 2]) 2 (Some [3]) 1 = (1, w, fs)"
    and a: "wal_abs w fs [?e]" "\<not> writer_failed w" using demo_insert by blast
  have len: "length (encode_entry ?e) = 33"
    by (simp add: encode_entry_def appended_def arg_bytes_def opt_bytes_def)
  have size: "log_size fs = 33" using log_size_abs [OF a] len by simp
  have "4 \<le> length (file_bytes fs (newest fs))" using demo_insert_fs [OF r] len by simp
  from wal_reopen_after_crash [OF a(1) _ io_good(3,4) this, of 0 DURABILITY_FDATASYNC]
  obtain k where k: "k \<le> 1" "\<forall>j \<le> 1. length (log_bytes (take j [?e])) + 4 \<le> log_size fs \<longleftrightarrow> j \<le> k"
    "if log_size fs - 4 - length (log_bytes (take k [?e])) < QIHSE_WAL_RECORD_HEADER_SIZE
     then \<exists>w' fs'. qihse_wal_create io_good io_good (crash fs (newest fs) 4) 0 DURABILITY_FDATASYNC = (Some w', fs') \<and>
            wal_abs w' fs' (take k [?e]) \<and> next_lsn w' = last_lsn 0 (take k [?e]) + 1 \<and>
            last_checkpoint_lsn w' = checkpoint_of 0 (take k [?e]) \<and> seg_fd w' \<and> \<not> writer_failed w'
     else qihse_wal_create io_good io_good (crash fs (newest fs) 4) 0 DURABILITY_FDATASYNC = (None, crash fs (newest fs) 4)"
    by (auto simp: appended_def UINT64_MAX_def)
  from k(2) [rule_format, of 1] k(1) len size have "k = 0" by simp
  with k(3) size r show ?thesis by (auto simp: QIHSE_WAL_RECORD_HEADER_SIZE_def)
qed


text \<open>
  C19: a checkpoint never loses a record it must keep, whatever the I/O calls do. This holds for the
  whole call and for its second locked section alone, on whatever log other threads left after the
  validation. The records from the checkpoint LSN on stay in the log; a failed call leaves the handle as it was; after a successful
  call every older segment that is still there holds a record at or after the checkpoint LSN.
\<close>
theorem wal_checkpoint_keeps_tail:
  assumes "wal_abs w fs log"
    and "qihse_wal_checkpoint io_val io w fs target = (rc, w', fs') \<or> checkpoint_section io w fs target = (rc, w', fs')"
  shows "\<exists>log'. wal_abs w' fs' log' \<and> log_from target log' = log_from target log \<and> set log' \<subseteq> set log \<and>
    next_lsn w' = next_lsn w \<and> (rc \<noteq> 0 \<longrightarrow> w' = w) \<and>
    (rc = 0 \<longrightarrow> w' = w\<lparr>last_checkpoint_lsn := target\<rparr> \<and> (\<forall>i. files fs' i \<noteq> None \<and> i < seg_index w \<longrightarrow>
      (\<exists>l. segment_last_lsn (\<lambda>_. True) 0 (file_bytes fs' i) 0 = Some l \<and> target \<le> l)))"
  using assms(2) checkpoint_abs [OF assms(1)] section_abs [OF assms(1)] by blast

theorem wal_checkpoint_keeps_tail_witness:
  "\<exists>w1 fs1 w2 fs2 log. qihse_wal_append_checkpoint io_good demo_wal demo_fs 1 = (1, w1, fs1) \<and>
     qihse_wal_checkpoint io_good io_good w1 fs1 1 = (0, w2, fs2) \<and>
     wal_abs w2 fs2 log \<and> log_from 1 log = [marker 1 1] \<and> last_checkpoint_lsn w2 = 1"
proof -
  obtain w1 fs1 where m: "qihse_wal_append_checkpoint io_good demo_wal demo_fs 1 = (1, w1, fs1)"
      "marker_lsn w1 = 1" "marker_target w1 = 1" "last_checkpoint_lsn w1 = 0" "next_lsn w1 = 2"
    using append_marker [OF demo_writable io_good(2), of 1 demo_fs] by auto
  have a: "wal_abs w1 fs1 [marker 1 1]" "\<not> writer_failed w1" "seg_fd w1"
    using append_marker_log [OF demo_abs, of 1 io_good w1 fs1] m(1) by (simp_all add: UINT64_MAX_def)
  obtain rc w2 fs2 where c: "qihse_wal_checkpoint io_good io_good w1 fs1 1 = (rc, w2, fs2)" by (metis prod_cases3)
  have "rc = 0" using checkpoint_succeeds [OF a(1,3,2) io_good(1,5), of 1] m c by (simp add: word_less_nat_alt)
  moreover from this wal_checkpoint_keeps_tail [OF a(1) disjI1, OF c] obtain log' where
    "wal_abs w2 fs2 log'" "log_from 1 log' = log_from 1 [marker 1 1]" "w2 = w1\<lparr>last_checkpoint_lsn := 1\<rparr>" by blast
  moreover from this(3) have "last_checkpoint_lsn w2 = 1" by simp
  moreover have "log_from 1 [marker 1 1] = [marker 1 1]" by (simp add: marker_def appended_def)
  ultimately show ?thesis using m(1) c by metis
qed

text \<open>
  A checkpoint can be taken. On a usable log, when the I/O calls succeed, appending a
  marker for any LSN between the last checkpoint and the next LSN and then running the checkpoint for it both
  succeed; the log afterwards ends in the marker, and replay from the checkpoint LSN delivers the same
  records as before and the marker.
\<close>
lemma checkpoint_then_replay:
  assumes "wal_abs w fs log" "writable w" "seg_index w \<noteq> UINT64_MAX" "target \<noteq> 0" "target \<le> next_lsn w"
    and "last_checkpoint_lsn w \<le> target" "io_writes io" "io_reads io1" "io_prunes io2" "io_reads io3"
  shows "\<exists>w1 fs1 w2 fs2. qihse_wal_append_checkpoint io w fs target = (next_lsn w, w1, fs1) \<and>
    qihse_wal_checkpoint io1 io2 w1 fs1 target = (0, w2, fs2) \<and> last_checkpoint_lsn w2 = target \<and>
    snd (snd (snd (qihse_wal_replay io3 w2 fs2 target collect []))) = log_from target log @ [marker (next_lsn w) target]"
proof -
  obtain w1 fs1 w2 fs2 log' where c: "qihse_wal_append_checkpoint io w fs target = (next_lsn w, w1, fs1)"
      "qihse_wal_checkpoint io1 io2 w1 fs1 target = (0, w2, fs2)" "last_checkpoint_lsn w2 = target"
      "wal_abs w2 fs2 log'" "\<not> writer_failed w2" "seg_fd w2"
      "log_from target log' = log_from target log @ [marker (next_lsn w) target]"
    using checkpoint_cycle [OF assms(1-9)] by blast
  from replay_abs [OF c(4-6) assms(10), of target collect "[]"] c show ?thesis by (simp add: deliver_collect)
qed

text \<open>
  C28: a short write fences the handle. When the system accepts some but not all bytes of a
  record, be it the next one of the current segment, the first one of a new segment or one that is
  larger than a segment (a change of segment that is due before the write succeeds, or nothing
  is written), the append fails, and from then on every append, flush, replay and checkpoint on the handle
  fails and leaves both the handle and the files unchanged.
\<close>
theorem wal_short_write_fences:
  assumes "writable w" "record_shape_valid t eng op klen vlen" "args_ok key klen" "args_ok value vlen"
    and "seg_offset w + 30 + unat klen + unat vlen \<le> segment_size w \<or> seg_offset w = 0 \<or> fst (seg_rotate io w fs) = 0"
    and "io_write io = Some k" "0 < k" "k < 30 + unat klen + unat vlen"
    and "wal_append_raw io w fs t eng op key klen value vlen = (lsn, w', fs')"
  shows "lsn = 0 \<and> writer_failed w' \<and>
    wal_append_raw io2 w' fs' t2 eng2 op2 key2 klen2 value2 vlen2 = (0, w', fs') \<and> qihse_wal_flush io2 w' = -1 \<and>
    qihse_wal_replay io2 w' fs' start cb u = (-1, w', fs', u) \<and> qihse_wal_checkpoint io2 io3 w' fs' target = (-1, w', fs')"
proof -
  have len: "length (opt_bytes (arg_bytes key klen)) = unat klen" "length (opt_bytes (arg_bytes value vlen)) = unat vlen"
    using length_opt_bytes [OF args_payload] assms(3,4) by blast+
  have guard: "\<not> (writer_failed w \<or> \<not> seg_fd w \<or> \<not> record_shape_valid t eng op klen vlen \<or>
         (klen \<noteq> 0 \<and> key = None) \<or> (vlen \<noteq> 0 \<and> value = None) \<or> next_lsn w = UINT64_MAX)"
    using assms(1-4) by (auto simp: writable_def args_ok_def)
  obtain rc w1 fs1 where rot: "seg_rotate io w fs = (rc, w1, fs1)" by (metis prod_cases3)
  have "\<exists>w0 fs0. write_record io w0 fs0 t eng op key klen value vlen = (lsn, w', fs')"
    using assms(5,9) unfolding wal_append_raw_def Let_def if_not_P [OF guard] rot
    by (auto simp: QIHSE_WAL_RECORD_HEADER_SIZE_def split: if_splits)
  then have "lsn = 0 \<and> writer_failed w'"
    using assms(6-8) by (auto simp: write_record_def Let_def len)
  then show ?thesis
    by (simp add: fenced_append fenced_replay qihse_wal_flush_def qihse_wal_checkpoint_def)
qed

theorem wal_short_write_fences_witness:
  "\<exists>w fs. wal_append_raw (io_good\<lparr>io_write := Some 10\<rparr>) demo_wal demo_fs 7 0 QIHSE_WAL_OP_BEGIN None 0 None 0 = (0, w, fs) \<and>
     writer_failed w \<and> wal_append_raw io_good w fs 7 0 QIHSE_WAL_OP_COMMIT None 0 None 0 = (0, w, fs)"
proof -
  obtain lsn w fs where r: "wal_append_raw (io_good\<lparr>io_write := Some 10\<rparr>) demo_wal demo_fs 7 0 QIHSE_WAL_OP_BEGIN None 0 None 0 = (lsn, w, fs)"
    by (metis prod_cases3)
  have s: "record_shape_valid 7 0 QIHSE_WAL_OP_BEGIN 0 0"
    by (simp add: record_shape_valid_def wal_ops)
  have "lsn = 0 \<and> writer_failed w \<and> wal_append_raw io_good w fs 7 0 QIHSE_WAL_OP_COMMIT None 0 None 0 = (0, w, fs)"
    using wal_short_write_fences [OF demo_writable s _ _ _ _ _ _ r, of 10 io_good 7 0 QIHSE_WAL_OP_COMMIT None 0 None 0
        0 validate_record "()" io_good 1]
    by (simp add: args_ok_def)
  with r show ?thesis by blast
qed

text \<open>
  C30: damage to a stored record is detected. When up to four consecutive bytes of the key
  of a valid record are changed, replay rejects the segment at that record and delivers nothing more.
\<close>
theorem wal_damaged_key_rejected:
  assumes "entry_ok (r, Some (xs @ b @ ys), v)" "length b' = length b" "length b \<le> 4" "b' \<noteq> b"
  shows "replay_segment rd start cb pos (pack_header r @ (xs @ b' @ ys) @ opt_bytes v @ rest) st = (SegFail, st)"
proof -
  have ok: "payload_ok (rec_key_length r) (Some (xs @ b' @ ys))" "payload_ok (rec_value_length r) v"
    "record_crc r (Some (xs @ b @ ys)) v = rec_checksum r" "0 < rec_key_length r"
    using assms(1,2) by (auto simp: entry_ok_def payload_ok_def)
  have "qihse_wal_crc32 (Some (xs @ b @ ys)) \<noteq> qihse_wal_crc32 (Some (xs @ b' @ ys))"
    using crc32_burst [of b b' xs ys] assms(2-4) by auto
  then have "record_crc r (Some (xs @ b' @ ys)) v \<noteq> record_crc r (Some (xs @ b @ ys)) v"
    using ok(4) by (simp add: record_crc_def xor_left_cancel xor_right_cancel)
  then have "\<not> entry_ok (r, Some (xs @ b' @ ys), v)" using ok(3) by (simp add: entry_ok_def)
  from replay_corrupt [OF ok(1,2) this, of rd start cb pos rest st] show ?thesis by (simp add: opt_bytes_def)
qed


theorem wal_damaged_key_rejected_witness:
  "\<exists>r. entry_ok (r, Some [1, 2], Some [3]) \<and>
     replay_segment (\<lambda>_. True) 0 collect 0 (pack_header r @ [1, 9] @ [3] @ []) (0, 0, []) = (SegFail, 0, 0, [])"
proof -
  let ?e = "appended 1 7 1 QIHSE_WAL_OP_INSERT (Some [1, 2]) 2 (Some [3]) 1"
  have "entry_ok ?e"
    by (rule appended_ok) (simp_all add: record_shape_valid_def wal_ops QIHSE_WAL_MAX_KEY_def
        QIHSE_WAL_MAX_VALUE_def args_ok_def target_ok_def)
  then have "entry_ok (fst ?e, Some ([1] @ [2] @ []), Some [3])" by (simp add: appended_def arg_bytes_def)
  from this wal_damaged_key_rejected [OF this, of "[9]" "\<lambda>_. True" 0 collect 0 "[]" "(0, 0, [])"] show ?thesis
    by (intro exI [of _ "fst ?e"] conjI) (simp_all add: opt_bytes_def)
qed

text \<open>
  C35: with synchronous durability, an append whose sync fails returns 0, which means failure, but the
  complete record is in the log, the handle stays usable, and replay delivers the record.
\<close>
theorem wal_failed_sync_record_stays:
  assumes "wal_abs w fs log" "writable w" "seg_index w \<noteq> UINT64_MAX" "durability w = DURABILITY_FDATASYNC"
    and "io_writes io" "io_reads io'" "record_shape_valid t eng op klen vlen" "op \<noteq> QIHSE_WAL_OP_CHECKPOINT"
    and "args_ok key klen" "args_ok value vlen"
  shows "\<exists>w' fs'. qihse_wal_append (io\<lparr>io_sync := False\<rparr>) w fs t eng op key klen value vlen = (0, w', fs') \<and>
    qihse_wal_replay io' w' fs' 0 collect [] =
      (int (length log) + 1, w', fs', log @ [appended (next_lsn w) t eng op key klen value vlen])"
proof -
  obtain w' fs' where r: "qihse_wal_append io w fs t eng op key klen value vlen = (next_lsn w, w', fs')"
    "qihse_wal_replay io' w' fs' 0 collect [] =
      (int (length log) + 1, w', fs', log @ [appended (next_lsn w) t eng op key klen value vlen])"
    using append_replay [OF assms(1-3,5-10)] by blast
  moreover have "io_sync io" using assms(5) by (simp add: io_writes_def)
  ultimately show ?thesis
    using append_raw_nosync [OF assms(4,8), of io fs t eng key klen "value" vlen] assms(8)
    by (simp add: qihse_wal_append_def)
qed

theorem wal_failed_sync_record_stays_witness:
  "\<exists>w fs. qihse_wal_append (io_good\<lparr>io_sync := False\<rparr>) demo_wal demo_fs 7 1 QIHSE_WAL_OP_INSERT (Some [1, 2]) 2 (Some [3]) 1 = (0, w, fs) \<and>
     qihse_wal_replay io_good w fs 0 collect [] =
       (1, w, fs, [appended 1 7 1 QIHSE_WAL_OP_INSERT (Some [1, 2]) 2 (Some [3]) 1])"
  using wal_failed_sync_record_stays [OF demo_abs demo_writable _ _ io_good(2,1), of 7 1 QIHSE_WAL_OP_INSERT 2 1 "Some [1, 2]" "Some [3]"]
  by (simp add: args_ok_def UINT64_MAX_def record_shape_valid_def wal_ops QIHSE_WAL_MAX_KEY_def QIHSE_WAL_MAX_VALUE_def)

text \<open>
  The checksum of a record does not protect the split of the payload into key and value when both
  have the same length: it combines separate checksums by exclusive or, so a valid record whose key and
  value are exchanged is still valid, and replay delivers the exchanged record.
\<close>
lemma swapped_payload_accepted:
  assumes "entry_ok (r, Some k, Some v)" "length k = length v" "ucast (rec_op_type r) = QIHSE_WAL_OP_INSERT"
  shows "replay_segment (\<lambda>_. True) 0 collect 0 (pack_header r @ v @ k) (0, 0, []) =
    (SegDone, rec_lsn r, 1, [(r, Some v, Some k)])"
proof -
  have "rec_key_length r = rec_value_length r"
    using assms(1,2) by (auto simp: entry_ok_def payload_ok_def word_unat_eq_iff)
  moreover have "record_crc r (Some v) (Some k) = record_crc r (Some k) (Some v)"
    using calculation by (simp add: record_crc_def ac_simps)
  ultimately have ok: "entry_ok (r, Some v, Some k)"
    using assms by (auto simp: entry_ok_def payload_ok_def checkpoint_bad_def wal_ops)
  have "0 < rec_lsn r" using assms(1) by (auto simp: entry_ok_def word_neq_0_conv)
  with ok replay_segment_log [of "[(r, Some v, Some k)]" 0 "\<lambda>_. True" 0 collect 0 "[]" True 1 "[(r, Some v, Some k)]" 0 "[]"]
  show ?thesis by (simp add: collect_def encode_entry_def opt_bytes_def)
qed

end
