(* ===== verification/Recovery.thy ===== *)
theory Recovery
  imports Mvcc Txn WalProps
begin

section \<open>Crash recovery\<close>

text \<open>
  Model of \<^verbatim>\<open>src/tractable/qihse_recovery.c\<close>. Recovery replays the log from the last
  checkpoint into a table of transactions and a list of mutations (analysis), registers every
  transaction of the table in the transaction manager, and applies the mutations of committed
  transactions to the version store (redo). The checkpoint flushes the engines, appends a marker
  and lets the log drop old segments.

  Conventions. The dynamic arrays are lists of their used part with their capacity; the record
  \<open>rec_env\<close> says whether growing an array to a capacity, or the allocation for an element,
  succeeds. The arrays of the recovery handle are grown without a check of the result: a failure
  there is a write through a null pointer, the value \<open>None\<close> of the model.
\<close>

record rec_analysis =
  an_txns :: "(u64 \<times> int) list"
  an_txn_capacity :: int
  an_records :: "wal_entry list"
  an_record_capacity :: int

record rec_ctx =
  ctx_analysis :: rec_analysis
  ctx_failed :: bool

record recovery =
  committed_txns :: "u64 list"
  committed_capacity :: int
  aborted_txns :: "u64 list"
  aborted_capacity :: int

record rec_env =
  grow_txns :: "int \<Rightarrow> bool"
  grow_records :: "int \<Rightarrow> bool"
  alloc_rec_key :: "nat \<Rightarrow> bool"
  alloc_rec_value :: "nat \<Rightarrow> bool"
  grow_committed :: "int \<Rightarrow> bool"
  grow_aborted :: "int \<Rightarrow> bool"
  register_env :: "nat \<Rightarrow> txn_env"
  redo_alloc :: "nat \<Rightarrow> mvcc_alloc"

subsection \<open>Analysis\<close>

primrec find_txn_from :: "nat \<Rightarrow> (u64 \<times> int) list \<Rightarrow> u64 \<Rightarrow> int" where
  "find_txn_from i [] t = -1"
| "find_txn_from i (x # xs) t = (if fst x = t then int i else find_txn_from (Suc i) xs t)"

definition analysis_find_txn :: "rec_analysis \<Rightarrow> u64 \<Rightarrow> int" where
  "analysis_find_txn a t = find_txn_from 0 (an_txns a) t"

definition analysis_add_txn :: "rec_env \<Rightarrow> rec_analysis \<Rightarrow> u64 \<Rightarrow> int \<times> rec_analysis" where
  "analysis_add_txn env a t =
     (let idx = analysis_find_txn a t in
      if idx \<ge> 0 then (idx, a)
      else
        let count = int (length (an_txns a));
            new_cap = (if an_txn_capacity a = 0 then 64 else an_txn_capacity a * 2)
        in
          if count \<ge> an_txn_capacity a \<and> \<not> grow_txns env new_cap then (-1, a)
          else
            (count,
             a\<lparr>an_txn_capacity := (if count \<ge> an_txn_capacity a then new_cap else an_txn_capacity a),
               an_txns := an_txns a @ [(t, 0)]\<rparr>))"

definition set_status :: "rec_analysis \<Rightarrow> int \<Rightarrow> int \<Rightarrow> rec_analysis" where
  "set_status a idx s =
     a\<lparr>an_txns := (an_txns a)[nat idx := (fst (an_txns a ! nat idx), s)]\<rparr>"

definition analysis_add_record ::
    "rec_env \<Rightarrow> rec_analysis \<Rightarrow> wal_record \<Rightarrow> bytes option \<Rightarrow> bytes option \<Rightarrow> int \<times> rec_analysis" where
  "analysis_add_record env a r key val =
     (let count = int (length (an_records a));
          new_cap = (if an_record_capacity a = 0 then 128 else an_record_capacity a * 2);
          full = (count \<ge> an_record_capacity a)
      in
        if full \<and> \<not> grow_records env new_cap then (-1, a)
        else
          let a1 = a\<lparr>an_record_capacity := (if full then new_cap else an_record_capacity a)\<rparr>;
              idx = length (an_records a)
          in
            if rec_key_length r > 0 \<and> \<not> alloc_rec_key env idx then (-1, a1)
            else if rec_value_length r > 0 \<and> \<not> alloc_rec_value env idx then (-1, a1)
            else
              (0, a1\<lparr>an_records := an_records a @
                   [(r, if rec_key_length r > 0 then key else None,
                        if rec_value_length r > 0 then val else None)]\<rparr>))"

definition record_outcome :: "rec_env \<Rightarrow> rec_analysis \<Rightarrow> u64 \<Rightarrow> int \<Rightarrow> int \<times> rec_analysis" where
  "record_outcome env a t s =
     (let idx = analysis_find_txn a t in
      if idx \<ge> 0 then (0, set_status a idx s)
      else (case analysis_add_txn env a t of
              (i, a1) \<Rightarrow> if i \<ge> 0 then (0, set_status a1 i s) else (-1, a1)))"

definition recovery_replay_cb :: "rec_env \<Rightarrow> rec_ctx replay_cb" where
  "recovery_replay_cb env ctx r key val =
     (let a = ctx_analysis ctx;
          op = ucast (rec_op_type r) :: u32;
          t = rec_txn_id r;
          (rc, a') =
            (if op = QIHSE_WAL_OP_BEGIN then analysis_add_txn env a t
             else if op = QIHSE_WAL_OP_COMMIT then record_outcome env a t 1
             else if op = QIHSE_WAL_OP_ABORT then record_outcome env a t 2
             else if op = QIHSE_WAL_OP_INSERT \<or> op = QIHSE_WAL_OP_UPDATE \<or> op = QIHSE_WAL_OP_DELETE
             then
               (case (if t > 0 then analysis_add_txn env a t else (0, a)) of
                  (i, a1) \<Rightarrow> if i < 0 then (-1, a1) else analysis_add_record env a1 r key val)
             else (0, a));
          failed = (ctx_failed ctx \<or> rc < 0)
      in (\<not> failed, ctx\<lparr>ctx_analysis := a', ctx_failed := failed\<rparr>))"

subsection \<open>Registration and redo\<close>

definition qihse_recovery_create :: "bool \<Rightarrow> bool \<Rightarrow> recovery option" where
  "qihse_recovery_create args_present ok_alloc =
     (if \<not> args_present then None
      else if \<not> ok_alloc then None
      else Some \<lparr>committed_txns = [], committed_capacity = 0, aborted_txns = [], aborted_capacity = 0\<rparr>)"

definition rec_add_committed :: "rec_env \<Rightarrow> recovery \<Rightarrow> u64 \<Rightarrow> recovery option" where
  "rec_add_committed env rec t =
     (let full = (int (length (committed_txns rec)) \<ge> committed_capacity rec);
          new_cap = (if committed_capacity rec = 0 then 64 else committed_capacity rec * 2)
      in
        if full \<and> \<not> grow_committed env new_cap then None
        else Some (rec\<lparr>committed_capacity := (if full then new_cap else committed_capacity rec),
                       committed_txns := committed_txns rec @ [t]\<rparr>))"

definition rec_add_aborted :: "rec_env \<Rightarrow> recovery \<Rightarrow> u64 \<Rightarrow> recovery option" where
  "rec_add_aborted env rec t =
     (let full = (int (length (aborted_txns rec)) \<ge> aborted_capacity rec);
          new_cap = (if aborted_capacity rec = 0 then 64 else aborted_capacity rec * 2)
      in
        if full \<and> \<not> grow_aborted env new_cap then None
        else Some (rec\<lparr>aborted_capacity := (if full then new_cap else aborted_capacity rec),
                       aborted_txns := aborted_txns rec @ [t]\<rparr>))"

primrec register_loop ::
    "rec_env \<Rightarrow> nat \<Rightarrow> (u64 \<times> int) list \<Rightarrow> recovery \<Rightarrow> txn_manager \<Rightarrow> (recovery \<times> txn_manager) option" where
  "register_loop env i [] rec m = Some (rec, m)"
| "register_loop env i (x # xs) rec m =
     (if snd x = 1
      then (case rec_add_committed env rec (fst x) of
              None \<Rightarrow> None
            | Some rec' \<Rightarrow>
                register_loop env (Suc i) xs rec' (qihse_txn_register_committed (register_env env i) m (fst x)))
      else (case rec_add_aborted env rec (fst x) of
              None \<Rightarrow> None
            | Some rec' \<Rightarrow>
                register_loop env (Suc i) xs rec' (qihse_txn_register_aborted (register_env env i) m (fst x))))"

definition redo_record :: "mvcc_alloc \<Rightarrow> mvcc_store \<Rightarrow> wal_entry \<Rightarrow> mvcc_store" where
  "redo_record al st e =
     (case e of (r, key, val) \<Rightarrow>
        let op = ucast (rec_op_type r) :: u32 in
        if op = QIHSE_WAL_OP_INSERT then snd (qihse_mvcc_insert al st (rec_engine_id r) key val (rec_txn_id r))
        else if op = QIHSE_WAL_OP_UPDATE then snd (qihse_mvcc_update al st (rec_engine_id r) key val (rec_txn_id r))
        else if op = QIHSE_WAL_OP_DELETE then snd (qihse_mvcc_delete al st (rec_engine_id r) key (rec_txn_id r))
        else st)"

primrec redo_loop :: "rec_env \<Rightarrow> rec_analysis \<Rightarrow> nat \<Rightarrow> wal_entry list \<Rightarrow> mvcc_store \<Rightarrow> mvcc_store" where
  "redo_loop env a i [] st = st"
| "redo_loop env a i (e # es) st =
     (let idx = analysis_find_txn a (rec_txn_id (fst e)) in
      redo_loop env a (Suc i) es
        (if idx < 0 then st
         else if snd (an_txns a ! nat idx) \<noteq> 1 then st
         else redo_record (redo_alloc env i) st e))"

definition analysis_empty :: rec_analysis where
  "analysis_empty = \<lparr>an_txns = [], an_txn_capacity = 0, an_records = [], an_record_capacity = 0\<rparr>"

definition qihse_recovery_replay ::
    "rec_env \<Rightarrow> wal_io \<Rightarrow> recovery \<Rightarrow> wal \<Rightarrow> wal_fs \<Rightarrow> txn_manager \<Rightarrow> mvcc_store \<Rightarrow>
     (int \<times> recovery \<times> wal \<times> wal_fs \<times> txn_manager \<times> mvcc_store) option" where
  "qihse_recovery_replay env io rec w fs m st =
     (case qihse_wal_replay io w fs (qihse_wal_last_checkpoint w) (recovery_replay_cb env)
             \<lparr>ctx_analysis = analysis_empty, ctx_failed = False\<rparr> of
        (n_replayed, w1, fs1, ctx) \<Rightarrow>
          if n_replayed < 0 \<or> ctx_failed ctx then Some (-1, rec, w1, fs1, m, st)
          else
            let a = ctx_analysis ctx in
            (case register_loop env 0 (an_txns a) rec m of
               None \<Rightarrow> None
             | Some (rec', m') \<Rightarrow> Some (0, rec', w1, fs1, m', redo_loop env a 0 (an_records a) st)))"

subsection \<open>Checkpoint and inspection\<close>

text \<open>
  The flush callback is an optional return code. The I/O outcomes of the two flushes, of the
  append and of the two parts of the log's checkpoint are the five arguments in front.
\<close>

definition qihse_recovery_checkpoint ::
    "wal_io \<Rightarrow> wal_io \<Rightarrow> wal_io \<Rightarrow> wal_io \<Rightarrow> wal_io \<Rightarrow> int option \<Rightarrow> wal \<Rightarrow> wal_fs \<Rightarrow> int \<times> wal \<times> wal_fs" where
  "qihse_recovery_checkpoint io1 io2 io3 io4 io5 flush_rc w fs =
     (if flush_rc \<noteq> None \<and> flush_rc \<noteq> Some 0 then (the flush_rc, w, fs)
      else if qihse_wal_flush io1 w \<noteq> 0 then (-1, w, fs)
      else
        let lsn = qihse_wal_current_lsn w in
        (case qihse_wal_append_checkpoint io2 w fs lsn of
           (mlsn, w1, fs1) \<Rightarrow>
             if mlsn = 0 \<or> qihse_wal_flush io3 w1 \<noteq> 0 then (-1, w1, fs1)
             else qihse_wal_checkpoint io4 io5 w1 fs1 lsn))"

definition qihse_recovery_txn_committed :: "recovery \<Rightarrow> u64 \<Rightarrow> bool" where
  "qihse_recovery_txn_committed rec t = list_ex (\<lambda>x. x = t) (committed_txns rec)"

definition qihse_recovery_txn_aborted :: "recovery \<Rightarrow> u64 \<Rightarrow> bool" where
  "qihse_recovery_txn_aborted rec t = list_ex (\<lambda>x. x = t) (aborted_txns rec)"

definition qihse_recovery_committed_count :: "recovery \<Rightarrow> int" where
  "qihse_recovery_committed_count rec = int (length (committed_txns rec))"

definition qihse_recovery_aborted_count :: "recovery \<Rightarrow> int" where
  "qihse_recovery_aborted_count rec = int (length (aborted_txns rec))"

end
