(* ===== verification/RecoveryProps.thy ===== *)
theory RecoveryProps
  imports Recovery
begin

section \<open>What recovery restores\<close>

text \<open>
  The specification of recovery and its proof: the key-value state that a sequence of writes
  denotes and that the version store returns after redoing them, the analysis of a log, the registration
  of outcomes, and the properties of \<open>qihse_recovery_replay\<close> and \<open>qihse_recovery_checkpoint\<close>.
\<close>

subsection \<open>The key-value state that a sequence of writes denotes\<close>

type_synonym kv_state = "u8 \<Rightarrow> bytes \<Rightarrow> bytes option"

text \<open>A logged mutation without a key is one of the empty key: the log stores its length, which is 0.\<close>

fun kv_write :: "mvcc_op \<Rightarrow> kv_state \<Rightarrow> kv_state" where
  "kv_write (MInsert e key v) M = M(e := (M e)(opt_bytes key \<mapsto> value_bytes v))"
| "kv_write (MUpdate e key v) M = M(e := (M e)(opt_bytes key \<mapsto> value_bytes v))"
| "kv_write (MDelete e key) M = M(e := (M e)(opt_bytes key := None))"

definition kv_run :: "(u64 \<times> mvcc_op) list \<Rightarrow> kv_state" where
  "kv_run ws = fold (\<lambda>w. kv_write (snd w)) ws (\<lambda>_ _. None)"

fun op_target :: "mvcc_op \<Rightarrow> (u8 \<times> bytes) option" where
  "op_target (MInsert e k v) = map_option (Pair e) k"
| "op_target (MUpdate e k v) = map_option (Pair e) k"
| "op_target (MDelete e k) = map_option (Pair e) k"

fun is_mdelete :: "mvcc_op \<Rightarrow> bool" where
  "is_mdelete (MDelete e k) = True"
| "is_mdelete _ = False"

definition writers :: "(u64 \<times> mvcc_op) list \<Rightarrow> u8 \<Rightarrow> bytes \<Rightarrow> u64 set" where
  "writers ws e k = fst ` {w \<in> set ws. op_target (snd w) = Some (e, k)}"

text \<open>
  A delete comes after every writer of its key in the order of transaction numbers. The store
  resolves a delete by these numbers, so only such a delete removes every earlier write.
\<close>

definition deletes_ordered :: "(u64 \<times> mvcc_op) list \<Rightarrow> bool" where
  "deletes_ordered ws =
     sorted_wrt (\<lambda>a b. is_mdelete (snd b) \<and> op_target (snd a) = op_target (snd b) \<longrightarrow> fst a \<le> fst b) ws"

definition redo_run :: "mvcc_store \<Rightarrow> (u64 \<times> mvcc_op) list \<Rightarrow> mvcc_store" where
  "redo_run st ws = mvcc_run st (map (\<lambda>w. (alloc_ok, w)) ws)"

lemma redo_run_simps [simp]:
  "redo_run st [] = st" "redo_run st (ws @ [w]) = snd (mvcc_apply alloc_ok (redo_run st ws) (fst w) (snd w))"
  by (simp_all add: redo_run_def mvcc_run_append)

lemma redo_run_inv [inv_intros]: "mvcc_inv st \<Longrightarrow> mvcc_inv (redo_run st ws)"
  by (simp add: redo_run_def mvcc_run_inv)

lemma kv_run_snoc [simp]: "kv_run [] = (\<lambda>_ _. None)" "kv_run (ws @ [w]) = kv_write (snd w) (kv_run ws)"
  by (simp_all add: kv_run_def)

lemma version_create_ok: "\<exists>v. version_create alloc_ok t val = Some v"
  by (auto simp: version_create_def alloc_ok_def split: option.splits)

lemma insert_ok: "length k < QIHSE_MVCC_MAX_KEY \<Longrightarrow> fst (qihse_mvcc_insert alloc_ok st e (Some k) val t) = 0"
  using version_create_ok [of t val]
  by (auto simp: qihse_mvcc_insert_def row_create_def alloc_ok_def split: option.splits)

lemma update_ok: "length k < QIHSE_MVCC_MAX_KEY \<Longrightarrow> fst (qihse_mvcc_update alloc_ok st e (Some k) val t) = 0"
  using version_create_ok [of t val] insert_ok [of k st e val t]
  by (auto simp: qihse_mvcc_update_def update_section_def Let_def split: option.splits)

lemma delete_rc:
  "fst (qihse_mvcc_delete alloc_ok st e (Some k) t) = (if chain_of st e k = [] then -1 else 0)"
  using version_create_ok [of t None]
  by (auto simp: qihse_mvcc_delete_def chain_of_def split: option.splits)

text \<open>One write seen from one key, when allocations succeed.\<close>

lemma redo_chain:
  assumes inv: "mvcc_inv st" and k: "length k < QIHSE_MVCC_MAX_KEY"
  shows "chain_of (snd (mvcc_apply alloc_ok st t op)) e k =
    (if op_target op \<noteq> Some (e, k) then chain_of st e k
     else case op of
       MInsert _ _ val \<Rightarrow> the (version_create alloc_ok t val) # chain_of st e k
     | MUpdate _ _ val \<Rightarrow> the (version_create alloc_ok t val) # supersede t (chain_of st e k)
     | MDelete _ _ \<Rightarrow>
         if chain_of st e k = [] then []
         else \<lparr>xmin = t, xmax = QIHSE_MVCC_INVALID_XMAX, ver_value = [], is_delete = True, delete_snapshot = t\<rparr> #
                chain_of st e k)"
proof (cases op)
  case (MInsert e' key val)
  obtain rc st' where eq: "qihse_mvcc_insert alloc_ok st e' key val t = (rc, st')" by fastforce
  show ?thesis
  proof (cases "op_target op = Some (e, k)")
    case True
    then have key: "key = Some k" "e' = e" using MInsert by auto
    have "rc = 0" using insert_ok [OF k, of st e val t] eq key by simp
    with insert_effect [OF inv eq] MInsert eq key True show ?thesis by auto
  next
    case False
    with insert_effect [OF inv eq] MInsert eq show ?thesis by (auto split: if_splits)
  qed
next
  case (MUpdate e' key val)
  obtain rc st' where eq: "qihse_mvcc_update alloc_ok st e' key val t = (rc, st')" by fastforce
  show ?thesis
  proof (cases "\<exists>k'. key = Some k' \<and> length k' < QIHSE_MVCC_MAX_KEY")
    case True
    then obtain k' where k': "key = Some k'" "length k' < QIHSE_MVCC_MAX_KEY" by blast
    have "rc = 0" using update_ok [OF k'(2), of st e' val t] eq k'(1) by simp
    with update_effect [OF inv eq] MUpdate eq k'(1) show ?thesis by (auto split: if_splits)
  next
    case False
    then have "st' = st" using eq by (auto simp: qihse_mvcc_update_def split: option.splits)
    with False MUpdate eq k show ?thesis by auto
  qed
next
  case (MDelete e' key)
  show ?thesis
  proof (cases "\<exists>k'. key = Some k' \<and> row_lookup st e' k' \<noteq> None \<and> chain_of st e' k' \<noteq> []")
    case True
    then obtain k' where k': "key = Some k'" "row_lookup st e' k' \<noteq> None" "chain_of st e' k' \<noteq> []" by blast
    let ?v = "\<lparr>xmin = t, xmax = QIHSE_MVCC_INVALID_XMAX, ver_value = [], is_delete = True, delete_snapshot = t\<rparr>"
    have "snd (mvcc_apply alloc_ok st t op) = row_push st e' k' ?v"
      using k' MDelete by (auto simp: qihse_mvcc_delete_def chain_of_def version_create_def alloc_ok_def row_push_def)
    with chain_of_push [OF inv k'(2), of ?v e k] MDelete k' show ?thesis by auto
  next
    case False
    then have "snd (mvcc_apply alloc_ok st t op) = st"
      using MDelete by (auto simp: qihse_mvcc_delete_def chain_of_def split: option.splits if_splits)
    with False MDelete show ?thesis by (auto simp: chain_of_def split: option.splits)
  qed
qed


definition chain_sound :: "u64 set \<Rightarrow> mvcc_version list \<Rightarrow> bool" where
  "chain_sound T c \<longleftrightarrow> (\<forall>v \<in> set c. xmin v \<in> T \<and> (xmax v = QIHSE_MVCC_INVALID_XMAX \<or> xmax v \<in> T))"

lemma chain_sound_mono: "chain_sound T c \<Longrightarrow> T \<subseteq> T' \<Longrightarrow> chain_sound T' c"
  unfolding chain_sound_def by blast

lemma chain_sound_supersede: "chain_sound T c \<Longrightarrow> chain_sound (Set.insert t T) (supersede t c)"
  unfolding chain_sound_def supersede_def by (induction c) auto

lemma writers_snoc:
  "writers (ws @ [w]) e k = (if op_target (snd w) = Some (e, k) then Set.insert (fst w) (writers ws e k) else writers ws e k)"
  by (auto simp: writers_def)

lemma created_version:
  "written_by t (the (version_create alloc_ok t val))" "\<not> is_delete (the (version_create alloc_ok t val))"
  "ver_value (the (version_create alloc_ok t val)) = value_bytes val"
  "xmin (the (version_create alloc_ok t val)) = t" "xmax (the (version_create alloc_ok t val)) = QIHSE_MVCC_INVALID_XMAX"
  using version_create_ok [of t val] version_create_written [of alloc_ok t val] version_create_Some [of alloc_ok t val]
  by auto

lemma redo_sound:
  assumes "chain_of st e k = []" "mvcc_inv st" "length k < QIHSE_MVCC_MAX_KEY"
  shows "chain_sound (writers ws e k) (chain_of (redo_run st ws) e k)"
proof (induction ws rule: rev_induct)
  case Nil
  then show ?case using assms(1) by (simp add: chain_sound_def)
next
  case (snoc w ws)
  let ?c = "chain_of (redo_run st ws) e k"
  note step = redo_chain [OF redo_run_inv [OF assms(2), of ws] assms(3), of "fst w" "snd w" e]
  have ins: "chain_sound (Set.insert (fst w) (writers ws e k)) ?c"
    using snoc by (rule chain_sound_mono) blast
  show ?case
    using snoc ins chain_sound_supersede [OF snoc, of "fst w"]
    by (auto simp: step writers_snoc chain_sound_def created_version split: mvcc_op.splits)
qed

lemma read_deleted_head:
  assumes "chain_sound T c" "\<forall>x \<in> T. x \<le> t" "\<forall>x \<in> Set.insert t T. x \<le> s \<and> cb_holds cb x"
    and p: "is_delete p" "xmin p = t" "delete_snapshot p = t"
  shows "read_from [] s cb (p # c) = None"
proof -
  have "\<not> (live_at c i s cb \<and> \<not> version_visible (c ! i) t cb)" if "i < length c" for i
  proof -
    have v: "xmin (c ! i) \<in> T" "xmax (c ! i) = QIHSE_MVCC_INVALID_XMAX \<or> xmax (c ! i) \<in> T"
      using assms(1) that by (auto simp: chain_sound_def)
    with assms(2,3) show ?thesis
      by (auto simp: live_at_def version_visible_def dest: leD)
  qed
  then have "find (\<lambda>i. live_at c i s cb \<and> \<not> version_visible (c ! i) t cb) [0 ..< length c] = None"
    by (auto simp: find_None_iff)
  with read_past_intent [OF p, of cb s "[]" c] assms(3) p(1) show ?thesis by simp
qed

lemma deletes_ordered_snoc:
  "deletes_ordered (ws @ [w]) \<Longrightarrow> deletes_ordered ws \<and>
     (is_mdelete (snd w) \<longrightarrow> (\<forall>e k. op_target (snd w) = Some (e, k) \<longrightarrow> (\<forall>t \<in> writers ws e k. t \<le> fst w)))"
  by (auto simp: deletes_ordered_def sorted_wrt_append writers_def)

lemma redo_read:
  assumes "chain_of st e k = []" "mvcc_inv st" "length k < QIHSE_MVCC_MAX_KEY" "deletes_ordered ws" "k \<noteq> []"
    and "\<forall>t \<in> writers ws e k. t \<le> s \<and> cb_holds cb t"
  shows "qihse_mvcc_read (redo_run st ws) e (Some k) s cb = kv_run ws e k"
  using assms(4,6)
proof (induction ws rule: rev_induct)
  case Nil
  then show ?case using assms(1) by (simp add: mvcc_read_chain)
next
  case (snoc w ws)
  note step = redo_chain [OF redo_run_inv [OF assms(2), of ws] assms(3), of "fst w" "snd w" e]
  note ord = deletes_ordered_snoc [OF snoc.prems(1)]
  have IH: "read_from [] s cb (chain_of (redo_run st ws) e k) = kv_run ws e k"
    using snoc.IH ord snoc.prems(2) by (simp add: mvcc_read_chain writers_snoc split: if_splits)
  show ?case
  proof (cases "op_target (snd w) = Some (e, k)")
    case False
    then have "kv_write (snd w) M e k = M e k" for M
      using assms(5) by (cases "(snd w, M)" rule: kv_write.cases) (auto simp: opt_bytes_def split: option.splits)
    with False IH show ?thesis by (simp add: mvcc_read_chain step)
  next
    case True
    then have w: "fst w \<le> s" "cb_holds cb (fst w)" using snoc.prems(2) by (simp_all add: writers_snoc)
    show ?thesis
    proof (cases "snd w")
      case (MInsert e' key val)
      with True show ?thesis
        unfolding mvcc_read_chain redo_run_simps(2) step
        by (auto simp: opt_bytes_def created_version(3) read_committed_head [OF created_version(1,2) w(2,1)] simp del: read_from.simps)
    next
      case (MUpdate e' key val)
      with True show ?thesis
        unfolding mvcc_read_chain redo_run_simps(2) step
        by (auto simp: opt_bytes_def created_version(3) read_committed_head [OF created_version(1,2) w(2,1)] simp del: read_from.simps)
    next
      case (MDelete e' key)
      have sound: "chain_sound (writers ws e k) (chain_of (redo_run st ws) e k)"
        by (rule redo_sound [OF assms(1-3)])
      have "\<forall>x \<in> writers ws e k. x \<le> fst w" using ord MDelete True by auto
      note none = read_deleted_head [OF sound this, of s cb]
      show ?thesis
        using MDelete True snoc.prems(2) unfolding mvcc_read_chain redo_run_simps(2) step
        by (auto simp: opt_bytes_def writers_snoc none simp del: read_from.simps(2))
    qed
  qed
qed


subsection \<open>Analysis\<close>

abbreviation entry_txn :: "wal_entry \<Rightarrow> u64" where
  "entry_txn e \<equiv> rec_txn_id (fst e)"

definition entry_op :: "wal_entry \<Rightarrow> u32" where
  "entry_op e = ucast (rec_op_type (fst e))"

definition is_mutation :: "wal_entry \<Rightarrow> bool" where
  "is_mutation e \<longleftrightarrow> entry_op e = QIHSE_WAL_OP_INSERT \<or> entry_op e = QIHSE_WAL_OP_UPDATE \<or> entry_op e = QIHSE_WAL_OP_DELETE"

text \<open>What the log says about a transaction: the last of its COMMIT and ABORT records decides.\<close>

definition is_outcome :: "u64 \<Rightarrow> wal_entry \<Rightarrow> bool" where
  "is_outcome t e \<longleftrightarrow> entry_txn e = t \<and> (entry_op e = QIHSE_WAL_OP_COMMIT \<or> entry_op e = QIHSE_WAL_OP_ABORT)"

definition committed_in :: "wal_entry list \<Rightarrow> u64 \<Rightarrow> bool" where
  "committed_in log t =
     (case find (is_outcome t) (rev log) of None \<Rightarrow> False | Some e \<Rightarrow> entry_op e = QIHSE_WAL_OP_COMMIT)"

definition mentions :: "u64 \<Rightarrow> wal_entry \<Rightarrow> bool" where
  "mentions t e \<longleftrightarrow> entry_txn e = t \<and>
     (entry_op e = QIHSE_WAL_OP_BEGIN \<or> entry_op e = QIHSE_WAL_OP_COMMIT \<or> entry_op e = QIHSE_WAL_OP_ABORT \<or>
      is_mutation e \<and> t > 0)"

definition env_ok :: "rec_env \<Rightarrow> bool" where
  "env_ok env \<longleftrightarrow> (\<forall>n. grow_txns env n \<and> grow_records env n \<and> grow_committed env n \<and> grow_aborted env n) \<and>
     (\<forall>i. alloc_rec_key env i \<and> alloc_rec_value env i \<and> ok_registry (register_env env i) \<and> redo_alloc env i = alloc_ok)"

definition tab_step :: "wal_entry \<Rightarrow> (u64 \<rightharpoonup> int) \<Rightarrow> (u64 \<rightharpoonup> int)" where
  "tab_step e T =
     (let t = entry_txn e in
      if entry_op e = QIHSE_WAL_OP_COMMIT then T(t \<mapsto> 1)
      else if entry_op e = QIHSE_WAL_OP_ABORT then T(t \<mapsto> 2)
      else if mentions t e \<and> T t = None then T(t \<mapsto> 0) else T)"

lemma find_txn_from:
  "find_txn_from i xs t = -1 \<and> map_of xs t = None \<or>
   (\<exists>j < length xs. find_txn_from i xs t = int (i + j) \<and> fst (xs ! j) = t \<and> map_of xs t = Some (snd (xs ! j)) \<and>
      (\<forall>s. map_of (xs[j := (t, s)]) = (map_of xs)(t \<mapsto> s)))"
proof (induction xs arbitrary: i)
  case (Cons x xs)
  show ?case
  proof (cases "fst x = t")
    case True
    then show ?thesis by (intro disjI2 exI [of _ 0]) (cases x, auto)
  next
    case False
    from Cons [of "Suc i"] show ?thesis
    proof (elim disjE exE conjE)
      fix j assume "j < length xs" "find_txn_from (Suc i) xs t = int (Suc i + j)" "fst (xs ! j) = t"
        "map_of xs t = Some (snd (xs ! j))" "\<forall>s. map_of (xs[j := (t, s)]) = (map_of xs)(t \<mapsto> s)"
      with False show ?thesis by (intro disjI2 exI [of _ "Suc j"]) (cases x, auto)
    qed (use False in auto)
  qed
qed simp

lemma find_txn_cases:
  obtains "analysis_find_txn a t = -1" "map_of (an_txns a) t = None"
  | j where "j < length (an_txns a)" "analysis_find_txn a t = int j" "fst (an_txns a ! j) = t"
      "map_of (an_txns a) t = Some (snd (an_txns a ! j))"
      "\<And>s. map_of ((an_txns a)[j := (t, s)]) = (map_of (an_txns a))(t \<mapsto> s)"
  using find_txn_from [of 0 "an_txns a" t] unfolding analysis_find_txn_def by auto

definition an_good :: "rec_analysis \<Rightarrow> bool" where
  "an_good a \<longleftrightarrow> distinct (map fst (an_txns a))"

lemma add_txn:
  assumes "env_ok env" "an_good a"
  shows "\<exists>i a'. analysis_add_txn env a t = (i, a') \<and> i \<ge> 0 \<and> an_good a' \<and> an_records a' = an_records a \<and>
    map_of (an_txns a') = (if map_of (an_txns a) t = None then (map_of (an_txns a))(t \<mapsto> 0) else map_of (an_txns a))"
proof (cases rule: find_txn_cases [of a t])
  case 1
  then have "t \<notin> set (map fst (an_txns a))" by (simp add: map_of_eq_None_iff)
  moreover have "map_of (an_txns a @ [(t, 0)]) = (map_of (an_txns a))(t \<mapsto> 0)"
    using 1(2) by (auto simp: map_add_def fun_eq_iff split: option.splits)
  ultimately show ?thesis
    using 1 assms by (auto simp: analysis_add_txn_def Let_def env_ok_def an_good_def)
next
  case (2 j)
  then show ?thesis using assms by (auto simp: analysis_add_txn_def Let_def)
qed

lemma record_outcome_ok:
  assumes "env_ok env" "an_good a"
  shows "\<exists>a'. record_outcome env a t s = (0, a') \<and> an_good a' \<and> an_records a' = an_records a \<and>
    map_of (an_txns a') = (map_of (an_txns a))(t \<mapsto> s)"
proof (cases rule: find_txn_cases [of a t])
  case 1
  then have "t \<notin> set (map fst (an_txns a))" by (simp add: map_of_eq_None_iff)
  moreover have "map_of (an_txns a @ [(t, s)]) = (map_of (an_txns a))(t \<mapsto> s)"
    using 1(2) by (auto simp: map_add_def fun_eq_iff split: option.splits)
  ultimately show ?thesis
    using 1 assms
    by (auto simp: record_outcome_def analysis_add_txn_def set_status_def Let_def env_ok_def an_good_def list_update_append)
next
  case (2 j)
  have "map fst ((an_txns a)[j := (t, s)]) = map fst (an_txns a)"
    using 2(1,3) by (simp add: map_update list_update_same_conv)
  with 2 assms show ?thesis
    by (simp add: record_outcome_def set_status_def Let_def an_good_def)
qed

lemma tab_step_outcome:
  "tab_step e T t = Some 1 \<longleftrightarrow> (if is_outcome t e then entry_op e = QIHSE_WAL_OP_COMMIT else T t = Some 1)"
  by (auto simp: tab_step_def is_outcome_def Let_def wal_ops)

lemma tab_committed: "fold tab_step es Map.empty t = Some 1 \<longleftrightarrow> committed_in es t"
  by (induction es rule: rev_induct) (simp_all add: committed_in_def tab_step_outcome)

lemma tab_mentioned: "fold tab_step es Map.empty t \<noteq> None \<longleftrightarrow> (\<exists>e \<in> set es. mentions t e)"
proof (induction es rule: rev_induct)
  case (snoc e es)
  have "tab_step e T t \<noteq> None \<longleftrightarrow> T t \<noteq> None \<or> mentions t e" for T
    by (auto simp: tab_step_def Let_def mentions_def)
  with snoc show ?case by auto
qed simp

lemma add_record:
  assumes "env_ok env" "entry_ok (r, k, v)"
  shows "\<exists>a'. analysis_add_record env a r k v = (0, a') \<and> an_txns a' = an_txns a \<and> an_records a' = an_records a @ [(r, k, v)]"
proof -
  have "(if rec_key_length r > 0 then k else None) = k" "(if rec_value_length r > 0 then v else None) = v"
    using assms(2) by (auto simp: entry_ok_def payload_ok_def split: option.splits)
  with assms(1) show ?thesis by (simp add: analysis_add_record_def Let_def env_ok_def)
qed

lemma replay_cb_step:
  assumes env: "env_ok env" and good: "an_good a" and e: "entry_ok (r, k, v)"
  shows "\<exists>a'. recovery_replay_cb env \<lparr>ctx_analysis = a, ctx_failed = False\<rparr> r k v =
      (True, \<lparr>ctx_analysis = a', ctx_failed = False\<rparr>) \<and> an_good a' \<and>
    map_of (an_txns a') = tab_step (r, k, v) (map_of (an_txns a)) \<and>
    an_records a' = an_records a @ filter is_mutation [(r, k, v)]"
proof -
  let ?op = "entry_op (r, k, v)" and ?t = "rec_txn_id r"
  have op: "(ucast (rec_op_type r) :: u32) = ?op" by (simp add: entry_op_def)
  have "?op = QIHSE_WAL_OP_BEGIN \<or> ?op = QIHSE_WAL_OP_COMMIT \<or> ?op = QIHSE_WAL_OP_ABORT \<or> is_mutation (r, k, v) \<or>
      ?op = QIHSE_WAL_OP_CHECKPOINT"
    using e by (auto simp: entry_ok_def record_shape_valid_def is_mutation_def op split: if_splits)
  moreover have "?t > 0 \<or> ?t = 0" using word_neq_0_conv [of ?t] by blast
  ultimately consider "?op = QIHSE_WAL_OP_BEGIN" | "?op = QIHSE_WAL_OP_COMMIT" | "?op = QIHSE_WAL_OP_ABORT" | "is_mutation (r, k, v)" "?t > 0"
    | "is_mutation (r, k, v)" "?t = 0" | "?op = QIHSE_WAL_OP_CHECKPOINT"
    by blast
  then show ?thesis
  proof cases
    case 1
    with add_txn [OF env good, of ?t] show ?thesis
      by (auto simp: recovery_replay_cb_def Let_def op tab_step_def mentions_def is_mutation_def wal_ops)
  next
    case 2
    with record_outcome_ok [OF env good, of ?t 1] show ?thesis
      by (auto simp: recovery_replay_cb_def Let_def op tab_step_def is_mutation_def wal_ops)
  next
    case 3
    with record_outcome_ok [OF env good, of ?t 2] show ?thesis
      by (auto simp: recovery_replay_cb_def Let_def op tab_step_def is_mutation_def wal_ops)
  next
    case 4
    obtain i a1 where a1: "analysis_add_txn env a ?t = (i, a1)" "i \<ge> 0" "an_good a1" "an_records a1 = an_records a"
      "map_of (an_txns a1) = (if map_of (an_txns a) ?t = None then (map_of (an_txns a))(?t \<mapsto> 0) else map_of (an_txns a))"
      using add_txn [OF env good, of ?t] by blast
    obtain a2 where a2: "analysis_add_record env a1 r k v = (0, a2)" "an_txns a2 = an_txns a1"
        "an_records a2 = an_records a1 @ [(r, k, v)]"
      using add_record [OF env e] by blast
    from 4 a1 a2 show ?thesis
      by (intro exI [of _ a2]) (auto simp: recovery_replay_cb_def Let_def op tab_step_def mentions_def is_mutation_def an_good_def wal_ops)
  next
    case 5
    obtain a2 where a2: "analysis_add_record env a r k v = (0, a2)" "an_txns a2 = an_txns a"
        "an_records a2 = an_records a @ [(r, k, v)]"
      using add_record [OF env e] by blast
    with 5 good show ?thesis
      by (intro exI [of _ a2]) (auto simp: recovery_replay_cb_def Let_def op tab_step_def mentions_def is_mutation_def an_good_def wal_ops)
  next
    case 6
    with good show ?thesis
      by (auto simp: recovery_replay_cb_def Let_def op tab_step_def mentions_def is_mutation_def wal_ops)
  qed
qed

lemma deliver_recovery:
  assumes env: "env_ok env" and "\<forall>e \<in> set es. entry_ok e \<and> start \<le> entry_lsn e" "an_good a"
  shows "\<exists>a'. deliver start (recovery_replay_cb env) es (n, \<lparr>ctx_analysis = a, ctx_failed = False\<rparr>) =
      (True, n + int (length es), \<lparr>ctx_analysis = a', ctx_failed = False\<rparr>) \<and> an_good a' \<and>
    map_of (an_txns a') = fold tab_step es (map_of (an_txns a)) \<and> an_records a' = an_records a @ filter is_mutation es"
  using assms(2,3)
proof (induction es arbitrary: n a)
  case (Cons e es)
  obtain r k v where e: "e = (r, k, v)" by (cases e)
  obtain a1 where a1: "recovery_replay_cb env \<lparr>ctx_analysis = a, ctx_failed = False\<rparr> r k v =
      (True, \<lparr>ctx_analysis = a1, ctx_failed = False\<rparr>)" "an_good a1"
    "map_of (an_txns a1) = tab_step e (map_of (an_txns a))" "an_records a1 = an_records a @ filter is_mutation [e]"
    using replay_cb_step [OF env Cons.prems(2), of r k v] Cons.prems(1) unfolding e by auto
  from Cons.IH [OF _ a1(2), of "n + 1"] Cons.prems(1) a1 show ?case by (auto simp: e)
qed simp


subsection \<open>Registration and redo\<close>

definition entry_write :: "wal_entry \<Rightarrow> mvcc_op" where
  "entry_write e =
     (case e of (r, k, v) \<Rightarrow>
        if entry_op e = QIHSE_WAL_OP_INSERT then MInsert (rec_engine_id r) k v
        else if entry_op e = QIHSE_WAL_OP_UPDATE then MUpdate (rec_engine_id r) k v
        else MDelete (rec_engine_id r) k)"

text \<open>The mutations of committed transactions, in log order, and the state they denote.\<close>

definition committed_writes :: "wal_entry list \<Rightarrow> (u64 \<times> mvcc_op) list" where
  "committed_writes log =
     map (\<lambda>e. (entry_txn e, entry_write e)) (filter (\<lambda>e. is_mutation e \<and> committed_in log (entry_txn e)) log)"

lemma redo_record_apply:
  "is_mutation e \<Longrightarrow> redo_record al st e = snd (mvcc_apply al st (entry_txn e) (entry_write e))"
  by (auto simp: redo_record_def entry_write_def is_mutation_def entry_op_def Let_def split: prod.splits)

lemma redo_run_Cons: "redo_run st (w # ws) = redo_run (snd (mvcc_apply alloc_ok st (fst w) (snd w))) ws"
  by (simp add: redo_run_def)

lemma redo_loop_run:
  assumes "env_ok env" "\<And>t. map_of (an_txns a) t = Some 1 \<longleftrightarrow> C t" "\<forall>e \<in> set es. is_mutation e"
  shows "redo_loop env a i es st =
    redo_run st (map (\<lambda>e. (entry_txn e, entry_write e)) (filter (\<lambda>e. C (entry_txn e)) es))"
  using assms(3)
proof (induction es arbitrary: i st)
  case (Cons e es)
  have IH: "redo_loop env a (Suc i) es st' =
    redo_run st' (map (\<lambda>e. (entry_txn e, entry_write e)) (filter (\<lambda>e. C (entry_txn e)) es))" for st'
    using Cons by simp
  have al: "redo_alloc env i = alloc_ok" using assms(1) by (simp add: env_ok_def)
  have e: "is_mutation e" using Cons.prems by simp
  show ?case
  proof (cases rule: find_txn_cases [of a "entry_txn e"])
    case 1
    then have "\<not> C (entry_txn e)" using assms(2) [of "entry_txn e"] by simp
    with 1 IH show ?thesis by simp
  next
    case (2 j)
    then have "C (entry_txn e) \<longleftrightarrow> snd (an_txns a ! j) = 1" using assms(2) [of "entry_txn e"] by simp
    with 2 IH al e show ?thesis by (simp add: redo_record_apply redo_run_Cons)
  qed
qed simp

definition registered :: "int \<Rightarrow> txn_state" where
  "registered s = (if s = 1 then TXN_COMMITTED else TXN_ABORTED)"

lemma register_step:
  assumes "mgr_inv m h" "\<forall>p. handles m p = None" "t \<noteq> UINT64_MAX" "ok_registry env"
  shows "mgr_inv (qihse_txn_register_committed env m t) h" "mgr_inv (qihse_txn_register_aborted env m t) h"
    and "handles (qihse_txn_register_committed env m t) = handles m" "handles (qihse_txn_register_aborted env m t) = handles m"
    and "reg_status (qihse_txn_register_committed env m t) = (reg_status m)(t \<mapsto> TXN_COMMITTED)"
      "reg_status (qihse_txn_register_aborted env m t) = (reg_status m)(t \<mapsto> TXN_ABORTED)"
proof -
  have "\<forall>p. \<not> has_id m t p" using assms(2) by (simp add: has_id_def)
  from register_inv [OF assms(1,3) this]
  show "mgr_inv (qihse_txn_register_committed env m t) h" "mgr_inv (qihse_txn_register_aborted env m t) h"
    by (simp_all add: qihse_txn_register_committed_def qihse_txn_register_aborted_def)
  have bump: "reg_status (bump_next_id m' t) = reg_status m'" "handles (bump_next_id m' t) = handles m'" for m'
    by (simp_all add: bump_next_id_def reg_status_def registry_find_def fun_eq_iff)
  have reg: "registry_inv m" using assms(1) by (simp add: mgr_inv_def)
  have "handles (snd (registry_insert env m t st)) = handles m" for st
    by (simp add: registry_insert_def registry_alloc_def registry_link_def)
  with bump registry_insert_status [OF reg] assms(4)
  show "handles (qihse_txn_register_committed env m t) = handles m" "handles (qihse_txn_register_aborted env m t) = handles m"
    "reg_status (qihse_txn_register_committed env m t) = (reg_status m)(t \<mapsto> TXN_COMMITTED)"
    "reg_status (qihse_txn_register_aborted env m t) = (reg_status m)(t \<mapsto> TXN_ABORTED)"
    by (simp_all add: qihse_txn_register_committed_def qihse_txn_register_aborted_def)
qed

lemma register_loop_ok:
  assumes env: "env_ok env" and "mgr_inv m h" "\<forall>p. handles m p = None" "\<forall>x \<in> set xs. fst x \<noteq> UINT64_MAX"
    and "distinct (map fst xs)"
  shows "\<exists>rec' m'. register_loop env i xs rec m = Some (rec', m') \<and> mgr_inv m' h \<and> (\<forall>p. handles m' p = None) \<and>
    reg_status m' = reg_status m ++ (\<lambda>t. map_option registered (map_of xs t)) \<and>
    committed_txns rec' = committed_txns rec @ map fst (filter (\<lambda>x. snd x = 1) xs) \<and>
    aborted_txns rec' = aborted_txns rec @ map fst (filter (\<lambda>x. snd x \<noteq> 1) xs)"
  using assms(2-5)
proof (induction xs arbitrary: i rec m)
  case Nil
  then show ?case by (auto simp: map_add_def fun_eq_iff)
next
  case (Cons x xs)
  let ?e = "register_env env i"
  let ?m1 = "if snd x = 1 then qihse_txn_register_committed ?e m (fst x) else qihse_txn_register_aborted ?e m (fst x)"
  have ok: "ok_registry ?e" using env by (simp add: env_ok_def)
  have nmax: "fst x \<noteq> UINT64_MAX" using Cons.prems(3) by simp
  note step = register_step [OF Cons.prems(1,2) nmax ok]
  have m1: "mgr_inv ?m1 h" "\<forall>p. handles ?m1 p = None" "reg_status ?m1 = (reg_status m)(fst x \<mapsto> registered (snd x))"
    using step Cons.prems(2) by (simp_all add: registered_def)
  obtain rec1 where rec1: "(if snd x = 1 then rec_add_committed env rec (fst x) else rec_add_aborted env rec (fst x)) = Some rec1"
    "committed_txns rec1 = committed_txns rec @ (if snd x = 1 then [fst x] else [])"
    "aborted_txns rec1 = aborted_txns rec @ (if snd x = 1 then [] else [fst x])"
    using env by (cases "snd x = 1") (auto simp: rec_add_committed_def rec_add_aborted_def Let_def env_ok_def)
  obtain rec' m' where IH: "register_loop env (Suc i) xs rec1 ?m1 = Some (rec', m')" "mgr_inv m' h" "\<forall>p. handles m' p = None"
    "reg_status m' = reg_status ?m1 ++ (\<lambda>t. map_option registered (map_of xs t))"
    "committed_txns rec' = committed_txns rec1 @ map fst (filter (\<lambda>x. snd x = 1) xs)"
    "aborted_txns rec' = aborted_txns rec1 @ map fst (filter (\<lambda>x. snd x \<noteq> 1) xs)"
    using Cons.IH [OF m1(1,2), of "Suc i" rec1] Cons.prems(3,4) by auto
  have "map_of xs (fst x) = None" using Cons.prems(4) by (simp add: map_of_eq_None_iff)
  then have "reg_status m' = reg_status m ++ (\<lambda>t. map_option registered (map_of (x # xs) t))"
    unfolding IH(4) m1(3) by (cases x) (auto simp: fun_eq_iff map_add_def split: option.splits)
  moreover have "register_loop env i (x # xs) rec m = Some (rec', m')"
    using IH(1) rec1(1) by (auto split: if_splits)
  ultimately show ?case
    using IH(2,3,5,6) rec1(2,3) by (intro exI [of _ rec'] exI [of _ m']) (auto split: if_splits)
qed


subsection \<open>The whole recovery\<close>

lemma committed_mentioned: "committed_in es t \<Longrightarrow> \<exists>e \<in> set es. mentions t e"
  using tab_committed [of es t] tab_mentioned [of es t] by auto

lemma fst_filter_map_of:
  "distinct (map fst xs) \<Longrightarrow> t \<in> fst ` set (filter (\<lambda>x. P (snd x)) xs) \<longleftrightarrow> (\<exists>s. map_of xs t = Some s \<and> P s)"
  by (force simp: image_iff dest: map_of_SomeD map_of_is_SomeI)

lemma wal_abs_entries: "wal_abs w fs log \<Longrightarrow> \<forall>e \<in> set log. entry_ok e"
  by (auto simp: wal_abs_def log_inv_def dest: log_entries_ok)

lemma recover_ok:
  fixes w log defines "T \<equiv> log_from (last_checkpoint_lsn w) log"
  assumes abs: "wal_abs w fs log" "seg_fd w" "\<not> writer_failed w" "io_reads io" and env: "env_ok env"
    and m: "mgr_inv m h" "\<forall>p. handles m p = None" and ids: "\<forall>e \<in> set T. entry_txn e \<noteq> UINT64_MAX"
  shows "\<exists>rec' m'. qihse_recovery_replay env io rec w fs m st = Some (0, rec', w, fs, m', redo_run st (committed_writes T)) \<and>
    mgr_inv m' h \<and> (\<forall>p. handles m' p = None) \<and>
    (\<forall>t. reg_status m' t =
       (if \<exists>e \<in> set T. mentions t e then Some (if committed_in T t then TXN_COMMITTED else TXN_ABORTED) else reg_status m t)) \<and>
    set (committed_txns rec') = set (committed_txns rec) \<union> {t. committed_in T t} \<and>
    set (aborted_txns rec') = set (aborted_txns rec) \<union> {t. (\<exists>e \<in> set T. mentions t e) \<and> \<not> committed_in T t}"
proof -
  have "\<forall>e \<in> set T. entry_ok e \<and> last_checkpoint_lsn w \<le> entry_lsn e"
    using wal_abs_entries [OF abs(1)] by (simp add: T_def)
  from deliver_recovery [OF env this, of analysis_empty 0] obtain a where
    a: "deliver (last_checkpoint_lsn w) (recovery_replay_cb env) T (0, \<lparr>ctx_analysis = analysis_empty, ctx_failed = False\<rparr>) =
      (True, int (length T), \<lparr>ctx_analysis = a, ctx_failed = False\<rparr>)"
    "an_good a" "map_of (an_txns a) = fold tab_step T Map.empty" "an_records a = filter is_mutation T"
    by (auto simp: an_good_def analysis_empty_def)
  have rep: "qihse_wal_replay io w fs (last_checkpoint_lsn w) (recovery_replay_cb env)
      \<lparr>ctx_analysis = analysis_empty, ctx_failed = False\<rparr> =
      (int (length T), w, fs, \<lparr>ctx_analysis = a, ctx_failed = False\<rparr>)"
    using replay_abs [OF abs(1,3,2,4), of "last_checkpoint_lsn w" "recovery_replay_cb env"] a(1)
    unfolding T_def deliver_log_from by simp
  have com: "map_of (an_txns a) t = Some 1 \<longleftrightarrow> committed_in T t" for t by (simp add: a(3) tab_committed)
  have dom: "t \<in> fst ` set (an_txns a) \<longleftrightarrow> (\<exists>e \<in> set T. mentions t e)" for t
    using tab_mentioned [of T t] by (simp add: map_of_eq_None_iff flip: a(3))
  have "\<forall>x \<in> set (an_txns a). fst x \<noteq> UINT64_MAX"
    using dom ids by (metis image_eqI mentions_def)
  from register_loop_ok [OF env m this, of 0 rec] a(2) obtain rec' m' where
    r: "register_loop env 0 (an_txns a) rec m = Some (rec', m')" "mgr_inv m' h" "\<forall>p. handles m' p = None"
    "reg_status m' = reg_status m ++ (\<lambda>t. map_option registered (map_of (an_txns a) t))"
    "committed_txns rec' = committed_txns rec @ map fst (filter (\<lambda>x. snd x = 1) (an_txns a))"
    "aborted_txns rec' = aborted_txns rec @ map fst (filter (\<lambda>x. snd x \<noteq> 1) (an_txns a))"
    by (auto simp: an_good_def)
  have status: "reg_status m' t = (if \<exists>e \<in> set T. mentions t e
      then Some (if committed_in T t then TXN_COMMITTED else TXN_ABORTED) else reg_status m t)" for t
  proof (cases "map_of (an_txns a) t")
    case None
    then have "\<not> (\<exists>e \<in> set T. mentions t e)" using dom [of t] by (simp add: map_of_eq_None_iff)
    with None show ?thesis by (simp add: r(4) map_add_def)
  next
    case (Some s)
    then have "\<exists>e \<in> set T. mentions t e" using dom [of t] by (metis map_of_SomeD fst_conv image_eqI)
    with Some com [of t] show ?thesis by (simp add: r(4) map_add_def registered_def)
  qed
  have some: "map_of (an_txns a) t \<noteq> None \<longleftrightarrow> (\<exists>e \<in> set T. mentions t e)" for t
    using dom [of t] by (simp add: map_of_eq_None_iff)
  have "set (map fst (filter (\<lambda>x. snd x = 1) (an_txns a))) = {t. committed_in T t}"
    using fst_filter_map_of [of "an_txns a" _ "\<lambda>s. s = 1"] a(2) com by (auto simp: an_good_def)
  moreover have "set (map fst (filter (\<lambda>x. snd x \<noteq> 1) (an_txns a))) = {t. (\<exists>e \<in> set T. mentions t e) \<and> \<not> committed_in T t}"
    using fst_filter_map_of [of "an_txns a" _ "\<lambda>s. s \<noteq> 1"] a(2) unfolding com [symmetric] some [symmetric] an_good_def
    by (intro set_eqI) (auto dest: eq_key_imp_eq_value)
  moreover have "redo_loop env a 0 (an_records a) st = redo_run st (committed_writes T)"
    using redo_loop_run [OF env com, of "an_records a" 0 st] by (simp add: a(4) committed_writes_def conj_commute)
  ultimately show ?thesis
    using rep r(1-3,5,6) status by (simp add: qihse_recovery_replay_def qihse_wal_last_checkpoint_def)
qed


lemma fresh_manager:
  assumes "qihse_txn_manager_create a b c = Some m"
  shows "mgr_inv m []" "\<forall>p. handles m p = None" "reg_status m t = None"
  using create_inv [OF assms] assms
  by (auto simp: qihse_txn_manager_create_def reg_status_def registry_find_def bucket_find_def registry_hash_def split: if_splits)

lemma fresh_store: "chain_of (mvcc_fresh n) e k = []"
  by (auto simp: mvcc_fresh_def chain_of_def row_lookup_def bucket_find_def mvcc_hash_def Let_def)

lemma u64_less_pred: "t < n \<Longrightarrow> t \<le> n - (1 :: u64)"
  by unat_arith

lemma committed_writers:
  "t \<in> writers (committed_writes T) e k \<Longrightarrow> committed_in T t"
  by (auto simp: writers_def committed_writes_def)

subsection \<open>An example log\<close>

definition demo_log_fs :: "wal_entry list \<Rightarrow> wal_fs" where
  "demo_log_fs es = \<lparr>entries = [(0, True)], files = [0 \<mapsto> log_bytes es]\<rparr>"

definition demo_log_wal :: "wal_entry list \<Rightarrow> wal" where
  "demo_log_wal es = demo_wal\<lparr>next_lsn := last_lsn 0 es + 1, seg_offset := length (log_bytes es)\<rparr>"

lemma demo_log_fields [simp]:
  "seg_fd (demo_log_wal es)" "\<not> writer_failed (demo_log_wal es)" "last_checkpoint_lsn (demo_log_wal es) = 0"
  "seg_index (demo_log_wal es) = 0" "next_lsn (demo_log_wal es) = last_lsn 0 es + 1" "\<not> recovering (demo_log_wal es)"
  by (simp_all add: demo_log_wal_def)

lemma demo_log_abs:
  assumes "\<forall>e \<in> set es. entry_ok e" "sorted_wrt (<) (0 # map entry_lsn es)" "last_lsn 0 es \<noteq> UINT64_MAX"
  shows "wal_abs (demo_log_wal es) (demo_log_fs es) es"
proof -
  have gt: "last_lsn 0 es < last_lsn 0 es + 1" by (rule u64_succ_greater [OF assms(3)])
  then have "last_lsn 0 es + 1 \<noteq> 0" by (metis not_less_zero word_not_simps(1) word_gt_0_no)
  moreover have "\<forall>e \<in> set es. entry_lsn e < last_lsn 0 es + 1"
    using last_lsn_upper [OF assms(2)] gt by (auto intro: le_less_trans)
  moreover have "log_of (demo_log_fs es) (\<lambda>_. es) = es" by (simp add: log_of_def segments_def demo_log_fs_def)
  moreover have "dir_inv (demo_log_fs es) 0 (\<lambda>_. es) []"
    using assms(1,2) calculation(3) by (auto simp: dir_inv_def demo_log_fs_def)
  ultimately have "log_inv (demo_log_wal es) (demo_log_fs es) 0 (\<lambda>_. es) []"
    by (simp add: log_inv_def)
  with \<open>log_of (demo_log_fs es) (\<lambda>_. es) = es\<close> show ?thesis unfolding wal_abs_def by blast
qed

definition put_entry :: wal_entry where
  "put_entry = appended 1 7 1 QIHSE_WAL_OP_INSERT (Some [1, 2]) 2 (Some [3]) 1"

definition lost_entry :: wal_entry where
  "lost_entry = appended 1 7 1 QIHSE_WAL_OP_INSERT (Some []) 0 (Some [3]) 1"

definition commit_entry :: wal_entry where
  "commit_entry = appended 2 7 0 QIHSE_WAL_OP_COMMIT None 0 None 0"

definition demo_env :: rec_env where
  "demo_env = \<lparr>grow_txns = (\<lambda>_. True), grow_records = (\<lambda>_. True), alloc_rec_key = (\<lambda>_. True),
     alloc_rec_value = (\<lambda>_. True), grow_committed = (\<lambda>_. True), grow_aborted = (\<lambda>_. True),
     register_env = (\<lambda>_. \<lparr>ok_handle = True, ok_active = True, ok_registry = True, ok_summary = True, ok_rw = True,
        rc_resource_commit = 0, rc_prepare = (\<lambda>_. 0)\<rparr>),
     redo_alloc = (\<lambda>_. alloc_ok)\<rparr>"

definition demo_rec :: recovery where
  "demo_rec = \<lparr>committed_txns = [], committed_capacity = 0, aborted_txns = [], aborted_capacity = 0\<rparr>"

lemma demo_env_ok [simp]: "env_ok demo_env"
  by (simp add: env_ok_def demo_env_def)

lemma entry_op_appended [simp]:
  "entry_op (appended lsn t eng op key klen val vlen) = ucast (ucast op :: u8)"
  by (simp add: entry_op_def appended_def)

lemma appended_fields [simp]:
  "entry_txn (appended lsn t eng op key klen val vlen) = t" "entry_lsn (appended lsn t eng op key klen val vlen) = lsn"
  by (simp_all add: appended_def)

lemma demo_entries_ok [simp]: "entry_ok put_entry" "entry_ok lost_entry" "entry_ok commit_entry"
  unfolding put_entry_def lost_entry_def commit_entry_def
  by (rule appended_ok; simp add: record_shape_valid_def wal_ops QIHSE_WAL_MAX_KEY_def QIHSE_WAL_MAX_VALUE_def args_ok_def target_ok_def)+

lemma demo_entry_fields [simp]:
  "entry_lsn put_entry = 1" "entry_lsn lost_entry = 1" "entry_lsn commit_entry = 2"
  "entry_txn put_entry = 7" "entry_txn lost_entry = 7" "entry_txn commit_entry = 7"
  "entry_op put_entry = QIHSE_WAL_OP_INSERT" "entry_op lost_entry = QIHSE_WAL_OP_INSERT" "entry_op commit_entry = QIHSE_WAL_OP_COMMIT"
  "entry_write put_entry = MInsert 1 (Some [1, 2]) (Some [3])" "entry_write lost_entry = MInsert 1 None (Some [3])"
  by (simp_all add: put_entry_def lost_entry_def commit_entry_def wal_ops entry_write_def appended_def arg_bytes_def entry_op_def)

lemma demo_logs:
  "wal_abs (demo_log_wal [put_entry, commit_entry]) (demo_log_fs [put_entry, commit_entry]) [put_entry, commit_entry]"
  "wal_abs (demo_log_wal [lost_entry, commit_entry]) (demo_log_fs [lost_entry, commit_entry]) [lost_entry, commit_entry]"
  by (rule demo_log_abs; simp add: UINT64_MAX_def word_less_nat_alt)+

lemma demo_committed:
  "committed_in [put_entry, commit_entry] t \<longleftrightarrow> t = 7" "committed_in [lost_entry, commit_entry] t \<longleftrightarrow> t = 7"
  "committed_writes [put_entry, commit_entry] = [(7, MInsert 1 (Some [1, 2]) (Some [3]))]"
  "committed_writes [lost_entry, commit_entry] = [(7, MInsert 1 None (Some [3]))]"
  by (simp_all add: committed_in_def committed_writes_def is_outcome_def is_mutation_def wal_ops)

subsection \<open>Reads after recovery\<close>

lemma recovered_reads:
  assumes "mgr_inv m' h" "\<And>t. committed_in T t \<Longrightarrow> qihse_txn_is_committed m' t" "deletes_ordered (committed_writes T)"
    and "length k < QIHSE_MVCC_MAX_KEY" "k \<noteq> []"
  shows "qihse_mvcc_read (redo_run (mvcc_fresh n) (committed_writes T)) e (Some k)
    (next_txn_id m' - 1) (Some (qihse_txn_is_committed m')) = kv_run (committed_writes T) e k"
proof (rule redo_read [OF fresh_store mvcc_fresh_inv assms(4,3,5)], intro ballI)
  fix t assume "t \<in> writers (committed_writes T) e k"
  then have c: "qihse_txn_is_committed m' t" using committed_writers assms(2) by blast
  then have "reg_status m' t \<noteq> None" by (simp add: status_committed)
  then have "t < next_txn_id m'" using assms(1) by (simp add: mgr_inv_def registry_inv_def)
  with c show "t \<le> next_txn_id m' - 1 \<and> cb_holds (Some (qihse_txn_is_committed m')) t"
    by (simp add: u64_less_pred cb_holds_def)
qed

lemma recover_reads:
  assumes "wal_abs w fs log" "seg_fd w" "\<not> writer_failed w" "io_reads io" "env_ok env"
    and "qihse_txn_manager_create a b c = Some m"
    and "\<forall>e \<in> set (log_from (last_checkpoint_lsn w) log). entry_txn e \<noteq> UINT64_MAX"
    and "deletes_ordered (committed_writes (log_from (last_checkpoint_lsn w) log))"
  shows "\<exists>rec' m' st'. qihse_recovery_replay env io rec w fs m (mvcc_fresh n) = Some (0, rec', w, fs, m', st') \<and>
    (\<forall>e k. k \<noteq> [] \<and> length k < QIHSE_MVCC_MAX_KEY \<longrightarrow>
       qihse_mvcc_read st' e (Some k) (next_txn_id m' - 1) (Some (qihse_txn_is_committed m')) =
       kv_run (committed_writes (log_from (last_checkpoint_lsn w) log)) e k)"
proof -
  let ?T = "log_from (last_checkpoint_lsn w) log"
  note f = fresh_manager [OF assms(6)]
  from recover_ok [OF assms(1-5) f(1,2) assms(7), of rec "mvcc_fresh n"] obtain rec' m' where
    r: "qihse_recovery_replay env io rec w fs m (mvcc_fresh n) =
        Some (0, rec', w, fs, m', redo_run (mvcc_fresh n) (committed_writes ?T))" "mgr_inv m' []"
    "\<forall>t. reg_status m' t = (if \<exists>e \<in> set ?T. mentions t e
       then Some (if committed_in ?T t then TXN_COMMITTED else TXN_ABORTED) else reg_status m t)"
    by blast
  have "qihse_txn_is_committed m' t" if "committed_in ?T t" for t
    using r(3) that committed_mentioned [OF that] by (simp add: status_committed)
  from recovered_reads [OF r(2) this assms(8)] r(1) show ?thesis by blast
qed

subsection \<open>Properties\<close>

text \<open>
  Recovery decides every transaction the way the log does. When the reads and
  allocations succeed, recovery into a new manager returns 0; a transaction is registered as committed exactly if the
  last of its COMMIT and ABORT records after the checkpoint is COMMIT, every other transaction that
  the log mentions is registered as aborted, the inspection functions say the same, and the next transaction
  number is above every recovered one.
\<close>
lemma outcomes_as_logged:
  assumes "wal_abs w fs log" "seg_fd w" "\<not> writer_failed w" "io_reads io" "env_ok env"
    and "qihse_txn_manager_create a b c = Some m" "qihse_recovery_create True True = Some rec"
    and "\<forall>e \<in> set (log_from (last_checkpoint_lsn w) log). entry_txn e \<noteq> UINT64_MAX"
  shows "\<exists>rec' m' st'. qihse_recovery_replay env io rec w fs m st = Some (0, rec', w, fs, m', st') \<and>
    (let T = log_from (last_checkpoint_lsn w) log in
     \<forall>t. qihse_txn_is_committed m' t = committed_in T t \<and> qihse_recovery_txn_committed rec' t = committed_in T t \<and>
         qihse_txn_is_aborted m' t = ((\<exists>e \<in> set T. mentions t e) \<and> \<not> committed_in T t) \<and>
         qihse_recovery_txn_aborted rec' t = qihse_txn_is_aborted m' t \<and>
         ((\<exists>e \<in> set T. mentions t e) \<longrightarrow> t < next_txn_id m'))"
proof -
  let ?T = "log_from (last_checkpoint_lsn w) log"
  note f = fresh_manager [OF assms(6)]
  from recover_ok [OF assms(1-5) f(1,2) assms(8), of rec st] obtain rec' m' st' where
    r: "qihse_recovery_replay env io rec w fs m st = Some (0, rec', w, fs, m', st')" "mgr_inv m' []"
    "\<forall>t. reg_status m' t = (if \<exists>e \<in> set ?T. mentions t e
       then Some (if committed_in ?T t then TXN_COMMITTED else TXN_ABORTED) else reg_status m t)"
    "set (committed_txns rec') = set (committed_txns rec) \<union> {t. committed_in ?T t}"
    "set (aborted_txns rec') = set (aborted_txns rec) \<union> {t. (\<exists>e \<in> set ?T. mentions t e) \<and> \<not> committed_in ?T t}"
    by blast
  have rec: "committed_txns rec = []" "aborted_txns rec = []" using assms(7) by (auto simp: qihse_recovery_create_def)
  have "t < next_txn_id m'" if "reg_status m' t \<noteq> None" for t
    using r(2) that by (simp add: mgr_inv_def registry_inv_def)
  with r(1,3-5) rec f(3) committed_mentioned [of ?T] show ?thesis
    by (simp add: status_committed status_aborted qihse_recovery_txn_committed_def qihse_recovery_txn_aborted_def list_ex_iff Let_def) blast
qed


text \<open>
  C4: recovery restores the committed state that the log holds since its last checkpoint. After
  recovery of a log into a new manager and a new store, a reader with the snapshot of the next transaction
  reads, for every nonempty key of fewer than 256 bytes, exactly what the mutations of the committed
  transactions leave when those from the last checkpoint on are applied in log order; nothing of any other
  transaction. No committed delete in the log is numbered before an earlier committed writer of its key
  (\<open>deletes_ordered\<close>). The empty key is excluded because recovery loses it.
\<close>
theorem recovery_restores_committed:
  assumes "wal_abs w fs log" "seg_fd w" "\<not> writer_failed w" "io_reads io" "env_ok env"
    and "qihse_txn_manager_create a b c = Some m"
    and "\<forall>e \<in> set (log_from (last_checkpoint_lsn w) log). entry_txn e \<noteq> UINT64_MAX"
    and "deletes_ordered (committed_writes (log_from (last_checkpoint_lsn w) log))"
  shows "\<exists>rec' m' st'. qihse_recovery_replay env io rec w fs m (mvcc_fresh n) = Some (0, rec', w, fs, m', st') \<and>
    (\<forall>e k. k \<noteq> [] \<and> length k < QIHSE_MVCC_MAX_KEY \<longrightarrow>
       qihse_mvcc_read st' e (Some k) (next_txn_id m' - 1) (Some (qihse_txn_is_committed m')) =
       kv_run (committed_writes (log_from (last_checkpoint_lsn w) log)) e k)"
  by (rule recover_reads [OF assms])

theorem recovery_restores_committed_witness:
  "\<exists>m rec' m' st'. qihse_txn_manager_create True True True = Some m \<and>
     qihse_recovery_replay demo_env io_good demo_rec (demo_log_wal [put_entry, commit_entry]) (demo_log_fs [put_entry, commit_entry])
       m (mvcc_fresh 8) =
     Some (0, rec', demo_log_wal [put_entry, commit_entry], demo_log_fs [put_entry, commit_entry], m', st') \<and>
     qihse_mvcc_read st' 1 (Some [1, 2]) (next_txn_id m' - 1) (Some (qihse_txn_is_committed m')) = Some [3] \<and>
     qihse_mvcc_read st' 1 (Some [9]) (next_txn_id m' - 1) (Some (qihse_txn_is_committed m')) = None"
proof -
  obtain m where c: "qihse_txn_manager_create True True True = Some m"
    by (simp add: qihse_txn_manager_create_def)
  from recovery_restores_committed [OF demo_logs(1) _ _ io_good(1) demo_env_ok c, of demo_rec 8]
  obtain rec' m' st' where r: "qihse_recovery_replay demo_env io_good demo_rec (demo_log_wal [put_entry, commit_entry])
      (demo_log_fs [put_entry, commit_entry]) m (mvcc_fresh 8) =
     Some (0, rec', demo_log_wal [put_entry, commit_entry], demo_log_fs [put_entry, commit_entry], m', st')"
    "\<And>e k. k \<noteq> [] \<Longrightarrow> length k < QIHSE_MVCC_MAX_KEY \<Longrightarrow>
       qihse_mvcc_read st' e (Some k) (next_txn_id m' - 1) (Some (qihse_txn_is_committed m')) =
       kv_run (committed_writes [put_entry, commit_entry]) e k"
    by (auto simp: UINT64_MAX_def demo_committed deletes_ordered_def)
  have "qihse_mvcc_read st' 1 (Some [1, 2]) (next_txn_id m' - 1) (Some (qihse_txn_is_committed m')) = Some [3]"
    "qihse_mvcc_read st' 1 (Some [9]) (next_txn_id m' - 1) (Some (qihse_txn_is_committed m')) = None"
    by (simp_all add: r(2) QIHSE_MVCC_MAX_KEY_def demo_committed kv_run_def value_bytes_def opt_bytes_def)
  with c r(1) show ?thesis by blast
qed


text \<open>
  C29: a checkpoint makes recovery forget the past. On a usable log, when the engines flush and the I/O
  calls succeed, the checkpoint returns 0, and a recovery that follows it finds nothing to do: it returns
  0 and changes neither the manager nor the store.
\<close>
theorem recovery_checkpoint_absorbs:
  assumes "wal_abs w fs log" "writable w" "seg_index w \<noteq> UINT64_MAX" "last_checkpoint_lsn w \<le> next_lsn w"
    and "io_sync io1" "io_writes io2" "io_sync io3" "io_reads io4" "io_prunes io5" "io_reads io6"
    and "flush_rc = None \<or> flush_rc = Some 0"
  shows "\<exists>w' fs'. qihse_recovery_checkpoint io1 io2 io3 io4 io5 flush_rc w fs = (0, w', fs') \<and>
    qihse_recovery_replay env io6 rec w' fs' m st = Some (0, rec, w', fs', m, st)"
proof -
  have nz: "next_lsn w \<noteq> 0" by (rule abs_next [OF assms(1)])
  obtain w1 fs1 w2 fs2 log' where c: "qihse_wal_append_checkpoint io2 w fs (next_lsn w) = (next_lsn w, w1, fs1)"
      "seg_fd w1" "\<not> writer_failed w1" "qihse_wal_checkpoint io4 io5 w1 fs1 (next_lsn w) = (0, w2, fs2)"
      "last_checkpoint_lsn w2 = next_lsn w" "wal_abs w2 fs2 log'" "\<not> writer_failed w2" "seg_fd w2"
      "log_from (next_lsn w) log' = log_from (next_lsn w) log @ [marker (next_lsn w) (next_lsn w)]"
    using checkpoint_cycle [OF assms(1-3) nz order_refl assms(4,6,8,9)] by blast
  have "qihse_recovery_checkpoint io1 io2 io3 io4 io5 flush_rc w fs = (0, w2, fs2)"
    using c assms(2,5,7,11) nz
    by (auto simp: qihse_recovery_checkpoint_def qihse_wal_flush_def qihse_wal_current_lsn_def writable_def)
  moreover have "log_from (next_lsn w) log = []"
    using assms(1) by (auto simp: wal_abs_def log_inv_def filter_empty_conv dest: leD)
  then have "deliver (next_lsn w) (recovery_replay_cb env) log' (0, ctx) =
      deliver (next_lsn w) (recovery_replay_cb env) [marker (next_lsn w) (next_lsn w)] (0, ctx)" for ctx
    using c(9) deliver_log_from [of "next_lsn w" "recovery_replay_cb env" log' "(0, ctx)"] by simp
  then have "qihse_recovery_replay env io6 rec w2 fs2 m st = Some (0, rec, w2, fs2, m, st)"
    unfolding qihse_recovery_replay_def qihse_wal_last_checkpoint_def c(5) replay_abs [OF c(6-8) assms(10)]
    by (simp add: marker_def appended_def recovery_replay_cb_def Let_def wal_ops analysis_empty_def)
  ultimately show ?thesis by blast
qed

theorem recovery_checkpoint_absorbs_witness:
  "\<exists>w fs. qihse_recovery_checkpoint io_good io_good io_good io_good io_good (Some 0)
      (demo_log_wal [put_entry, commit_entry]) (demo_log_fs [put_entry, commit_entry]) = (0, w, fs) \<and>
     qihse_recovery_replay demo_env io_good demo_rec w fs mgr_start (mvcc_fresh 8) =
       Some (0, demo_rec, w, fs, mgr_start, mvcc_fresh 8)"
  using recovery_checkpoint_absorbs [OF demo_logs(1) _ _ _ _ io_good(2) _ io_good(1,5,1),
      of io_good io_good "Some 0" demo_env demo_rec mgr_start "mvcc_fresh 8"] io_good(1)
  by (simp add: writable_def UINT64_MAX_def io_reads_def)

text \<open>
  C40: the empty key does not survive recovery. The store accepts an empty key that is given by a non-null pointer, the log accepts
  the record, and the transaction commits; redo passes a null pointer for the empty key,
  the store refuses it, the return code is ignored, and recovery reports success without the value.
\<close>
theorem recovery_loses_empty_key:
  "qihse_mvcc_read (redo_run (mvcc_fresh 8) [(7, MInsert 1 (Some []) (Some [3]))]) 1 (Some []) 7 None = Some [3] \<and>
   (\<exists>m rec' m' st'. qihse_txn_manager_create True True True = Some m \<and>
     qihse_recovery_replay demo_env io_good demo_rec (demo_log_wal [lost_entry, commit_entry]) (demo_log_fs [lost_entry, commit_entry])
       m (mvcc_fresh 8) =
     Some (0, rec', demo_log_wal [lost_entry, commit_entry], demo_log_fs [lost_entry, commit_entry], m', st') \<and>
     qihse_txn_is_committed m' 7 \<and>
     qihse_mvcc_read st' 1 (Some []) (next_txn_id m' - 1) (Some (qihse_txn_is_committed m')) = None)"
proof -
  obtain m where c: "qihse_txn_manager_create True True True = Some m"
    by (simp add: qihse_txn_manager_create_def)
  note f = fresh_manager [OF c]
  let ?es = "[lost_entry, commit_entry]"
  have T: "log_from (last_checkpoint_lsn (demo_log_wal ?es)) ?es = ?es" by simp
  obtain rec' m' where r: "qihse_recovery_replay demo_env io_good demo_rec (demo_log_wal ?es) (demo_log_fs ?es)
       m (mvcc_fresh 8) =
     Some (0, rec', demo_log_wal ?es, demo_log_fs ?es, m', redo_run (mvcc_fresh 8) (committed_writes ?es))"
    "mgr_inv m' []" "\<forall>t. reg_status m' t = (if \<exists>e \<in> set ?es. mentions t e
       then Some (if committed_in ?es t then TXN_COMMITTED else TXN_ABORTED) else reg_status m t)"
    using recover_ok [OF demo_logs(2) _ _ io_good(1) demo_env_ok f(1,2), of demo_rec "mvcc_fresh 8"]
    unfolding T by (auto simp: UINT64_MAX_def)
  have com: "qihse_txn_is_committed m' 7"
    using r(3) by (simp add: status_committed demo_committed mentions_def wal_ops)
  have "redo_run (mvcc_fresh 8) (committed_writes ?es) = mvcc_fresh 8"
    by (simp add: demo_committed redo_run_def qihse_mvcc_insert_def)
  then have "qihse_mvcc_read (redo_run (mvcc_fresh 8) (committed_writes ?es)) 1 (Some [])
      (next_txn_id m' - 1) (Some (qihse_txn_is_committed m')) = None"
    by (simp add: mvcc_read_chain fresh_store)
  moreover have "mvcc_apply alloc_ok (mvcc_fresh 8) 7 (MInsert 1 (Some []) (Some [3])) =
      (0, redo_run (mvcc_fresh 8) [(7, MInsert 1 (Some []) (Some [3]))])"
    using insert_ok [of "[]" "mvcc_fresh 8" 1 "Some [3]" 7]
    by (simp add: redo_run_def prod_eq_iff QIHSE_MVCC_MAX_KEY_def)
  then have "qihse_mvcc_read (redo_run (mvcc_fresh 8) [(7, MInsert 1 (Some []) (Some [3]))]) 1 (Some []) 7 None = Some [3]"
    using redo_chain [OF mvcc_fresh_inv, of "[]" 8 7 "MInsert 1 (Some []) (Some [3])" 1]
    by (simp add: mvcc_read_chain created_version QIHSE_MVCC_MAX_KEY_def version_visible_def cb_holds_def
        value_bytes_def)
  ultimately show ?thesis using c r(1) com by blast
qed

end
