(* ===== verification/Btree.thy ===== *)
theory Btree
  imports Bytes "HOL-Library.List_Lexorder"
begin

section \<open>The B+ tree index\<close>

text \<open>
  Model of \<^verbatim>\<open>src/frieze/qihse_btree.c\<close>: key comparison, the two binary searches, leaf and
  internal nodes with their splits, insert, lookup, delete, range and prefix cursors, the
  sort-preserving serialization of composite keys, and saving and loading a tree.

  Conventions. A leaf is the list of its entries with its \<open>data_size\<close>; an internal node is the part of
  its arrays of separator keys and children that \<open>count\<close> covers. Parent pointers are the path of the
  recursion. The chain of \<open>next_leaf\<close> pointers is the sequence of the leaves of the tree from left to
  right, which is how \<open>leaf_split\<close>, its only writer, links it, followed by \<open>bt_orphans\<close>: the leaves of
  right halves for which no root could be allocated, which no search reaches. A pointer to a leaf is
  the list of the leaves from there on. Every leaf and
  node has the tree's fanout as its capacity. Sizes are those of a 64-bit platform: an entry header
  takes 16 bytes and the header of a node 56 bytes. Which allocations succeed is the record
  \<open>bt_env\<close>. The model has no result where the code goes on with a null or freed pointer, where it writes
  outside the arrays of an internal node, and where the \<open>uint16_t\<close> count of an internal node
  would wrap to zero. The lock makes each call atomic.
\<close>

definition QIHSE_BTREE_DEFAULT_FANOUT :: u32 where
  "QIHSE_BTREE_DEFAULT_FANOUT = 128"

definition QIHSE_BTREE_PAGE_SIZE :: nat where
  "QIHSE_BTREE_PAGE_SIZE = 4096"

definition QIHSE_BTREE_MAX_KEY_LEN :: nat where
  "QIHSE_BTREE_MAX_KEY_LEN = 1024"

definition LEAF_ENTRY_SIZE :: nat where
  "LEAF_ENTRY_SIZE = 16"

definition data_capacity :: nat where
  "data_capacity = QIHSE_BTREE_PAGE_SIZE - 56"

type_synonym bt_entry = "bytes \<times> u64"

datatype bnode =
    BLeaf "bt_entry list" nat
  | BNode "bytes list" "bnode list"

record btree =
  bt_root :: bnode
  bt_fanout :: u32
  bt_count :: u64
  bt_orphans :: "bt_entry list list"

record bt_env =
  ok_tree :: bool
  ok_leaf :: bool
  ok_big :: bool
  ok_key_copy :: bool
  ok_internal :: "nat \<Rightarrow> bool"
  ok_root :: bool

subsection \<open>Comparing and searching keys\<close>

fun memcmp :: "bytes \<Rightarrow> bytes \<Rightarrow> int" where
  "memcmp (a # as) (b # bs) = (if a = b then memcmp as bs else int (unat a) - int (unat b))"
| "memcmp _ _ = 0"

definition key_cmp :: "bytes \<Rightarrow> bytes \<Rightarrow> int" where
  "key_cmp a b =
     (let n = (if length a < length b then length a else length b);
          c = (if n \<noteq> 0 then memcmp (take n a) (take n b) else 0)
      in
        if c \<noteq> 0 then c
        else if length a < length b then -1
        else if length a > length b then 1
        else 0)"

text \<open>The loop of both binary searches; \<open>go mid\<close> is the test that moves \<open>lo\<close> up.\<close>

function bisect :: "(nat \<Rightarrow> bool) \<Rightarrow> nat \<Rightarrow> nat \<Rightarrow> nat" where
  "bisect go lo hi =
     (if lo < hi
      then let mid = lo + (hi - lo) div 2 in if go mid then bisect go (mid + 1) hi else bisect go lo mid
      else lo)"
  by pat_completeness auto
termination
  by (relation "measure (\<lambda>(go, lo, hi). hi - lo)") auto

declare bisect.simps [simp del]

definition leaf_lower_bound :: "bt_entry list \<Rightarrow> bytes \<Rightarrow> nat" where
  "leaf_lower_bound es key = bisect (\<lambda>mid. key_cmp (fst (es ! mid)) key < 0) 0 (length es)"

definition internal_find_child :: "bytes list \<Rightarrow> bytes \<Rightarrow> nat" where
  "internal_find_child keys key = bisect (\<lambda>mid. key_cmp (keys ! mid) key \<le> 0) 0 (length keys)"

subsection \<open>Leaves\<close>

definition leaf_bytes :: "bt_entry list \<Rightarrow> nat" where
  "leaf_bytes es = (\<Sum>e\<leftarrow>es. LEAF_ENTRY_SIZE + length (fst e))"

definition leaf_insert_at :: "bt_entry list \<Rightarrow> nat \<Rightarrow> nat \<Rightarrow> bytes \<Rightarrow> u64 \<Rightarrow> bt_entry list \<times> nat" where
  "leaf_insert_at es dsize pos key row =
     (take pos es @ (key, row) # drop pos es, dsize + (LEAF_ENTRY_SIZE + length key))"

definition leaf_remove_at :: "bt_entry list \<Rightarrow> nat \<Rightarrow> nat \<Rightarrow> bt_entry list \<times> nat" where
  "leaf_remove_at es dsize pos =
     (let entry_size = LEAF_ENTRY_SIZE + length (fst (es ! pos)) in
      if pos + 1 \<ge> length es then (take (length es - 1) es, dsize - entry_size)
      else (take pos es @ drop (pos + 1) es, dsize - entry_size))"

definition node_alloc_leaf :: "bt_env \<Rightarrow> bnode option" where
  "node_alloc_leaf env = (if \<not> ok_leaf env then None else Some (BLeaf [] 0))"

definition leaf_split ::
    "bt_env \<Rightarrow> bt_entry list \<Rightarrow> nat \<Rightarrow> ((bt_entry list \<times> nat) \<times> bytes \<times> (bt_entry list \<times> nat)) option" where
  "leaf_split env es dsize =
     (let mid = length es div 2;
          bytes = leaf_bytes (drop mid es)
      in
        if node_alloc_leaf env = None then None
        else if bytes > data_capacity then None
        else Some ((take mid es, dsize - bytes), fst (drop mid es ! 0), (drop mid es, bytes)))"

definition key_at :: "bt_entry list \<Rightarrow> nat \<Rightarrow> bytes \<Rightarrow> bool" where
  "key_at es pos key \<longleftrightarrow>
     pos < length es \<and> length (fst (es ! pos)) = length key \<and> memcmp (fst (es ! pos)) key = 0"

subsection \<open>Internal nodes\<close>

text \<open>
  The lengths of the arrays of children and of keys that \<open>calloc\<close> is asked for; both sums are taken in
  \<open>uint32_t\<close>.
\<close>

definition internal_slots :: "u32 \<Rightarrow> u32 \<times> u32" where
  "internal_slots fanout =
     (let cap = (if fanout \<noteq> 0 then fanout else QIHSE_BTREE_DEFAULT_FANOUT) in (cap + 2, cap + 1))"

definition node_alloc_internal :: "bool \<Rightarrow> u32 \<Rightarrow> (u32 \<times> u32) option" where
  "node_alloc_internal ok fanout = (if \<not> ok then None else Some (internal_slots fanout))"

text \<open>
  The shifts write \<open>keys[count]\<close> and \<open>children[count + 1]\<close>. There is no result when one of them is
  outside its array, or when \<open>count\<close> is already the largest \<open>uint16_t\<close>.
\<close>

definition internal_insert_child ::
    "u32 \<times> u32 \<Rightarrow> bytes list \<Rightarrow> bnode list \<Rightarrow> nat \<Rightarrow> bytes \<Rightarrow> bnode \<Rightarrow> (bytes list \<times> bnode list) option" where
  "internal_insert_child slots keys children pos key child =
     (if unat (snd slots) \<le> length keys \<or> unat (fst slots) \<le> length keys + 1 then None
      else if length keys + 1 \<ge> 2 ^ 16 then None
      else Some (take pos keys @ key # drop pos keys,
                 take (pos + 1) children @ child # drop (pos + 1) children))"

text \<open>The right node has arrays as long as those of the node it takes its keys from.\<close>

definition internal_split ::
    "bool \<Rightarrow> u32 \<Rightarrow> bytes list \<Rightarrow> bnode list \<Rightarrow> (bnode \<times> bytes \<times> bnode) option" where
  "internal_split ok fanout keys children =
     (let mid = length keys div 2 in
      case node_alloc_internal ok fanout of
        None \<Rightarrow> None
      | Some slots \<Rightarrow>
          Some (BNode (take mid keys) (take (mid + 1) children), keys ! mid,
                BNode (drop (mid + 1) keys) (drop (mid + 1) children)))"

subsection \<open>Insert\<close>

text \<open>
  What happened at a node: the row of an existing key was replaced, an entry was added, the insert
  failed (with or without having incremented the tree's count), the node was split and its
  right half has to be linked into the parent, or there is no defined result.
\<close>

datatype ins_result =
    InsReplaced bnode
  | InsDone bnode
  | InsFail bnode bool
  | InsSplit bnode bytes bnode
  | InsUndefined

definition split_result ::
    "bt_env \<Rightarrow> (bt_entry list \<times> nat) \<times> bytes \<times> (bt_entry list \<times> nat) \<Rightarrow> ins_result" where
  "split_result env s =
     (case s of (l, sep, r) \<Rightarrow>
        if \<not> ok_key_copy env then InsUndefined
        else InsSplit (BLeaf (fst l) (snd l)) sep (BLeaf (fst r) (snd r)))"

definition ins_leaf :: "bt_env \<Rightarrow> nat \<Rightarrow> bytes \<Rightarrow> u64 \<Rightarrow> bt_entry list \<Rightarrow> nat \<Rightarrow> ins_result" where
  "ins_leaf env capacity key row es dsize =
     (let pos = leaf_lower_bound es key;
          entry_bytes = LEAF_ENTRY_SIZE + length key;
          (es1, dsize1) = leaf_insert_at es dsize pos key row
      in
        if key_at es pos key then InsReplaced (BLeaf (es[pos := (fst (es ! pos), row)]) dsize)
        else if length es < capacity \<and> dsize + entry_bytes \<le> data_capacity then InsDone (BLeaf es1 dsize1)
        else if dsize + entry_bytes > data_capacity
        then
          if \<not> ok_big env then InsFail (BLeaf es dsize) False
          else
            (case leaf_split env es1 dsize1 of
               None \<Rightarrow> InsFail (BLeaf es dsize) True
             | Some s \<Rightarrow>
                 if \<not> ok_key_copy env then InsUndefined
                 else if snd (fst s) > data_capacity then InsFail (BLeaf es dsize) True
                 else split_result env s)
        else
          (case leaf_split env es1 dsize1 of
             None \<Rightarrow> InsFail (BLeaf es1 dsize1) True
           | Some s \<Rightarrow> split_result env s))"

text \<open>
  Descent to the leaf, then the loop from the leaf up to the root: the child's right half is linked
  into the parent, which is split in turn when it was full. \<open>d\<close> is the depth of the node. When
  the split finds no memory the code goes on with the key it has freed.
\<close>

definition link_child ::
    "bt_env \<Rightarrow> u32 \<Rightarrow> nat \<Rightarrow> bytes list \<Rightarrow> bnode list \<Rightarrow> nat \<Rightarrow> bytes \<Rightarrow> bnode \<Rightarrow> ins_result" where
  "link_child env fanout d keys children pi sep right =
     (if \<not> ok_key_copy env then InsUndefined
      else
        (case internal_insert_child (internal_slots fanout) keys children pi sep right of
           None \<Rightarrow> InsUndefined
         | Some (keys1, children1) \<Rightarrow>
             if length keys < unat fanout then InsDone (BNode keys1 children1)
             else
               (case internal_split (ok_internal env d) fanout keys1 children1 of
                  None \<Rightarrow> InsUndefined
                | Some (l, promo, r) \<Rightarrow> InsSplit l promo r)))"

lemma size_child: "i < length cs \<Longrightarrow> size (cs ! i) < Suc (size_list size cs)"
  using size_list_estimation' [of "cs ! i" cs "size (cs ! i)" size] by simp

function bt_ins :: "bt_env \<Rightarrow> u32 \<Rightarrow> nat \<Rightarrow> bytes \<Rightarrow> u64 \<Rightarrow> bnode \<Rightarrow> ins_result" where
  "bt_ins env fanout d key row (BLeaf es dsize) = ins_leaf env (unat fanout) key row es dsize"
| "bt_ins env fanout d key row (BNode keys children) =
     (let ci = internal_find_child keys key in
      if ci < length children
      then
        (case bt_ins env fanout (Suc d) key row (children ! ci) of
           InsReplaced c \<Rightarrow> InsReplaced (BNode keys (children[ci := c]))
         | InsDone c \<Rightarrow> InsDone (BNode keys (children[ci := c]))
         | InsFail c counted \<Rightarrow> InsFail (BNode keys (children[ci := c])) counted
         | InsSplit l sep r \<Rightarrow> link_child env fanout d keys (children[ci := l]) ci sep r
         | InsUndefined \<Rightarrow> InsUndefined)
      else InsUndefined)"
  by pat_completeness auto

termination
  by (relation "measure (\<lambda>(env, fanout, d, key, row, n). size n)") (auto intro: size_child)

definition qihse_btree_create :: "bt_env \<Rightarrow> u32 \<Rightarrow> btree option" where
  "qihse_btree_create env fanout =
     (if \<not> ok_tree env then None
      else
        (case node_alloc_leaf env of
           None \<Rightarrow> None
         | Some n \<Rightarrow>
             Some \<lparr>bt_root = n,
                   bt_fanout = (if fanout \<noteq> 0 then fanout else QIHSE_BTREE_DEFAULT_FANOUT),
                   bt_count = 0, bt_orphans = []\<rparr>))"

fun leaves :: "bnode \<Rightarrow> bt_entry list list" where
  "leaves (BLeaf es dsize) = [es]"
| "leaves (BNode keys children) = concat (map leaves children)"

text \<open>
  The root and the leaves that are only left on the chain. Without memory for a root the left half stays
  the root.
\<close>

definition new_root :: "bt_env \<Rightarrow> u32 \<Rightarrow> bnode \<Rightarrow> bytes \<Rightarrow> bnode \<Rightarrow> (bnode \<times> bt_entry list list) option" where
  "new_root env fanout child_left cur_key child_right =
     (case node_alloc_internal (ok_root env) fanout of
        None \<Rightarrow> Some (child_left, leaves child_right)
      | Some slots \<Rightarrow>
          if snd slots < 1 \<or> fst slots < 2 then None
          else Some (BNode [cur_key] [child_left, child_right], []))"

definition qihse_btree_insert :: "bt_env \<Rightarrow> btree \<Rightarrow> bytes option \<Rightarrow> u64 \<Rightarrow> (bool \<times> btree) option" where
  "qihse_btree_insert env t key row =
     (case key of
        None \<Rightarrow> Some (False, t)
      | Some k \<Rightarrow>
          if length k > QIHSE_BTREE_MAX_KEY_LEN then Some (False, t)
          else
            (case bt_ins env (bt_fanout t) 0 k row (bt_root t) of
               InsReplaced n \<Rightarrow> Some (True, t\<lparr>bt_root := n\<rparr>)
             | InsDone n \<Rightarrow> Some (True, t\<lparr>bt_root := n, bt_count := bt_count t + 1\<rparr>)
             | InsFail n counted \<Rightarrow>
                 Some (False, t\<lparr>bt_root := n, bt_count := (if counted then bt_count t + 1 else bt_count t)\<rparr>)
             | InsSplit l sep r \<Rightarrow>
                 (case new_root env (bt_fanout t) l sep r of
                    None \<Rightarrow> None
                  | Some (n, left) \<Rightarrow>
                      Some (True, t\<lparr>bt_root := n, bt_count := bt_count t + 1,
                                    bt_orphans := left @ bt_orphans t\<rparr>))
             | InsUndefined \<Rightarrow> None))"

subsection \<open>Lookup and delete\<close>

function descend_to_leaf :: "bnode \<Rightarrow> bytes \<Rightarrow> bt_entry list list" where
  "descend_to_leaf (BLeaf es dsize) key = [es]"
| "descend_to_leaf (BNode keys children) key =
     (let ci = internal_find_child keys key in
      if ci < length children
      then descend_to_leaf (children ! ci) key @ concat (map leaves (drop (Suc ci) children))
      else [])"
  by pat_completeness auto
termination
  by (relation "measure (\<lambda>(n, key). size n)") (auto intro: size_child)

definition qihse_btree_lookup :: "btree \<Rightarrow> bytes option \<Rightarrow> u64 option" where
  "qihse_btree_lookup t key =
     (case key of
        None \<Rightarrow> None
      | Some k \<Rightarrow>
          (case descend_to_leaf (bt_root t) k of
             [] \<Rightarrow> None
           | es # _ \<Rightarrow>
               let pos = leaf_lower_bound es k in
               if key_at es pos k then Some (snd (es ! pos)) else None))"

function bt_del :: "bytes \<Rightarrow> bnode \<Rightarrow> u64 option \<times> bnode" where
  "bt_del key (BLeaf es dsize) =
     (let pos = leaf_lower_bound es key in
      if key_at es pos key
      then (case leaf_remove_at es dsize pos of (es1, dsize1) \<Rightarrow> (Some (snd (es ! pos)), BLeaf es1 dsize1))
      else (None, BLeaf es dsize))"
| "bt_del key (BNode keys children) =
     (let ci = internal_find_child keys key in
      if ci < length children
      then (case bt_del key (children ! ci) of (r, c) \<Rightarrow> (r, BNode keys (children[ci := c])))
      else (None, BNode keys children))"
  by pat_completeness auto
termination
  by (relation "measure (\<lambda>(key, n). size n)") (auto intro: size_child)

definition qihse_btree_delete :: "btree \<Rightarrow> bytes option \<Rightarrow> u64 option \<times> btree" where
  "qihse_btree_delete t key =
     (case key of
        None \<Rightarrow> (None, t)
      | Some k \<Rightarrow>
          (case bt_del k (bt_root t) of
             (None, n) \<Rightarrow> (None, t)
           | (Some row, n) \<Rightarrow> (Some row, t\<lparr>bt_root := n, bt_count := bt_count t - 1\<rparr>)))"

definition qihse_btree_size :: "btree \<Rightarrow> u64" where
  "qihse_btree_size t = bt_count t"

subsection \<open>Cursors\<close>

record bt_cursor =
  cur_leaf :: "bt_entry list list"
  cur_idx :: nat
  cur_min :: "bytes option"
  cur_max :: "bytes option"
  cur_prefix :: "bytes option"
  cur_exhausted :: bool

definition cursor_in_range :: "bt_cursor \<Rightarrow> bytes \<Rightarrow> bool" where
  "cursor_in_range c key =
     (case cur_prefix c of
        Some p \<Rightarrow>
          if length key < length p then False
          else if memcmp (take (length p) key) p \<noteq> 0 then False
          else True
      | None \<Rightarrow>
          if (case cur_min c of None \<Rightarrow> False | Some m \<Rightarrow> key_cmp key m < 0) then False
          else if (case cur_max c of None \<Rightarrow> False | Some m \<Rightarrow> key_cmp key m > 0) then False
          else True)"

definition cursor_past_range :: "bt_cursor \<Rightarrow> bytes \<Rightarrow> bool" where
  "cursor_past_range c key =
     (case cur_prefix c of
        Some p \<Rightarrow> key_cmp key p > 0
      | None \<Rightarrow> (case cur_max c of Some m \<Rightarrow> key_cmp key m > 0 | None \<Rightarrow> False))"

text \<open>The loop that \<open>cursor_advance_to_first\<close> and \<open>qihse_btree_cursor_next\<close> share.\<close>

function cursor_seek :: "bt_cursor \<Rightarrow> bt_entry list list \<Rightarrow> nat \<Rightarrow> bool \<times> bt_cursor" where
  "cursor_seek c [] idx = (False, c\<lparr>cur_leaf := [], cur_idx := idx, cur_exhausted := True\<rparr>)"
| "cursor_seek c (es # next) idx =
     (if idx < length es
      then
        if cursor_in_range c (fst (es ! idx)) then (True, c\<lparr>cur_leaf := es # next, cur_idx := idx\<rparr>)
        else if cursor_past_range c (fst (es ! idx))
        then (False, c\<lparr>cur_leaf := es # next, cur_idx := idx, cur_exhausted := True\<rparr>)
        else cursor_seek c (es # next) (idx + 1)
      else cursor_seek c next 0)"
  by pat_completeness auto
termination
  by (relation "measures [\<lambda>(c, ls, idx). length ls, \<lambda>(c, ls, idx). length (hd ls) - idx]") auto

function leftmost_leaf :: "bnode \<Rightarrow> bt_entry list list" where
  "leftmost_leaf (BLeaf es dsize) = [es]"
| "leftmost_leaf (BNode keys children) =
     (if 0 < length children
      then leftmost_leaf (children ! 0) @ concat (map leaves (drop 1 children)) else [])"
  by pat_completeness auto
termination
  by (relation "measure size") (auto intro: size_child)

definition cursor_advance_to_first :: "btree \<Rightarrow> bt_cursor \<Rightarrow> bool \<times> bt_cursor" where
  "cursor_advance_to_first t c =
     (let leaf = (case cur_prefix c of
                    Some p \<Rightarrow> descend_to_leaf (bt_root t) p
                  | None \<Rightarrow>
                      (case cur_min c of
                         Some m \<Rightarrow> descend_to_leaf (bt_root t) m
                       | None \<Rightarrow> leftmost_leaf (bt_root t)))
      in
        if leaf = [] then (False, c\<lparr>cur_exhausted := True\<rparr>) else cursor_seek c (leaf @ bt_orphans t) 0)"

definition bound_of :: "bytes option \<Rightarrow> bytes option" where
  "bound_of p = (case p of None \<Rightarrow> None | Some bs \<Rightarrow> if bs = [] then None else Some bs)"

definition qihse_btree_range_open :: "bool \<Rightarrow> btree \<Rightarrow> bytes option \<Rightarrow> bytes option \<Rightarrow> bt_cursor option" where
  "qihse_btree_range_open ok_cursor t min_key max_key =
     (if \<not> ok_cursor then None
      else
        (case cursor_advance_to_first t
                \<lparr>cur_leaf = [], cur_idx = 0, cur_min = bound_of min_key, cur_max = bound_of max_key,
                 cur_prefix = None, cur_exhausted = False\<rparr> of
           (found, c) \<Rightarrow> if found then Some c else None))"

definition qihse_btree_prefix_open :: "bool \<Rightarrow> btree \<Rightarrow> bytes option \<Rightarrow> bt_cursor option" where
  "qihse_btree_prefix_open ok_cursor t prefix =
     (if bound_of prefix = None then None
      else if \<not> ok_cursor then None
      else
        (case cursor_advance_to_first t
                \<lparr>cur_leaf = [], cur_idx = 0, cur_min = None, cur_max = None,
                 cur_prefix = prefix, cur_exhausted = False\<rparr> of
           (found, c) \<Rightarrow> if found then Some c else None))"

definition qihse_btree_cursor_next :: "bt_cursor \<Rightarrow> bool \<times> bt_cursor" where
  "qihse_btree_cursor_next c =
     (if cur_exhausted c then (False, c) else cursor_seek c (cur_leaf c) (cur_idx c + 1))"

definition qihse_btree_cursor_get :: "bt_cursor \<Rightarrow> bt_entry option" where
  "qihse_btree_cursor_get c =
     (if cur_exhausted c then None
      else
        (case cur_leaf c of
           [] \<Rightarrow> None
         | es # _ \<Rightarrow> if cur_idx c \<ge> length es then None else Some (es ! cur_idx c)))"

subsection \<open>Composite keys\<close>

text \<open>
  A column value with its type: the integers and the double are their bit patterns, a string is
  its bytes without the terminator, and \<open>ColOther\<close> stands for a type code outside the enumeration.
\<close>

datatype bt_col =
    ColInt32 u32
  | ColInt64 u64
  | ColFloat64 u64
  | ColString bytes
  | ColOther

fun col_serialized_len :: "bt_col \<Rightarrow> nat" where
  "col_serialized_len (ColInt32 v) = 4"
| "col_serialized_len (ColInt64 v) = 8"
| "col_serialized_len (ColFloat64 d) = 8"
| "col_serialized_len (ColString s) = length s + 1"
| "col_serialized_len ColOther = 0"

definition encode_int64_sortable :: "u64 \<Rightarrow> bytes" where
  "encode_int64_sortable v =
     (let u = v XOR push_bit 63 1 in map (\<lambda>i. ucast (drop_bit (56 - 8 * i) u)) [0..<8])"

definition encode_int32_sortable :: "u32 \<Rightarrow> bytes" where
  "encode_int32_sortable v =
     (let u = v XOR push_bit 31 1 in map (\<lambda>i. ucast (drop_bit (24 - 8 * i) u)) [0..<4])"

definition encode_float64_sortable :: "u64 \<Rightarrow> bytes" where
  "encode_float64_sortable d =
     (let mask = (if drop_bit 63 d AND 1 \<noteq> 0 then 0xFFFFFFFFFFFFFFFF else push_bit 63 1);
          u = d XOR mask
      in map (\<lambda>i. ucast (drop_bit (56 - 8 * i) u)) [0..<8])"

text \<open>The loop over the columns: whether it reached the end, and the bytes it wrote.\<close>

fun put_cols :: "bt_col list \<Rightarrow> bool \<times> bytes" where
  "put_cols [] = (True, [])"
| "put_cols (c # cs) =
     (let rest = put_cols cs in
      case c of
        ColInt32 v \<Rightarrow> (fst rest, encode_int32_sortable v @ snd rest)
      | ColInt64 v \<Rightarrow> (fst rest, encode_int64_sortable v @ snd rest)
      | ColFloat64 d \<Rightarrow> (fst rest, encode_float64_sortable d @ snd rest)
      | ColString s \<Rightarrow> (fst rest, s @ [0x00] @ snd rest)
      | ColOther \<Rightarrow> (False, []))"

text \<open>The result code, the value of \<open>*out_len\<close> and the bytes written to the buffer.\<close>

definition qihse_btree_serialize_key :: "bt_col list option \<Rightarrow> bool \<Rightarrow> nat \<Rightarrow> int \<times> nat \<times> bytes" where
  "qihse_btree_serialize_key cols out_buf out_len =
     (case cols of
        None \<Rightarrow> (-1, out_len, [])
      | Some cs \<Rightarrow>
          let total = (\<Sum>c\<leftarrow>cs. col_serialized_len c) in
          if \<not> out_buf then (0, total, [])
          else if out_len < total then (-1, total, [])
          else (case put_cols cs of
                  (True, bs) \<Rightarrow> (0, total, bs)
                | (False, bs) \<Rightarrow> (-1, out_len, bs)))"

definition qihse_btree_serialize_key_alloc :: "bool \<Rightarrow> bt_col list option \<Rightarrow> int \<times> bytes option" where
  "qihse_btree_serialize_key_alloc ok_buf cols =
     (case qihse_btree_serialize_key cols False 0 of
        (rc, need, _) \<Rightarrow>
          if rc \<noteq> 0 then (-1, None)
          else if \<not> ok_buf then (-1, None)
          else (case qihse_btree_serialize_key cols True need of
                  (rc2, cap, bs) \<Rightarrow> if rc2 \<noteq> 0 then (-1, None) else (0, Some bs)))"

subsection \<open>Saving and loading\<close>

definition QIHSE_BTREE_MAGIC :: u32 where
  "QIHSE_BTREE_MAGIC = 0x51425452"

definition QIHSE_BTREE_VERSION :: u32 where
  "QIHSE_BTREE_VERSION = 1"

definition save_entry :: "bt_entry \<Rightarrow> bytes" where
  "save_entry e = le_bytes 2 (of_nat (length (fst e)) :: u16) @ le_bytes 8 (snd e) @ fst e"

text \<open>
  The result code and the file. \<open>limit\<close> is the number of bytes the disk takes, when it does not
  take them all: the code ignores what \<open>fwrite\<close> and \<open>fclose\<close> return.
\<close>

definition qihse_btree_save :: "bool \<Rightarrow> nat option \<Rightarrow> btree \<Rightarrow> int \<times> bytes option" where
  "qihse_btree_save ok_open limit t =
     (if \<not> ok_open then (-1, None)
      else
        let es = concat (leftmost_leaf (bt_root t) @ bt_orphans t);
            out = le_bytes 4 QIHSE_BTREE_MAGIC @ le_bytes 4 QIHSE_BTREE_VERSION @
                  le_bytes 4 (bt_fanout t) @ le_bytes 8 (bt_count t) @ concat (map save_entry es);
            file = (case limit of None \<Rightarrow> out | Some n \<Rightarrow> take n out)
        in (if of_nat (length es) \<noteq> bt_count t then -1 else 0, Some file))"

definition fread :: "nat \<Rightarrow> bytes \<Rightarrow> (bytes \<times> bytes) option" where
  "fread n bs = (if length bs < n then None else Some (take n bs, drop n bs))"

text \<open>
  The outer option is the defined result of the inserts; the inner one is the tree or a null pointer.
  \<open>env i\<close> and \<open>ok_key i\<close> are the allocations of the \<open>i\<close>-th entry.
\<close>

fun load_entries :: "(nat \<Rightarrow> bt_env) \<Rightarrow> (nat \<Rightarrow> bool) \<Rightarrow> nat \<Rightarrow> nat \<Rightarrow> bytes \<Rightarrow> btree \<Rightarrow> btree option option" where
  "load_entries env ok_key i 0 bs t = Some (Some t)"
| "load_entries env ok_key i (Suc n) bs t =
     (case fread 2 bs of
        None \<Rightarrow> Some None
      | Some (kl, bs1) \<Rightarrow>
          let key_len = unat (le_word kl :: u16) in
          (case fread 8 bs1 of
             None \<Rightarrow> Some None
           | Some (row_id, bs2) \<Rightarrow>
               if \<not> ok_key i then Some None
               else
                 (case fread key_len bs2 of
                    None \<Rightarrow> Some None
                  | Some (key, bs3) \<Rightarrow>
                      (case qihse_btree_insert (env i) t (Some key) (le_word row_id) of
                         None \<Rightarrow> None
                       | Some (_, t1) \<Rightarrow> load_entries env ok_key (Suc i) n bs3 t1))))"

definition qihse_btree_load :: "bt_env \<Rightarrow> (nat \<Rightarrow> bt_env) \<Rightarrow> (nat \<Rightarrow> bool) \<Rightarrow> bytes option \<Rightarrow> btree option option" where
  "qihse_btree_load env0 env ok_key file =
     (case file of
        None \<Rightarrow> Some None
      | Some bs \<Rightarrow>
          (case fread 4 bs of
             None \<Rightarrow> Some None
           | Some (magic, bs1) \<Rightarrow>
               if le_word magic \<noteq> QIHSE_BTREE_MAGIC then Some None
               else (case fread 4 bs1 of
                 None \<Rightarrow> Some None
               | Some (version, bs2) \<Rightarrow>
                   if le_word version \<noteq> QIHSE_BTREE_VERSION then Some None
                   else (case fread 4 bs2 of
                     None \<Rightarrow> Some None
                   | Some (fanout, bs3) \<Rightarrow>
                       (case fread 8 bs3 of
                          None \<Rightarrow> Some None
                        | Some (count, bs4) \<Rightarrow>
                            (case qihse_btree_create env0 (le_word fanout) of
                               None \<Rightarrow> Some None
                             | Some t \<Rightarrow>
                                 load_entries env ok_key 0 (unat (le_word count :: u64)) bs4 t))))))"

end
