(* ===== verification/BtreeOrder.thy ===== *)
theory BtreeOrder
  imports Btree
begin

section \<open>Order, search and sorted lists\<close>

text \<open>
  \<open>key_cmp\<close> is the lexicographic order of byte strings, and the two binary searches find the
  boundary they look for in a sorted array. The abstract index is a list of entries that is strictly sorted
  by key; \<open>ins_list\<close> and \<open>del_list\<close> are insertion (or replacement) and deletion on it.
\<close>

subsection \<open>Comparison\<close>

lemma uint_u8_eq [simp]: "uint (x::u8) = uint y \<longleftrightarrow> x = y"
  by (simp add: word_uint_eq_iff)

lemma key_cmp_simps [simp]:
  "key_cmp [] [] = 0"
  "key_cmp [] (y # ys) = -1"
  "key_cmp (x # xs) [] = 1"
  "key_cmp (x # xs) (y # ys) = (if x = y then key_cmp xs ys else int (unat x) - int (unat y))"
  by (auto simp: key_cmp_def Let_def)

lemma key_cmp_lex:
  "(key_cmp a b < 0 \<longleftrightarrow> a < b) \<and> (key_cmp a b = 0 \<longleftrightarrow> a = b)"
proof (induction a arbitrary: b)
  case Nil
  then show ?case by (cases b) auto
next
  case (Cons x xs)
  then show ?case by (cases b) (auto simp: word_less_def)
qed

lemma key_cmp_order [simp]:
  "key_cmp a b < 0 \<longleftrightarrow> a < b" "key_cmp a b = 0 \<longleftrightarrow> a = b"
  "key_cmp a b \<le> 0 \<longleftrightarrow> a \<le> b" "0 < key_cmp a b \<longleftrightarrow> b < a"
proof -
  show less: "key_cmp a b < 0 \<longleftrightarrow> a < b" and eq: "key_cmp a b = 0 \<longleftrightarrow> a = b"
    using key_cmp_lex by blast+
  show le: "key_cmp a b \<le> 0 \<longleftrightarrow> a \<le> b"
    unfolding order.order_iff_strict [of "key_cmp a b"] order.order_iff_strict [of a] less eq ..
  show "0 < key_cmp a b \<longleftrightarrow> b < a"
    unfolding not_le [symmetric] le ..
qed

lemma memcmp_eq: "length a = length b \<Longrightarrow> memcmp a b = 0 \<longleftrightarrow> a = b"
  by (induction a b rule: memcmp.induct) auto

lemma memcmp_prefix:
  "length p \<le> length key \<Longrightarrow> memcmp (take (length p) key) p = 0 \<longleftrightarrow> take (length p) key = p"
  by (simp add: memcmp_eq)

lemma key_at_iff: "key_at es pos key \<longleftrightarrow> pos < length es \<and> fst (es ! pos) = key"
  using memcmp_eq by (auto simp: key_at_def)

lemma bisect_split:
  assumes anti: "\<And>i j. i \<le> j \<Longrightarrow> j < n \<Longrightarrow> go j \<Longrightarrow> go i"
    and "lo \<le> hi" "hi \<le> n" "\<And>i. i < lo \<Longrightarrow> go i" "\<And>i. hi \<le> i \<Longrightarrow> i < n \<Longrightarrow> \<not> go i"
  shows "bisect go lo hi \<le> n \<and> (\<forall>i < n. go i \<longleftrightarrow> i < bisect go lo hi)"
  using assms(2-)
proof (induction "hi - lo" arbitrary: lo hi rule: less_induct)
  case less
  define mid where "mid = lo + (hi - lo) div 2"
  have step: "bisect go lo hi =
      (if lo < hi then if go mid then bisect go (mid + 1) hi else bisect go lo mid else lo)"
    by (simp add: bisect.simps [of go lo hi] mid_def)
  show ?case
  proof (cases "lo < hi")
    case False
    with less.prems(1) have "bisect go lo hi = hi" unfolding step by simp
    moreover from False less.prems(1) have "lo = hi" by simp
    ultimately show ?thesis using less.prems(2-) not_le by metis
  next
    case True
    then have mid: "lo \<le> mid" "mid < hi" by (auto simp: mid_def)
    show ?thesis
    proof (cases "go mid")
      case T: True
      have "go i" if "i < mid + 1" for i
        using anti [of i mid] that mid less.prems T by simp
      with less.hyps [of hi "mid + 1"] less.prems mid T show ?thesis by (simp add: step)
    next
      case F: False
      have "\<not> go i" if "mid \<le> i" "i < n" for i
        using anti [of mid i] that F by blast
      with less.hyps [of mid lo] less.prems mid F show ?thesis by (simp add: step)
    qed
  qed
qed

subsection \<open>The abstract index\<close>

abbreviation below :: "bt_entry list \<Rightarrow> bytes \<Rightarrow> bool" where
  "below es k \<equiv> \<forall>e \<in> set es. fst e < k"

abbreviation above :: "bt_entry list \<Rightarrow> bytes \<Rightarrow> bool" where
  "above es k \<equiv> \<forall>e \<in> set es. k \<le> fst e"

primrec ins_list :: "bytes \<Rightarrow> u64 \<Rightarrow> bt_entry list \<Rightarrow> bt_entry list" where
  "ins_list k r [] = [(k, r)]"
| "ins_list k r (e # es) =
     (if fst e < k then e # ins_list k r es else if fst e = k then (k, r) # es else (k, r) # e # es)"

definition del_list :: "bytes \<Rightarrow> bt_entry list \<Rightarrow> bt_entry list" where
  "del_list k es = filter (\<lambda>e. fst e \<noteq> k) es"

abbreviation ordered :: "bt_entry list \<Rightarrow> bool" where
  "ordered es \<equiv> sorted_wrt (<) (map fst es)"

lemma ins_list_below: "below as k \<Longrightarrow> ins_list k r (as @ bs) = as @ ins_list k r bs"
  by (induction as) auto

lemma ins_list_beyond: "\<forall>e \<in> set bs. k < fst e \<Longrightarrow> ins_list k r (as @ bs) = ins_list k r as @ bs"
  by (induction as) (cases bs, auto)

lemma del_list_simps [simp]:
  "del_list k [] = []" "del_list k (e # es) = (if fst e = k then del_list k es else e # del_list k es)"
  "del_list k (as @ bs) = del_list k as @ del_list k bs"
  by (simp_all add: del_list_def)

lemma del_list_none: "(\<And>e. e \<in> set es \<Longrightarrow> fst e \<noteq> k) \<Longrightarrow> del_list k es = es"
  by (simp add: del_list_def)

lemma map_of_ins_list: "map_of (ins_list k r es) = (map_of es)(k \<mapsto> r)" if "ordered es"
  using that by (induction es) (auto simp: fun_eq_iff)

lemma keys_ins_list: "fst ` set (ins_list k r es) = insert k (fst ` set es)"
  by (induction es) auto

lemma set_ins_list: "set (ins_list k r es) \<subseteq> insert (k, r) (set es)"
  by (induction es) auto

lemma ordered_ins_list: "ordered es \<Longrightarrow> ordered (ins_list k r es)"
proof (induction es)
  case (Cons e es)
  then show ?case using keys_ins_list [of k r es] by auto
qed simp

lemma length_ins_list: "length (ins_list k r es) = (if k \<in> fst ` set es then length es else Suc (length es))"
  if "ordered es" using that by (induction es) auto

subsection \<open>The binary searches\<close>

lemma split_at_index:
  assumes "p \<le> length xs" "\<forall>i < length xs. P (xs ! i) \<longleftrightarrow> i < p"
  shows "(\<forall>x \<in> set (take p xs). P x) \<and> (\<forall>x \<in> set (drop p xs). \<not> P x)"
proof (intro conjI ballI)
  fix x
  assume "x \<in> set (take p xs)"
  then obtain i where "i < p" "x = xs ! i" using assms(1) by (auto simp: in_set_conv_nth)
  with assms show "P x" by simp
next
  fix x
  assume "x \<in> set (drop p xs)"
  then obtain i where "i < length xs - p" "x = xs ! (p + i)" using assms(1) by (auto simp: in_set_conv_nth)
  with assms show "\<not> P x" by simp
qed

lemma leaf_lower_bound_split:
  assumes "ordered es"
  shows "leaf_lower_bound es k \<le> length es" "below (take (leaf_lower_bound es k) es) k"
    "above (drop (leaf_lower_bound es k) es) k"
proof -
  have anti: "fst (es ! i) < k" if "i \<le> j" "j < length es" "fst (es ! j) < k" for i j
    using that sorted_wrt_nth_less [OF assms, of i j] by (cases "i = j") auto
  have "leaf_lower_bound es k \<le> length es \<and>
      (\<forall>i < length es. fst (es ! i) < k \<longleftrightarrow> i < leaf_lower_bound es k)"
    unfolding leaf_lower_bound_def key_cmp_order
    by (rule bisect_split) (use anti in auto)
  from this and split_at_index [of _ es "\<lambda>e. fst e < k", OF conjunct1 conjunct2, OF this this]
  show "leaf_lower_bound es k \<le> length es" "below (take (leaf_lower_bound es k) es) k"
    "above (drop (leaf_lower_bound es k) es) k"
    by (simp_all add: not_less)
qed

lemma internal_find_child_split:
  assumes "sorted ks"
  shows "internal_find_child ks k \<le> length ks" "\<forall>s \<in> set (take (internal_find_child ks k) ks). s \<le> k"
    "\<forall>s \<in> set (drop (internal_find_child ks k) ks). k < s"
proof -
  have "internal_find_child ks k \<le> length ks \<and>
      (\<forall>i < length ks. ks ! i \<le> k \<longleftrightarrow> i < internal_find_child ks k)"
    unfolding internal_find_child_def key_cmp_order
    by (rule bisect_split) (use assms in \<open>auto simp: sorted_iff_nth_mono dest: order.trans\<close>)
  from this and split_at_index [of _ ks "\<lambda>s. s \<le> k", OF conjunct1 conjunct2, OF this this]
  show "internal_find_child ks k \<le> length ks"
    "\<forall>s \<in> set (take (internal_find_child ks k) ks). s \<le> k"
    "\<forall>s \<in> set (drop (internal_find_child ks k) ks). k < s"
    by (simp_all add: not_le)
qed

end
