(* ===== verification/BtreeInv.thy ===== *)
theory BtreeInv
  imports BtreeOrder
begin

section \<open>The tree invariant and the operations\<close>

text \<open>
  \<open>tree_inv cap lo hi n\<close> says that the keys under the node \<open>n\<close> lie between the bounds in strict
  order, that separators route every key to its child, that \<open>data_size\<close> is exact and that every page and
  array is within its capacity. The left-to-right entries of the tree are the abstract index;
  insert, lookup and delete implement \<open>ins_list\<close>, \<open>map_of\<close> and \<open>del_list\<close> on it and keep the invariant.
  With keys of at most 236 bytes both halves of a split page always fit, so insert never fails for
  lack of room. Up to a fanout of \<open>FANOUT_MAX\<close> no write leaves the arrays of an internal node and no count
  wraps, so insert has a result. The locale \<open>sorted_index\<close> is the interface that loading a saved tree relies on.
\<close>

subsection \<open>The invariant\<close>

definition entries :: "bnode \<Rightarrow> bt_entry list" where
  "entries n = concat (leaves n)"

abbreviation kids_entries :: "bnode list \<Rightarrow> bt_entry list" where
  "kids_entries cs \<equiv> concat (map entries cs)"

lemma concat_leaves: "concat (concat (map leaves cs)) = kids_entries cs"
  by (induction cs) (simp_all add: entries_def)

lemma entries_simps [simp]:
  "entries (BLeaf es n) = es" "entries (BNode ks cs) = kids_entries cs"
  by (simp_all add: concat_leaves entries_def [of "BNode ks cs"]) (simp add: entries_def)

definition ge_lo :: "bytes option \<Rightarrow> bytes \<Rightarrow> bool" where
  "ge_lo lo k = (case lo of None \<Rightarrow> True | Some l \<Rightarrow> l \<le> k)"

definition le_hi :: "bytes option \<Rightarrow> bytes \<Rightarrow> bool" where
  "le_hi hi k = (case hi of None \<Rightarrow> True | Some h \<Rightarrow> k \<le> h)"

definition lt_hi :: "bytes option \<Rightarrow> bytes \<Rightarrow> bool" where
  "lt_hi hi k = (case hi of None \<Rightarrow> True | Some h \<Rightarrow> k < h)"

lemma bound_simps [simp]:
  "ge_lo None k" "ge_lo (Some l) k \<longleftrightarrow> l \<le> k" "le_hi None k" "le_hi (Some h) k \<longleftrightarrow> k \<le> h"
  "lt_hi None k" "lt_hi (Some h) k \<longleftrightarrow> k < h"
  by (simp_all add: ge_lo_def le_hi_def lt_hi_def)

lemma ge_lo_trans: "ge_lo lo k \<Longrightarrow> k \<le> k' \<Longrightarrow> ge_lo lo k'"
  by (cases lo) auto

lemma hi_trans: "le_hi hi k \<Longrightarrow> k' \<le> k \<Longrightarrow> le_hi hi k'" "le_hi hi k \<Longrightarrow> k' < k \<Longrightarrow> lt_hi hi k'"
  "lt_hi hi k \<Longrightarrow> k' \<le> k \<Longrightarrow> lt_hi hi k'" "lt_hi hi k \<Longrightarrow> le_hi hi k"
  by (cases hi, auto)+

fun tree_inv :: "nat \<Rightarrow> bytes option \<Rightarrow> bytes option \<Rightarrow> bnode \<Rightarrow> bool"
  and kids_inv :: "nat \<Rightarrow> bytes option \<Rightarrow> bytes option \<Rightarrow> bytes list \<Rightarrow> bnode list \<Rightarrow> bool" where
  "tree_inv cap lo hi (BLeaf es n) \<longleftrightarrow>
     ordered es \<and> (\<forall>e \<in> set es. ge_lo lo (fst e) \<and> lt_hi hi (fst e)) \<and> n = leaf_bytes es \<and>
     n \<le> data_capacity \<and> length es \<le> cap"
| "tree_inv cap lo hi (BNode ks cs) \<longleftrightarrow> length ks \<le> cap \<and> kids_inv cap lo hi ks cs"
| "kids_inv cap lo hi [] (c # cs) \<longleftrightarrow> cs = [] \<and> tree_inv cap lo hi c"
| "kids_inv cap lo hi (k # ks) (c # cs) \<longleftrightarrow>
     ge_lo lo k \<and> le_hi hi k \<and> tree_inv cap lo (Some k) c \<and> kids_inv cap (Some k) hi ks cs"
| "kids_inv cap lo hi ks [] \<longleftrightarrow> False"

primrec pre_inv :: "nat \<Rightarrow> bytes option \<Rightarrow> bytes option \<Rightarrow> bytes list \<Rightarrow> bnode list \<Rightarrow> bool" where
  "pre_inv cap lo hi [] cs \<longleftrightarrow> cs = []"
| "pre_inv cap lo hi (k # ks) cs \<longleftrightarrow> 
     (case cs of [] \<Rightarrow> False | c # cs' \<Rightarrow> ge_lo lo k \<and> le_hi hi k \<and> tree_inv cap lo (Some k) c \<and> pre_inv cap (Some k) hi ks cs')"

definition low_of :: "bytes option \<Rightarrow> bytes list \<Rightarrow> bytes option" where
  "low_of lo ks = (if ks = [] then lo else Some (last ks))"

definition high_of :: "bytes option \<Rightarrow> bytes list \<Rightarrow> bytes option" where
  "high_of hi ks = (case ks of [] \<Rightarrow> hi | k # _ \<Rightarrow> Some k)"

definition rest_inv :: "nat \<Rightarrow> bytes option \<Rightarrow> bytes option \<Rightarrow> bytes list \<Rightarrow> bnode list \<Rightarrow> bool" where
  "rest_inv cap lo hi ks cs \<longleftrightarrow>
     (case ks of [] \<Rightarrow> cs = [] | k # ks' \<Rightarrow> ge_lo lo k \<and> le_hi hi k \<and> kids_inv cap (Some k) hi ks' cs)"

lemma kids_cons:
  "kids_inv cap lo hi ks (c # cs) \<longleftrightarrow> tree_inv cap lo (high_of hi ks) c \<and> rest_inv cap lo hi ks cs"
  by (cases ks) (auto simp: high_of_def rest_inv_def)

lemma kids_append:
  "length cs1 = length ks1 \<Longrightarrow>
   kids_inv cap lo hi (ks1 @ ks2) (cs1 @ cs2) \<longleftrightarrow>
     pre_inv cap lo hi ks1 cs1 \<and> kids_inv cap (low_of lo ks1) hi ks2 cs2"
  by (induction cs1 ks1 arbitrary: lo rule: list_induct2) (auto simp: low_of_def)

lemma kids_length: "kids_inv cap lo hi ks cs \<Longrightarrow> length cs = Suc (length ks)"
  by (induction ks arbitrary: lo cs) (case_tac cs, auto)+

lemma kids_sorted: "kids_inv cap lo hi ks cs \<Longrightarrow> sorted ks \<and> (\<forall>k \<in> set ks. ge_lo lo k)"
proof (induction ks arbitrary: lo cs)
  case (Cons k ks)
  then obtain c cs' where "cs = c # cs'" by (cases cs) auto
  with Cons.prems Cons.IH [of "Some k" cs'] show ?case by (auto intro: ge_lo_trans)
qed simp

lemma inv_entries:
  "tree_inv cap lo hi n \<Longrightarrow> ordered (entries n) \<and> (\<forall>e \<in> set (entries n). ge_lo lo (fst e) \<and> lt_hi hi (fst e))"
  "kids_inv cap lo hi ks cs \<Longrightarrow>
     ordered (kids_entries cs) \<and> (\<forall>e \<in> set (kids_entries cs). ge_lo lo (fst e) \<and> lt_hi hi (fst e))"
proof (induction cap lo hi n and cap lo hi ks cs rule: tree_inv_kids_inv.induct)
  case (4 cap lo hi k ks c cs)
  then have c: "ordered (entries c)" "\<And>e. e \<in> set (entries c) \<Longrightarrow> ge_lo lo (fst e) \<and> fst e < k"
    and cs: "ordered (kids_entries cs)" "\<And>e. e \<in> set (kids_entries cs) \<Longrightarrow> k \<le> fst e \<and> lt_hi hi (fst e)"
    and k: "ge_lo lo k" "le_hi hi k" by auto
  have "ordered (entries c @ kids_entries cs)"
    using c cs by (fastforce simp: sorted_wrt_append)
  moreover have "ge_lo lo (fst e) \<and> lt_hi hi (fst e)" if "e \<in> set (entries c @ kids_entries cs)" for e
    using that c(2) [of e] cs(2) [of e] k by (auto intro: ge_lo_trans hi_trans)
  ultimately show ?case by simp
qed auto

lemma pre_below:
  "pre_inv cap lo hi ks cs \<Longrightarrow> \<forall>s \<in> set ks. s \<le> k \<Longrightarrow> below (kids_entries cs) k"
proof (induction ks arbitrary: lo cs)
  case (Cons s ks)
  then obtain c cs' where cs: "cs = c # cs'" "tree_inv cap lo (Some s) c" "pre_inv cap (Some s) hi ks cs'"
    by (auto split: list.splits)
  with inv_entries(1) [OF cs(2)] Cons.IH [OF cs(3)] Cons.prems(2) show ?case
    by (auto simp del: entries_simps intro: order.strict_trans2)
qed simp

lemma rest_beyond:
  "rest_inv cap lo hi ks cs \<Longrightarrow> \<forall>s \<in> set ks. k < s \<Longrightarrow> \<forall>e \<in> set (kids_entries cs). k < fst e"
  using inv_entries(2) by (fastforce simp: rest_inv_def split: list.splits intro: order.strict_trans1)

subsection \<open>Descending into a node\<close>

lemma node_at:
  assumes "kids_inv cap lo hi ks cs"
  obtains ks1 ks2 cs1 c cs2 where
    "ks = ks1 @ ks2" "cs = cs1 @ c # cs2" "length ks1 = internal_find_child ks k"
    "length cs1 = internal_find_child ks k"
    "pre_inv cap lo hi ks1 cs1" "tree_inv cap (low_of lo ks1) (high_of hi ks2) c"
    "rest_inv cap (low_of lo ks1) hi ks2 cs2"
    "below (kids_entries cs1) k" "\<forall>e \<in> set (kids_entries cs2). k < fst e"
    "ge_lo lo k \<Longrightarrow> ge_lo (low_of lo ks1) k" "lt_hi hi k \<Longrightarrow> lt_hi (high_of hi ks2) k"
proof -
  let ?ci = "internal_find_child ks k"
  note split = internal_find_child_split [of ks k, OF kids_sorted [OF assms, THEN conjunct1]]
  have ci: "?ci < length cs" using split(1) kids_length [OF assms] by simp
  define ks1 ks2 cs1 cs2 where "ks1 = take ?ci ks" and "ks2 = drop ?ci ks" and "cs1 = take ?ci cs"
    and "cs2 = drop (Suc ?ci) cs"
  have ks: "ks = ks1 @ ks2" "length ks1 = ?ci" and cs: "cs = cs1 @ cs ! ?ci # cs2" "length cs1 = ?ci"
    using split(1) ci by (simp_all add: ks1_def ks2_def cs1_def cs2_def id_take_nth_drop [symmetric])
  have "kids_inv cap lo hi (ks1 @ ks2) (cs1 @ cs ! ?ci # cs2)"
    using assms unfolding ks(1) [symmetric] cs(1) [symmetric] .
  with ks(2) cs(2) have inv: "pre_inv cap lo hi ks1 cs1"
    "tree_inv cap (low_of lo ks1) (high_of hi ks2) (cs ! ?ci)" "rest_inv cap (low_of lo ks1) hi ks2 cs2"
    by (simp_all add: kids_append kids_cons)
  have le: "\<forall>s \<in> set ks1. s \<le> k" and gt: "\<forall>s \<in> set ks2. k < s"
    using split(2,3) by (simp_all add: ks1_def ks2_def)
  show thesis
    by (rule that [OF ks(1) cs(1) ks(2) cs(2) inv pre_below [OF inv(1) le] rest_beyond [OF inv(3) gt]])
      (use le gt in \<open>auto simp: low_of_def high_of_def split: list.splits\<close>)
qed

lemma kids_replace:
  assumes "pre_inv cap lo hi ks1 cs1" "length cs1 = length ks1"
    "tree_inv cap (low_of lo ks1) (high_of hi ks2) c" "rest_inv cap (low_of lo ks1) hi ks2 cs2"
  shows "kids_inv cap lo hi (ks1 @ ks2) (cs1 @ c # cs2)"
  using assms by (simp add: kids_append kids_cons)

lemma kids_split_child:
  assumes "pre_inv cap lo hi ks1 cs1" "length cs1 = length ks1"
    "tree_inv cap (low_of lo ks1) (Some s) l" "tree_inv cap (Some s) (high_of hi ks2) r"
    "ge_lo (low_of lo ks1) s" "le_hi (high_of hi ks2) s" "rest_inv cap (low_of lo ks1) hi ks2 cs2"
  shows "kids_inv cap lo hi (ks1 @ s # ks2) (cs1 @ l # r # cs2)"
proof -
  have "rest_inv cap (Some s) hi ks2 cs2" "le_hi hi s"
    using assms(6,7) by (auto simp: rest_inv_def high_of_def split: list.splits intro: hi_trans)
  with assms(1-5) show ?thesis by (simp add: kids_append) (simp add: kids_cons)
qed

lemma kids_halves:
  "length cs1 = Suc (length ks1) \<Longrightarrow> kids_inv cap lo hi (ks1 @ p # ks2) (cs1 @ cs2) \<Longrightarrow>
   kids_inv cap lo (Some p) ks1 cs1 \<and> kids_inv cap (Some p) hi ks2 cs2 \<and> ge_lo lo p \<and> le_hi hi p"
proof (induction ks1 arbitrary: lo cs1)
  case Nil
  then obtain c where "cs1 = [c]" by (auto simp: length_Suc_conv)
  with Nil show ?case by simp
next
  case (Cons k ks1)
  then obtain c cs1' where cs: "cs1 = c # cs1'" "length cs1' = Suc (length ks1)"
    by (auto simp: length_Suc_conv)
  with Cons.prems Cons.IH [of cs1' "Some k"] show ?case by (auto intro: ge_lo_trans)
qed

lemma internal_split_inv:
  assumes "kids_inv cap lo hi ks cs" "length ks = Suc cap" "0 < cap"
    and "internal_split ok f ks cs = Some (l, p, r)"
  shows "tree_inv cap lo (Some p) l" "tree_inv cap (Some p) hi r" "ge_lo lo p" "le_hi hi p"
    "entries l @ entries r = kids_entries cs"
proof -
  let ?m = "length ks div 2"
  have m: "?m < length ks" "length cs = Suc (length ks)" "?m \<le> cap"
    using assms kids_length [OF assms(1)] by auto
  have lpr: "l = BNode (take ?m ks) (take (Suc ?m) cs)" "p = ks ! ?m"
    "r = BNode (drop (Suc ?m) ks) (drop (Suc ?m) cs)"
    using assms(4) by (auto simp: internal_split_def Let_def split: option.splits)
  have "kids_inv cap lo hi (take ?m ks @ ks ! ?m # drop (Suc ?m) ks) (take (Suc ?m) cs @ drop (Suc ?m) cs)"
    using assms(1) m(1) by (simp add: id_take_nth_drop [symmetric])
  from kids_halves [OF _ this] m assms(2,3)
  show "tree_inv cap lo (Some p) l" "tree_inv cap (Some p) hi r" "ge_lo lo p" "le_hi hi p"
    by (auto simp: lpr)
  show "entries l @ entries r = kids_entries cs"
    unfolding lpr entries_simps concat_append [symmetric] map_append [symmetric] append_take_drop_id ..
qed

lemma leaf_bytes_simps [simp]:
  "leaf_bytes [] = 0" "leaf_bytes (e # es) = 16 + length (fst e) + leaf_bytes es"
  "leaf_bytes (xs @ ys) = leaf_bytes xs + leaf_bytes ys"
  by (simp_all add: leaf_bytes_def LEAF_ENTRY_SIZE_def)

lemma leaf_bytes_take_drop: "leaf_bytes (take n es) + leaf_bytes (drop n es) = leaf_bytes es"
  unfolding leaf_bytes_simps(3) [symmetric] append_take_drop_id ..

lemma leaf_insert_view:
  fixes k :: bytes
  assumes "ordered es"
  defines "p \<equiv> leaf_lower_bound es k"
  shows "key_at es p k \<Longrightarrow> es[p := (fst (es ! p), r)] = ins_list k r es \<and> (k, snd (es ! p)) \<in> set es"
    and "\<not> key_at es p k \<Longrightarrow> take p es @ (k, r) # drop p es = ins_list k r es \<and> k \<notin> fst ` set es"
proof -
  note split = leaf_lower_bound_split [OF assms(1), of k, folded p_def]
  have ins: "ins_list k r es = take p es @ ins_list k r (drop p es)"
    using ins_list_below [OF split(2), of r "drop p es"] by simp
  show "es[p := (fst (es ! p), r)] = ins_list k r es \<and> (k, snd (es ! p)) \<in> set es" if at: "key_at es p k"
  proof -
    from at have p: "p < length es" "fst (es ! p) = k" by (auto simp: key_at_iff)
    then have "drop p es = (k, snd (es ! p)) # drop (Suc p) es"
      by (metis Cons_nth_drop_Suc surjective_pairing)
    with p ins show ?thesis using nth_mem [OF p(1)] by (auto simp: upd_conv_take_nth_drop)
  qed
  show "take p es @ (k, r) # drop p es = ins_list k r es \<and> k \<notin> fst ` set es" if at: "\<not> key_at es p k"
  proof (cases "drop p es")
    case Nil
    then have "take p es = es" using split(1) by simp
    with ins split(2) Nil show ?thesis by auto
  next
    case (Cons e xs)
    have p: "p < length es" "e = es ! p"
      using Cons nth_via_drop [OF Cons] by (cases "p < length es", simp_all)
    with at split(3) Cons have "k < fst e" by (auto simp: key_at_iff order.order_iff_strict)
    moreover have "k < fst e'" if "e' \<in> set (drop p es)" for e'
    proof -
      have "ordered (drop p es)" using assms(1) by (simp add: drop_map [symmetric])
      with that Cons calculation show ?thesis by (auto intro: order.strict_trans)
    qed
    moreover have "set es = set (take p es) \<union> set (drop p es)" by (metis append_take_drop_id set_append)
    ultimately have "k \<notin> fst ` set es" using split(2) by auto
    moreover from \<open>k < fst e\<close> have "\<not> fst e < k" "fst e \<noteq> k" by auto
    ultimately show ?thesis using ins Cons by simp
  qed
qed

subsection \<open>Insert into a leaf\<close>

definition bt_env_ok :: "bt_env \<Rightarrow> bool" where
  "bt_env_ok env \<longleftrightarrow> ok_tree env \<and> ok_leaf env \<and> ok_big env \<and> ok_key_copy env \<and> ok_root env \<and>
     ok_internal env = (\<lambda>d. True)"

lemma bt_env_okD [simp]:
  assumes "bt_env_ok env"
  shows "ok_tree env" "ok_leaf env" "ok_big env" "ok_key_copy env" "ok_root env" "ok_internal env d"
  using assms by (simp_all add: bt_env_ok_def)

text \<open>
  Up to this fanout a node with one key too many still has a count below 2^16, and the lengths of its
  arrays do not wrap.
\<close>

definition FANOUT_MAX :: nat where
  "FANOUT_MAX = 65534"

lemma internal_slots_fit:
  assumes "0 < unat f" "unat f \<le> FANOUT_MAX"
  shows "unat (fst (internal_slots f)) = unat f + 2" "unat (snd (internal_slots f)) = unat f + 1"
proof -
  have "f \<noteq> 0" using assms(1) by auto
  then show "unat (fst (internal_slots f)) = unat f + 2" "unat (snd (internal_slots f)) = unat f + 1"
    using assms(2) by (simp_all add: internal_slots_def Let_def FANOUT_MAX_def unat_word_ariths)
qed

fun ins_spec :: "nat \<Rightarrow> bytes option \<Rightarrow> bytes option \<Rightarrow> bytes \<Rightarrow> u64 \<Rightarrow> bnode \<Rightarrow> ins_result \<Rightarrow> bool" where
  "ins_spec cap lo hi k r n (InsReplaced n') \<longleftrightarrow>
     tree_inv cap lo hi n' \<and> entries n' = ins_list k r (entries n) \<and> k \<in> fst ` set (entries n)"
| "ins_spec cap lo hi k r n (InsDone n') \<longleftrightarrow>
     tree_inv cap lo hi n' \<and> entries n' = ins_list k r (entries n) \<and> k \<notin> fst ` set (entries n)"
| "ins_spec cap lo hi k r n (InsFail n' counted) \<longleftrightarrow> n' = n \<and> counted \<and> k \<notin> fst ` set (entries n)"
| "ins_spec cap lo hi k r n (InsSplit n1 s n2) \<longleftrightarrow>
     tree_inv cap lo (Some s) n1 \<and> tree_inv cap (Some s) hi n2 \<and> ge_lo lo s \<and> le_hi hi s \<and>
     entries n1 @ entries n2 = ins_list k r (entries n) \<and> k \<notin> fst ` set (entries n)"
| "ins_spec cap lo hi k r n InsUndefined \<longleftrightarrow> FANOUT_MAX < cap"

lemma leaf_split_spec:
  assumes "leaf_split env es n = Some ((l, nl), s, (r, nr))" "ordered es" "es \<noteq> []" "n = leaf_bytes es"
  shows "l @ r = es" "nl = leaf_bytes l" "nr = leaf_bytes r" "nr \<le> data_capacity" "s \<in> fst ` set es"
    "below l s" "above r s" "length l \<le> length es div 2" "length r \<le> (length es + 1) div 2"
proof -
  let ?m = "length es div 2"
  have m: "?m < length es" using assms(3) by (cases es) auto
  have eqs: "l = take ?m es" "nl = n - leaf_bytes (drop ?m es)" "s = fst (es ! ?m)" "r = drop ?m es"
    "nr = leaf_bytes (drop ?m es)" and le: "leaf_bytes (drop ?m es) \<le> data_capacity"
    using assms(1) m by (auto simp: leaf_split_def Let_def split: if_splits)
  show "l @ r = es" "nr = leaf_bytes r" "nr \<le> data_capacity" "s \<in> fst ` set es"
    "length l \<le> length es div 2" "length r \<le> (length es + 1) div 2"
    using m le by (simp_all add: eqs)
  show "nl = leaf_bytes l" using leaf_bytes_take_drop [of ?m es] by (simp add: eqs assms(4))
  have "ordered (take ?m es @ es ! ?m # drop (Suc ?m) es)"
    using assms(2) m by (simp add: id_take_nth_drop [symmetric])
  moreover have "drop ?m es = es ! ?m # drop (Suc ?m) es" using m by (simp add: Cons_nth_drop_Suc)
  ultimately show "below l s" "above r s"
    by (auto simp: eqs sorted_wrt_append intro: order.strict_implies_order)
qed

lemma split_leaf_inv:
  assumes "leaf_split env es n = Some ((l, nl), s, (r, nr))" "ordered es" "es \<noteq> []" "n = leaf_bytes es"
    and "\<forall>e \<in> set es. ge_lo lo (fst e) \<and> lt_hi hi (fst e)" "length es \<le> Suc cap" "0 < cap"
    and "nl \<le> data_capacity"
  shows "tree_inv cap lo (Some s) (BLeaf l nl)" "tree_inv cap (Some s) hi (BLeaf r nr)"
    "ge_lo lo s" "le_hi hi s" "l @ r = es"
proof -
  note split = leaf_split_spec [OF assms(1-4)]
  show "l @ r = es" by (rule split(1))
  then have parts: "set l \<subseteq> set es" "set r \<subseteq> set es" "ordered l" "ordered r"
    using assms(2) by (auto simp: sorted_wrt_append)
  show "tree_inv cap lo (Some s) (BLeaf l nl)"
    using parts split assms(5-8) by auto
  show "tree_inv cap (Some s) hi (BLeaf r nr)"
    using parts split assms(5-8) by auto
  show "ge_lo lo s" "le_hi hi s" using split(5) assms(5) by (auto intro: hi_trans)
qed

lemma leaf_bytes_keys: "leaf_bytes es = (\<Sum>k\<leftarrow>map fst es. LEAF_ENTRY_SIZE + length k)"
  by (simp add: leaf_bytes_def comp_def)

lemma replace_inv:
  assumes "tree_inv cap lo hi (BLeaf es n)"
  shows "tree_inv cap lo hi (BLeaf (es[p := (fst (es ! p), r)]) n)"
proof -
  have keys: "map fst (es[p := (fst (es ! p), r)]) = map fst es"
    by (simp add: map_update) (metis list_update_id map_update)
  then have "fst ` set (es[p := (fst (es ! p), r)]) = fst ` set es" by (metis set_map)
  with assms show ?thesis by (simp add: leaf_bytes_keys keys) (metis (no_types, lifting) imageE imageI)
qed

lemma insert_leaf_facts:
  fixes r :: u64
  assumes "tree_inv cap lo hi (BLeaf es n)" "ge_lo lo k" "lt_hi hi k" "\<not> key_at es (leaf_lower_bound es k) k"
  defines "es1 \<equiv> take (leaf_lower_bound es k) es @ (k, r) # drop (leaf_lower_bound es k) es"
  shows "es1 = ins_list k r es" "k \<notin> fst ` set es" "ordered es1" "es1 \<noteq> []" "length es1 = Suc (length es)"
    "leaf_bytes es1 = n + (LEAF_ENTRY_SIZE + length k)" "\<forall>e \<in> set es1. ge_lo lo (fst e) \<and> lt_hi hi (fst e)"
proof -
  from assms(1) have es: "ordered es" "n = leaf_bytes es" by auto
  from leaf_insert_view(2) [OF es(1) assms(4), of r]
  show view: "es1 = ins_list k r es" and "k \<notin> fst ` set es" by (auto simp: es1_def)
  show "ordered es1" unfolding view by (rule ordered_ins_list [OF es(1)])
  show "es1 \<noteq> []" by (simp add: es1_def)
  show "length es1 = Suc (length es)"
    using leaf_lower_bound_split(1) [OF es(1), of k] by (simp add: es1_def)
  show "leaf_bytes es1 = n + (LEAF_ENTRY_SIZE + length k)"
    using leaf_bytes_take_drop [of "leaf_lower_bound es k" es]
    by (simp add: es1_def es(2) LEAF_ENTRY_SIZE_def)
  show "\<forall>e \<in> set es1. ge_lo lo (fst e) \<and> lt_hi hi (fst e)"
    unfolding view using set_ins_list [of k r es] assms(1-3) by auto
qed

lemma ins_leaf_spec:
  assumes env: "bt_env_ok env" and inv: "tree_inv cap lo hi (BLeaf es n)" and cap: "0 < cap"
    and k: "ge_lo lo k" "lt_hi hi k"
  shows "ins_spec cap lo hi k r (BLeaf es n) (ins_leaf env cap k r es n)"
proof -
  let ?p = "leaf_lower_bound es k"
  define es1 where "es1 = take ?p es @ (k, r) # drop ?p es"
  define n1 where "n1 = n + (LEAF_ENTRY_SIZE + length k)"
  have es: "ordered es" "length es \<le> cap" "n \<le> data_capacity" using inv by auto
  show ?thesis
  proof (cases "key_at es ?p k")
    case True
    from leaf_insert_view(1) [OF es(1) True, of r] have
      "es[?p := (fst (es ! ?p), r)] = ins_list k r es" "k \<in> fst ` set es" by force+
    with True replace_inv [OF inv, of ?p r] show ?thesis
      by (simp add: ins_leaf_def Let_def leaf_insert_at_def del: tree_inv.simps)
  next
    case False
    have es1: "es1 = ins_list k r es" "k \<notin> fst ` set es" "ordered es1" "es1 \<noteq> []"
      "length es1 = Suc (length es)" "leaf_bytes es1 = n1"
      "\<forall>e \<in> set es1. ge_lo lo (fst e) \<and> lt_hi hi (fst e)"
      unfolding es1_def n1_def by (rule insert_leaf_facts [OF inv k False])+
    have fits: "tree_inv cap lo hi (BLeaf es1 n1)" if "length es < cap" "n1 \<le> data_capacity"
      using that es1(3,5,6,7) by simp
    have split: "ins_spec cap lo hi k r (BLeaf es n) (split_result env s)"
      if "leaf_split env es1 n1 = Some s" "snd (fst s) \<le> data_capacity" for s
    proof -
      obtain l nl sep rt nr where s: "s = ((l, nl), sep, (rt, nr))" by (metis surj_pair)
      from split_leaf_inv [OF that(1) [unfolded s] es1(3,4) es1(6) [symmetric] es1(7), of cap]
      show ?thesis using that(2) env es1(1,2,5) es(2) cap
        by (simp add: s split_result_def del: tree_inv.simps)
    qed
    have left: "snd (fst s) \<le> n1" if "leaf_split env es1 n1 = Some s" for s
      using that by (auto simp: leaf_split_def Let_def split: if_splits)
    have room: "\<exists>s. leaf_split env es1 n1 = Some s" if "n1 \<le> data_capacity"
    proof -
      have "leaf_bytes (drop (length es1 div 2) es1) \<le> data_capacity"
        using that leaf_bytes_take_drop [of "length es1 div 2" es1] es1(6) by linarith
      with env show ?thesis by (simp add: leaf_split_def node_alloc_leaf_def Let_def)
    qed
    have "ins_leaf env cap k r es n =
        (if length es < cap \<and> n1 \<le> data_capacity then InsDone (BLeaf es1 n1)
         else if n1 > data_capacity
         then (case leaf_split env es1 n1 of
                 None \<Rightarrow> InsFail (BLeaf es n) True
               | Some s \<Rightarrow> if snd (fst s) > data_capacity then InsFail (BLeaf es n) True else split_result env s)
         else (case leaf_split env es1 n1 of
                 None \<Rightarrow> InsFail (BLeaf es1 n1) True | Some s \<Rightarrow> split_result env s))"
      using False env by (simp add: ins_leaf_def Let_def leaf_insert_at_def flip: es1_def n1_def cong: option.case_cong)
    then show ?thesis
      using fits split left room es1(1,2)
      by (cases "leaf_split env es1 n1") (auto simp del: tree_inv.simps intro: order.trans)
  qed
qed

subsection \<open>Insert into the tree\<close>

lemma insert_child_cases:
  assumes "0 < unat f" "length ks \<le> unat f"
  obtains (linked) "internal_insert_child (internal_slots f) ks cs pi s right =
      Some (take pi ks @ s # drop pi ks, take (pi + 1) cs @ right # drop (pi + 1) cs)"
    | (wraps) "internal_insert_child (internal_slots f) ks cs pi s right = None" "FANOUT_MAX < unat f"
proof (cases "unat f \<le> FANOUT_MAX")
  case True
  with internal_slots_fit [OF assms(1) True] assms(2) show thesis
    by (intro linked) (simp add: internal_insert_child_def FANOUT_MAX_def)
next
  case False
  then show thesis using linked wraps
    by (cases "internal_insert_child (internal_slots f) ks cs pi s right")
      (auto simp: internal_insert_child_def split: if_splits)
qed

lemma link_child_spec:
  assumes env: "bt_env_ok env" and cap: "0 < unat f" "length ks \<le> unat f"
    and new: "take pi ks @ s # drop pi ks = ks1" "take (pi + 1) cs @ right # drop (pi + 1) cs = cs1"
      "length ks1 = Suc (length ks)"
    and inv: "kids_inv (unat f) lo hi ks1 cs1"
    and view: "kids_entries cs1 = ins_list k r (entries n)" "k \<notin> fst ` set (entries n)"
  shows "ins_spec (unat f) lo hi k r n (link_child env f d ks cs pi s right)"
proof (rule insert_child_cases [OF cap, of cs pi s right])
  assume "internal_insert_child (internal_slots f) ks cs pi s right = None" "FANOUT_MAX < unat f"
  with env show ?thesis by (simp add: link_child_def)
next
  assume "internal_insert_child (internal_slots f) ks cs pi s right =
      Some (take pi ks @ s # drop pi ks, take (pi + 1) cs @ right # drop (pi + 1) cs)"
  then have ins: "internal_insert_child (internal_slots f) ks cs pi s right = Some (ks1, cs1)"
    using new(1,2) by simp
  show ?thesis
  proof (cases "length ks < unat f")
    case True
    with env ins new(3) inv view show ?thesis by (simp add: link_child_def)
  next
    case False
    obtain l p rt where split: "internal_split True f ks1 cs1 = Some (l, p, rt)"
      by (simp add: internal_split_def node_alloc_internal_def Let_def)
    have "length ks1 = Suc (unat f)" using False cap new(3) by simp
    from internal_split_inv [OF inv this cap(1) split] False env view ins split show ?thesis
      by (simp add: link_child_def)
  qed
qed

lemma bt_ins_spec:
  "bt_env_ok env \<Longrightarrow> 0 < unat f \<Longrightarrow> tree_inv (unat f) lo hi n \<Longrightarrow> ge_lo lo k \<Longrightarrow> lt_hi hi k \<Longrightarrow>
   ins_spec (unat f) lo hi k r n (bt_ins env f d k r n)"
proof (induction env f d k r n arbitrary: lo hi rule: bt_ins.induct)
  case (1 env f d k r es n)
  then show ?case using ins_leaf_spec by simp
next
  case (2 env f d k r ks cs)
  have cap: "length ks \<le> unat f" and kids: "kids_inv (unat f) lo hi ks cs" using 2(4) by auto
  obtain ks1 ks2 cs1 c cs2 where eq: "ks = ks1 @ ks2" "cs = cs1 @ c # cs2"
    "length ks1 = internal_find_child ks k" "length cs1 = internal_find_child ks k"
    and inv: "pre_inv (unat f) lo hi ks1 cs1" "tree_inv (unat f) (low_of lo ks1) (high_of hi ks2) c"
      "rest_inv (unat f) (low_of lo ks1) hi ks2 cs2"
    and out: "below (kids_entries cs1) k" "\<forall>e \<in> set (kids_entries cs2). k < fst e"
    and bnd: "ge_lo (low_of lo ks1) k" "lt_hi (high_of hi ks2) k"
    using node_at [OF kids, of k] 2(5,6) by metis
  have ci: "cs ! internal_find_child ks k = c" "internal_find_child ks k < length cs"
    unfolding eq(4) [symmetric] by (simp_all add: eq(2))
  have len: "length cs1 = length ks1" using eq by simp
  have view: "ins_list k r (kids_entries cs) = kids_entries cs1 @ ins_list k r (entries c) @ kids_entries cs2"
    using out by (simp add: eq(2) ins_list_below ins_list_beyond)
  have mem: "k \<in> fst ` set (kids_entries cs) \<longleftrightarrow> k \<in> fst ` set (entries c)"
    using out by (auto simp: eq(2) image_Un)
  have upd: "cs[length ks1 := c'] = cs1 @ c' # cs2" for c'
    by (simp add: eq(2) len [symmetric])
  note IH = 2(1) [OF refl ci(2) 2(2,3), unfolded ci(1), OF inv(2) bnd]
  have step: "bt_ins env f d k r (BNode ks cs) =
      (case bt_ins env f (Suc d) k r c of
         InsReplaced c \<Rightarrow> InsReplaced (BNode ks (cs1 @ c # cs2))
       | InsDone c \<Rightarrow> InsDone (BNode ks (cs1 @ c # cs2))
       | InsFail c counted \<Rightarrow> InsFail (BNode ks (cs1 @ c # cs2)) counted
       | InsSplit l sep r \<Rightarrow> link_child env f d ks (cs1 @ l # cs2) (length ks1) sep r
       | InsUndefined \<Rightarrow> InsUndefined)"
    using ci by (simp add: Let_def upd eq(3) [symmetric] split: ins_result.split)
  show ?case
  proof (cases "bt_ins env f (Suc d) k r c")
    case (InsSplit l s rt)
    with IH have c: "tree_inv (unat f) (low_of lo ks1) (Some s) l" "tree_inv (unat f) (Some s) (high_of hi ks2) rt"
      "ge_lo (low_of lo ks1) s" "le_hi (high_of hi ks2) s"
      "entries l @ entries rt = ins_list k r (entries c)" "k \<notin> fst ` set (entries c)" by simp_all
    have new: "take (length ks1) ks @ s # drop (length ks1) ks = ks1 @ s # ks2"
      "take (length ks1 + 1) (cs1 @ l # cs2) @ rt # drop (length ks1 + 1) (cs1 @ l # cs2) = cs1 @ l # rt # cs2"
      by (simp_all add: eq(1) len [symmetric])
    have "ins_spec (unat f) lo hi k r (BNode ks cs) (link_child env f d ks (cs1 @ l # cs2) (length ks1) s rt)"
      by (rule link_child_spec [OF 2(2,3) cap new _ kids_split_child [OF inv(1) len c(1-4) inv(3)]])
        (use c view mem in \<open>simp_all add: eq(1)\<close>)
    with InsSplit step show ?thesis by simp
  qed (use IH step cap view mem eq(1,2) kids_replace [OF inv(1) len _ inv(3)] in auto)
qed

definition short_keys :: "bt_entry list \<Rightarrow> bool" where
  "short_keys es \<longleftrightarrow> (\<forall>e \<in> set es. length (fst e) \<le> 236)"

lemma leaf_bytes_bounds:
  "16 * length es \<le> leaf_bytes es" "short_keys es \<Longrightarrow> leaf_bytes es \<le> 252 * length es"
  by (induction es) (auto simp: short_keys_def)

lemma half_fits:
  assumes "short_keys (xs @ ys)" "leaf_bytes (xs @ ys) \<le> data_capacity + 252"
    "length xs \<le> Suc (length ys)" "length ys \<le> Suc (length xs)"
  shows "leaf_bytes xs \<le> data_capacity \<and> leaf_bytes ys \<le> data_capacity"
proof -
  have "short_keys xs" "short_keys ys" using assms(1) by (auto simp: short_keys_def)
  with leaf_bytes_bounds [of xs] leaf_bytes_bounds [of ys] assms(2-)
  show ?thesis
    by (cases "length xs \<le> 16"; cases "length ys \<le> 16")
      (auto simp: data_capacity_def QIHSE_BTREE_PAGE_SIZE_def)
qed

lemma ins_leaf_short:
  assumes env: "bt_env_ok env" and inv: "tree_inv cap lo hi (BLeaf es n)"
    and short: "short_keys es" "length k \<le> 236"
  shows "ins_leaf env cap k r es n \<noteq> InsFail c counted"
proof (cases "key_at es (leaf_lower_bound es k) k")
  case True
  then show ?thesis by (simp add: ins_leaf_def Let_def leaf_insert_at_def)
next
  case False
  define es1 where "es1 = take (leaf_lower_bound es k) es @ (k, r) # drop (leaf_lower_bound es k) es"
  define n1 where "n1 = n + (LEAF_ENTRY_SIZE + length k)"
  let ?m = "length es1 div 2"
  have n1: "n1 = leaf_bytes es1" "n1 \<le> data_capacity + 252"
    using inv short(2) leaf_bytes_take_drop [of "leaf_lower_bound es k" es]
    by (auto simp: es1_def n1_def LEAF_ENTRY_SIZE_def)
  have "short_keys es1" using short set_take_subset set_drop_subset by (fastforce simp: short_keys_def es1_def)
  with half_fits [of "take ?m es1" "drop ?m es1"] n1
  have half: "leaf_bytes (take ?m es1) \<le> data_capacity" "leaf_bytes (drop ?m es1) \<le> data_capacity" by auto
  then have "leaf_split env es1 n1 =
      Some ((take ?m es1, leaf_bytes (take ?m es1)), fst (drop ?m es1 ! 0), (drop ?m es1, leaf_bytes (drop ?m es1)))"
    using env leaf_bytes_take_drop [of ?m es1]
    by (simp add: leaf_split_def node_alloc_leaf_def Let_def n1(1))
  with False env half show ?thesis
    by (simp add: ins_leaf_def Let_def leaf_insert_at_def split_result_def flip: es1_def n1_def)
qed

lemma bt_ins_short:
  "bt_env_ok env \<Longrightarrow> tree_inv (unat f) lo hi n \<Longrightarrow> short_keys (entries n) \<Longrightarrow> length k \<le> 236 \<Longrightarrow>
   bt_ins env f d k r n \<noteq> InsFail c counted"
proof (induction env f d k r n arbitrary: lo hi c rule: bt_ins.induct)
  case (1 env f d k r es n)
  then show ?case using ins_leaf_short by (simp del: tree_inv.simps)
next
  case (2 env f d k r ks cs)
  have kids: "kids_inv (unat f) lo hi ks cs" using 2(3) by auto
  obtain ks1 ks2 cs1 c' cs2 where eq: "cs = cs1 @ c' # cs2" "length cs1 = internal_find_child ks k"
    and inv: "tree_inv (unat f) (low_of lo ks1) (high_of hi ks2) c'"
    using node_at [OF kids, of k] by metis
  have ci: "cs ! internal_find_child ks k = c'" "internal_find_child ks k < length cs"
    unfolding eq(2) [symmetric] by (simp_all add: eq(1))
  have "short_keys (entries c')" using 2(4) by (auto simp: short_keys_def eq(1))
  note IH = 2(1) [OF refl ci(2) 2(2), unfolded ci(1), OF inv this 2(5)]
  show ?case
  proof (cases "bt_ins env f (Suc d) k r c'")
    case InsSplit
    with ci 2(2) show ?thesis
      by (auto simp: Let_def link_child_def split: option.splits prod.splits)
  qed (use ci IH in \<open>auto simp: Let_def\<close>)
qed

subsection \<open>Descent and lookup\<close>

lemma node_child:
  assumes "kids_inv cap lo hi ks cs"
  obtains lo' hi' cs1 c cs2 where "cs = cs1 @ c # cs2" "length cs1 = internal_find_child ks k"
    "internal_find_child ks k < length cs" "cs ! internal_find_child ks k = c"
    "tree_inv cap lo' hi' c" "below (kids_entries cs1) k" "\<forall>e \<in> set (kids_entries cs2). k < fst e"
    "\<And>c'. tree_inv cap lo' hi' c' \<Longrightarrow> kids_inv cap lo hi ks (cs1 @ c' # cs2)"
proof -
  obtain ks1 ks2 cs1 c cs2 where eq: "ks = ks1 @ ks2" "cs = cs1 @ c # cs2"
    "length ks1 = internal_find_child ks k" "length cs1 = internal_find_child ks k"
    and inv: "pre_inv cap lo hi ks1 cs1" "tree_inv cap (low_of lo ks1) (high_of hi ks2) c"
      "rest_inv cap (low_of lo ks1) hi ks2 cs2"
    and out: "below (kids_entries cs1) k" "\<forall>e \<in> set (kids_entries cs2). k < fst e"
    using node_at [OF assms, of k] by metis
  have ci: "internal_find_child ks k < length cs" "cs ! internal_find_child ks k = c"
    unfolding eq(4) [symmetric] by (simp_all add: eq(2))
  have "length cs1 = length ks1" using eq by simp
  from kids_replace [OF inv(1) this _ inv(3), folded eq(1)] show thesis
    by (rule that [OF eq(2,4) ci inv(2) out])
qed

lemma descend_split:
  "tree_inv cap lo hi n \<Longrightarrow>
   \<exists>l es rest. descend_to_leaf n k = es # rest \<and> entries n = l @ es @ concat rest \<and> below l k \<and>
     (\<forall>e \<in> set (concat rest). k < fst e)"
proof (induction n k arbitrary: lo hi rule: descend_to_leaf.induct)
  case (2 ks cs k)
  then have "kids_inv cap lo hi ks cs" by simp
  then obtain lo' hi' cs1 c cs2 where c: "cs = cs1 @ c # cs2" "length cs1 = internal_find_child ks k"
    "internal_find_child ks k < length cs" "cs ! internal_find_child ks k = c" "tree_inv cap lo' hi' c"
    "below (kids_entries cs1) k" "\<forall>e \<in> set (kids_entries cs2). k < fst e"
    using node_child [of cap lo hi ks cs k thesis for thesis] by metis
  from 2(1) [OF refl c(3), unfolded c(4), OF c(5)] obtain l es rest where
    IH: "descend_to_leaf c k = es # rest" "entries c = l @ es @ concat rest" "below l k"
    "\<forall>e \<in> set (concat rest). k < fst e" by blast
  have "drop (Suc (internal_find_child ks k)) cs = cs2" unfolding c(2) [symmetric] by (simp add: c(1))
  then have "descend_to_leaf (BNode ks cs) k = es # (rest @ concat (map leaves cs2))"
    using c(3,4) IH(1) by (simp add: Let_def)
  moreover have "entries (BNode ks cs) =
      (kids_entries cs1 @ l) @ es @ concat (rest @ concat (map leaves cs2))"
    by (simp add: c(1) IH(2) concat_leaves)
  moreover have "below (kids_entries cs1 @ l) k"
    "\<forall>e \<in> set (concat (rest @ concat (map leaves cs2))). k < fst e"
    using c(6,7) IH(3,4) unfolding concat_append set_append concat_leaves by blast+
  ultimately show ?case by blast
qed simp

lemma map_of_absent: "(\<And>e. e \<in> set es \<Longrightarrow> fst e \<noteq> k) \<Longrightarrow> map_of es k = None"
  by (metis domIff dom_map_of_conv_image_fst imageE)

lemma leaf_lookup:
  fixes k :: bytes
  assumes "ordered es"
  defines "p \<equiv> leaf_lower_bound es k"
  shows "(if key_at es p k then Some (snd (es ! p)) else None) = map_of es k"
proof (cases "key_at es p k")
  case True
  then have "(k, snd (es ! p)) \<in> set es"
    using leaf_insert_view(1) [OF assms(1), of k] by (simp add: p_def)
  moreover have "distinct (map fst es)" using assms(1) strict_sorted_iff by blast
  ultimately show ?thesis using True by simp
next
  case False
  then have "k \<notin> fst ` set es" using leaf_insert_view(2) [OF assms(1), of k] by (simp add: p_def)
  with False show ?thesis by (auto intro: map_of_absent [symmetric])
qed

subsection \<open>Lookup and delete on the view\<close>

definition bt_view :: "btree \<Rightarrow> bt_entry list" where
  "bt_view t = entries (bt_root t)"

definition btree_inv :: "btree \<Rightarrow> bool" where
  "btree_inv t \<longleftrightarrow> 0 < unat (bt_fanout t) \<and> tree_inv (unat (bt_fanout t)) None None (bt_root t) \<and> bt_orphans t = []"

definition counted :: "btree \<Rightarrow> bool" where
  "counted t \<longleftrightarrow> bt_count t = of_nat (length (bt_view t))"

lemma view_ordered: "btree_inv t \<Longrightarrow> ordered (bt_view t)"
  using inv_entries(1) by (auto simp: btree_inv_def bt_view_def)

lemma absent_below: "below es k \<Longrightarrow> map_of es k = None \<and> del_list k es = es"
  by (fastforce intro!: map_of_absent del_list_none)

lemma absent_beyond: "\<forall>e \<in> set es. k < fst e \<Longrightarrow> map_of es k = None \<and> del_list k es = es"
  by (fastforce intro!: map_of_absent del_list_none)

lemma lookup_view:
  assumes "btree_inv t"
  shows "qihse_btree_lookup t (Some k) = map_of (bt_view t) k"
proof -
  obtain l es rest where d: "descend_to_leaf (bt_root t) k = es # rest"
    "bt_view t = l @ es @ concat rest" "below l k" "\<forall>e \<in> set (concat rest). k < fst e"
    using descend_split assms by (metis btree_inv_def bt_view_def)
  have "ordered es" using view_ordered [OF assms] by (simp add: d(2) sorted_wrt_append)
  moreover have "map_of l k = None" "map_of (concat rest) k = None"
    using absent_below [OF d(3)] absent_beyond [OF d(4)] by simp_all
  ultimately show ?thesis
    by (simp add: qihse_btree_lookup_def d(1,2) leaf_lookup Let_def map_add_def split: option.split)
qed

lemma leaf_remove_inv:
  assumes inv: "tree_inv cap lo hi (BLeaf es n)" and at: "key_at es p k"
  shows "case leaf_remove_at es n p of
      (es1, n1) \<Rightarrow> tree_inv cap lo hi (BLeaf es1 n1) \<and> es1 = del_list k es \<and> Suc (length es1) = length es"
proof -
  from at have p: "p < length es" "fst (es ! p) = k" by (auto simp: key_at_iff)
  let ?l = "take p es" and ?r = "drop (Suc p) es"
  have es: "es = ?l @ es ! p # ?r" using p(1) by (simp add: id_take_nth_drop)
  have bytes: "leaf_bytes es = leaf_bytes ?l + (16 + length k) + leaf_bytes ?r"
    by (subst es) (simp add: p(2))
  have ord: "ordered (?l @ es ! p # ?r)" using inv es by simp
  then have "\<forall>e \<in> set ?l. fst e < k" "\<forall>e \<in> set ?r. k < fst e"
    by (auto simp: sorted_wrt_append p(2) [symmetric])
  then have "del_list k (?l @ es ! p # ?r) = ?l @ ?r"
    using absent_below [of ?l k] absent_beyond [of ?r k] p(2) by simp
  with es have del: "del_list k es = ?l @ ?r" by simp
  have "leaf_remove_at es n p = (?l @ ?r, n - (16 + length k))"
  proof (cases "p + 1 \<ge> length es")
    case True
    with p(1) have "p = length es - 1" by simp
    with True p show ?thesis by (simp add: leaf_remove_at_def Let_def LEAF_ENTRY_SIZE_def)
  qed (simp add: leaf_remove_at_def Let_def LEAF_ENTRY_SIZE_def p(2))
  moreover have "ordered (?l @ ?r)" using ord by (auto simp: sorted_wrt_append)
  moreover have "set (?l @ ?r) \<subseteq> set es" using set_take_subset set_drop_subset by fastforce
  ultimately show ?thesis using inv bytes del p(1) by auto
qed

lemma bt_del_spec:
  "tree_inv cap lo hi n \<Longrightarrow> bt_del k n = (res, n') \<Longrightarrow>
   res = map_of (entries n) k \<and> tree_inv cap lo hi n' \<and> entries n' = del_list k (entries n)"
proof (induction k n arbitrary: lo hi res n' rule: bt_del.induct)
  case (1 k es n)
  let ?p = "leaf_lower_bound es k"
  have "ordered es" using 1(1) by simp
  note look = leaf_lookup [OF this, of k] and view = leaf_insert_view(2) [OF this, of k]
  show ?case
  proof (cases "key_at es ?p k")
    case True
    with 1 leaf_remove_inv [OF 1(1) True] look show ?thesis
      by (auto simp: Let_def simp del: tree_inv.simps split: prod.splits)
  next
    case False
    then have "del_list k es = es" using view by (auto intro!: del_list_none)
    with False 1 look show ?thesis by (auto simp: Let_def)
  qed
next
  case (2 k ks cs)
  then have cap: "length ks \<le> cap" and kids: "kids_inv cap lo hi ks cs" by auto
  obtain lo' hi' cs1 c cs2 where c: "cs = cs1 @ c # cs2" "length cs1 = internal_find_child ks k"
    "internal_find_child ks k < length cs" "cs ! internal_find_child ks k = c" "tree_inv cap lo' hi' c"
    "below (kids_entries cs1) k" "\<forall>e \<in> set (kids_entries cs2). k < fst e"
    "\<And>c'. tree_inv cap lo' hi' c' \<Longrightarrow> kids_inv cap lo hi ks (cs1 @ c' # cs2)"
    using node_child [OF kids, of k] by metis
  obtain res' c' where del: "bt_del k c = (res', c')" by (metis surj_pair)
  note IH = 2(1) [OF refl c(3), unfolded c(4), OF c(5) del]
  have "cs[internal_find_child ks k := c'] = cs1 @ c' # cs2" unfolding c(2) [symmetric] by (simp add: c(1))
  with 2(3) c(3,4) del have res: "res = res'" "n' = BNode ks (cs1 @ c' # cs2)" by (auto simp: Let_def)
  have absent: "map_of (kids_entries cs1) k = None" "map_of (kids_entries cs2) k = None"
    "del_list k (kids_entries cs1) = kids_entries cs1" "del_list k (kids_entries cs2) = kids_entries cs2"
    using absent_below [OF c(6)] absent_beyond [OF c(7)] by simp_all
  from IH c(8) [of c'] cap show ?case by (simp add: res c(1) absent map_add_def split: option.splits)
qed

lemma delete_view:
  assumes "btree_inv t" "qihse_btree_delete t (Some k) = (res, t')"
  shows "res = map_of (bt_view t) k" "btree_inv t'" "bt_view t' = del_list k (bt_view t)"
    "bt_count t' = bt_count t - (if res = None then 0 else 1)" "bt_fanout t' = bt_fanout t"
proof -
  obtain r n where del: "bt_del k (bt_root t) = (r, n)" by (metis surj_pair)
  note spec = bt_del_spec [OF _ del, of "unat (bt_fanout t)" None None]
  have r: "res = r" "t' = (if r = None then t else t\<lparr>bt_root := n, bt_count := bt_count t - 1\<rparr>)"
    using assms(2) by (auto simp: qihse_btree_delete_def del split: option.splits)
  have none: "del_list k (bt_view t) = bt_view t" if "map_of (bt_view t) k = None"
    using that by (intro del_list_none) (auto simp: map_of_eq_None_iff)
  from spec assms(1) none show "res = map_of (bt_view t) k" "btree_inv t'"
    "bt_view t' = del_list k (bt_view t)" "bt_count t' = bt_count t - (if res = None then 0 else 1)"
    "bt_fanout t' = bt_fanout t"
    by (auto simp: r btree_inv_def bt_view_def)
qed

subsection \<open>Insert on the view\<close>

lemma new_root_cases:
  assumes "bt_env_ok env" "0 < unat f"
  obtains (rooted) "new_root env f l s rt = Some (BNode [s] [l, rt], [])"
    | (wraps) "new_root env f l s rt = None" "FANOUT_MAX < unat f"
proof (cases "unat f \<le> FANOUT_MAX")
  case True
  from internal_slots_fit [OF assms(2) True] assms show thesis
    by (intro rooted) (simp add: new_root_def node_alloc_internal_def word_less_nat_alt)
next
  case False
  with assms(1) rooted wraps show thesis
    by (cases "new_root env f l s rt") (auto simp: new_root_def node_alloc_internal_def split: if_splits)
qed

lemma insert_view:
  assumes env: "bt_env_ok env" and inv: "btree_inv t" and k: "length k \<le> QIHSE_BTREE_MAX_KEY_LEN"
  obtains (inserted) t' where "qihse_btree_insert env t (Some k) r = Some (True, t')" "btree_inv t'"
      "bt_view t' = ins_list k r (bt_view t)" "bt_fanout t' = bt_fanout t"
      "bt_count t' = bt_count t + (if k \<in> fst ` set (bt_view t) then 0 else 1)"
    | (failed) c where "qihse_btree_insert env t (Some k) r = Some (False, t\<lparr>bt_count := bt_count t + 1\<rparr>)"
      "k \<notin> fst ` set (bt_view t)" "bt_ins env (bt_fanout t) 0 k r (bt_root t) = InsFail c True"
    | (wraps) "qihse_btree_insert env t (Some k) r = None" "FANOUT_MAX < unat (bt_fanout t)"
proof -
  let ?f = "bt_fanout t"
  have "ins_spec (unat ?f) None None k r (bt_root t) (bt_ins env ?f 0 k r (bt_root t))"
    using inv by (intro bt_ins_spec [OF env]) (auto simp: btree_inv_def)
  moreover have f: "0 < unat ?f" using inv by (simp add: btree_inv_def)
  ultimately show thesis
  proof (cases "bt_ins env ?f 0 k r (bt_root t)")
    case (InsSplit l s rt)
    with \<open>ins_spec _ _ _ _ _ _ _\<close> inv k inserted wraps f show ?thesis
      by (cases rule: new_root_cases [OF env f, of l s rt])
        (auto simp: qihse_btree_insert_def btree_inv_def bt_view_def Suc_le_eq)
  qed (use env k inserted failed wraps inv in \<open>auto simp: qihse_btree_insert_def btree_inv_def bt_view_def Suc_le_eq\<close>)
qed

lemma insert_short:
  assumes env: "bt_env_ok env" and inv: "btree_inv t" "short_keys (bt_view t)" and k: "length k \<le> 236"
    and f: "unat (bt_fanout t) \<le> FANOUT_MAX"
  obtains t' where "qihse_btree_insert env t (Some k) r = Some (True, t')" "btree_inv t'"
      "bt_view t' = ins_list k r (bt_view t)" "bt_fanout t' = bt_fanout t"
      "bt_count t' = bt_count t + (if k \<in> fst ` set (bt_view t) then 0 else 1)"
proof -
  have "bt_ins env (bt_fanout t) 0 k r (bt_root t) \<noteq> InsFail c True" for c
    using inv by (intro bt_ins_short [OF env _ _ k]) (auto simp: btree_inv_def bt_view_def)
  then show thesis
    using that k f by (cases rule: insert_view [OF env inv(1), of k r])
      (auto simp: QIHSE_BTREE_MAX_KEY_LEN_def)
qed

lemma create_view:
  assumes "bt_env_ok env"
  obtains t where "qihse_btree_create env fanout = Some t" "btree_inv t" "bt_view t = []" "counted t"
    "bt_fanout t = (if fanout \<noteq> 0 then fanout else 128)"
proof -
  let ?f = "if fanout \<noteq> 0 then fanout else 128 :: u32"
  have "0 < unat ?f" by (simp add: word_neq_0_conv unat_gt_0)
  with assms show thesis
    by (intro that [of "\<lparr>bt_root = BLeaf [] 0, bt_fanout = ?f, bt_count = 0, bt_orphans = []\<rparr>"])
      (simp_all add: qihse_btree_create_def node_alloc_leaf_def QIHSE_BTREE_DEFAULT_FANOUT_def
        btree_inv_def bt_view_def counted_def)
qed

lemma length_del_list:
  "ordered es \<Longrightarrow> length (del_list k es) = length es - (if map_of es k = None then 0 else 1)"
proof (induction es)
  case (Cons e es)
  then have "del_list k es = es" if "fst e = k" using that absent_beyond by auto
  moreover have "es \<noteq> []" if "map_of es k \<noteq> None" using that by auto
  ultimately show ?case using Cons by (auto simp: Suc_diff_le)
qed simp

lemma ordered_del_list: "ordered es \<Longrightarrow> ordered (del_list k es)"
  by (induction es) (auto simp: del_list_def)

lemma map_of_del_list: "map_of (del_list k es) = (map_of es)(k := None)"
  by (induction es) (auto simp: fun_eq_iff)

subsection \<open>The interface of a sorted index\<close>

locale sorted_index =
  fixes put :: "bytes \<Rightarrow> u64 \<Rightarrow> 's \<Rightarrow> 's"
    and del :: "bytes \<Rightarrow> 's \<Rightarrow> 's"
    and get :: "'s \<Rightarrow> bytes \<Rightarrow> u64 option"
    and view :: "'s \<Rightarrow> bt_entry list"
    and inv :: "'s \<Rightarrow> bool"
    and fits :: "bytes \<Rightarrow> bool"
  assumes put_inv: "inv s \<Longrightarrow> fits k \<Longrightarrow> inv (put k r s)"
    and put_view: "inv s \<Longrightarrow> fits k \<Longrightarrow> view (put k r s) = ins_list k r (view s)"
    and del_inv: "inv s \<Longrightarrow> inv (del k s)"
    and del_view: "inv s \<Longrightarrow> view (del k s) = del_list k (view s)"
    and get_view: "inv s \<Longrightarrow> get s k = map_of (view s) k"
    and inv_ordered: "inv s \<Longrightarrow> ordered (view s)"
begin

lemma get_put: "inv s \<Longrightarrow> fits k \<Longrightarrow> get (put k r s) k' = (if k' = k then Some r else get s k')"
  by (simp add: get_view put_inv put_view map_of_ins_list inv_ordered)

lemma get_del: "inv s \<Longrightarrow> get (del k s) k' = (if k' = k then None else get s k')"
  by (simp add: get_view del_inv del_view map_of_del_list)

lemma put_all:
  assumes "inv s" "ordered (view s @ es)" "\<forall>e \<in> set es. fits (fst e)"
  shows "inv (fold (\<lambda>(k, r). put k r) es s) \<and> view (fold (\<lambda>(k, r). put k r) es s) = view s @ es"
  using assms
proof (induction es arbitrary: s)
  case (Cons e es)
  obtain k r where e: "e = (k, r)" by force
  have "below (view s) k" using Cons.prems(2) by (auto simp: e sorted_wrt_append)
  then have "view (put k r s) = view s @ [(k, r)]"
    using Cons.prems ins_list_below [of "view s" k r "[]"] by (simp add: e put_view)
  with Cons.IH [of "put k r s"] Cons.prems show ?case by (simp add: e put_inv)
qed simp

end

definition ok_env :: bt_env where
  "ok_env = \<lparr>ok_tree = True, ok_leaf = True, ok_big = True, ok_key_copy = True,
     ok_internal = (\<lambda>d. True), ok_root = True\<rparr>"

lemma bt_env_ok_iff: "bt_env_ok env \<longleftrightarrow> env = ok_env"
  by (cases env) (simp add: bt_env_ok_def ok_env_def del: bt_env_okD, blast)

definition bt_put :: "bytes \<Rightarrow> u64 \<Rightarrow> btree \<Rightarrow> btree" where
  "bt_put k r t = (case qihse_btree_insert ok_env t (Some k) r of Some (_, t') \<Rightarrow> t' | None \<Rightarrow> t)"

definition bt_remove :: "bytes \<Rightarrow> btree \<Rightarrow> btree" where
  "bt_remove k t = snd (qihse_btree_delete t (Some k))"

definition index_ok :: "btree \<Rightarrow> bool" where
  "index_ok t \<longleftrightarrow>
     btree_inv t \<and> counted t \<and> short_keys (bt_view t) \<and> unat (bt_fanout t) \<le> FANOUT_MAX"

lemma put_facts:
  assumes "index_ok t" "length k \<le> 236"
  shows "qihse_btree_insert ok_env t (Some k) r = Some (True, bt_put k r t)"
    "index_ok (bt_put k r t)" "bt_view (bt_put k r t) = ins_list k r (bt_view t)"
    "bt_fanout (bt_put k r t) = bt_fanout t"
proof -
  have t: "btree_inv t" "counted t" "short_keys (bt_view t)" "unat (bt_fanout t) \<le> FANOUT_MAX"
    using assms(1) by (simp_all add: index_ok_def)
  obtain t' where ins: "qihse_btree_insert ok_env t (Some k) r = Some (True, t')" "btree_inv t'"
    "bt_view t' = ins_list k r (bt_view t)" "bt_fanout t' = bt_fanout t"
    "bt_count t' = bt_count t + (if k \<in> fst ` set (bt_view t) then 0 else 1)"
    using insert_short [of ok_env t k r thesis] t assms(2) by (auto simp: bt_env_ok_iff)
  then have put: "bt_put k r t = t'" by (simp add: bt_put_def)
  have "short_keys (bt_view t')"
    using t(3) assms(2) set_ins_list [of k r "bt_view t"] unfolding ins(3) by (auto simp: short_keys_def)
  moreover have "counted t'"
    using t(2) ins(3,5) length_ins_list [OF view_ordered [OF t(1)], of k r] by (simp add: counted_def)
  ultimately show "qihse_btree_insert ok_env t (Some k) r = Some (True, bt_put k r t)"
    "index_ok (bt_put k r t)" "bt_view (bt_put k r t) = ins_list k r (bt_view t)"
    "bt_fanout (bt_put k r t) = bt_fanout t"
    using ins t(4) by (simp_all add: put index_ok_def)
qed

lemma remove_facts:
  assumes "index_ok t"
  shows "index_ok (bt_remove k t)" "bt_view (bt_remove k t) = del_list k (bt_view t)"
proof -
  have t: "btree_inv t" "counted t" "short_keys (bt_view t)" "unat (bt_fanout t) \<le> FANOUT_MAX"
    using assms(1) by (simp_all add: index_ok_def)
  obtain res t' where "qihse_btree_delete t (Some k) = (res, t')" by (metis surj_pair)
  note del = this delete_view [OF t(1) this]
  show view: "bt_view (bt_remove k t) = del_list k (bt_view t)" by (simp add: bt_remove_def del)
  have "res \<noteq> None \<Longrightarrow> bt_view t \<noteq> []" using del(2) by auto
  then have "counted t'"
    using t(2) length_del_list [OF view_ordered [OF t(1)], of k] del(2,4,5)
    by (cases "bt_view t") (auto simp: counted_def)
  moreover have "short_keys (bt_view t')" using t(3) by (auto simp: del(4) del_list_def short_keys_def)
  ultimately show "index_ok (bt_remove k t)" using del(1,3,6) t(4) by (simp add: bt_remove_def index_ok_def)
qed

lemma index_okD: "index_ok t \<Longrightarrow> btree_inv t" "index_ok t \<Longrightarrow> counted t"
    "index_ok t \<Longrightarrow> short_keys (bt_view t)" "index_ok t \<Longrightarrow> unat (bt_fanout t) \<le> FANOUT_MAX"
  by (simp_all add: index_ok_def)

interpretation bt: sorted_index bt_put bt_remove "\<lambda>t k. qihse_btree_lookup t (Some k)" bt_view index_ok
    "\<lambda>k. length k \<le> 236"
  by unfold_locales
    (simp_all add: put_facts remove_facts index_okD lookup_view view_ordered)

end
