(* ===== verification/BtreeScan.thy ===== *)
theory BtreeScan
  imports BtreeInv
begin

section \<open>Range and prefix cursors\<close>

text \<open>
  A cursor that is opened and advanced to its end visits exactly the entries of the index that are in
  range, in key order: skipping starts from a leaf that no entry in range precedes, and stopping at the first
  key past the range loses nothing because the keys in range are contiguous.
\<close>

subsection \<open>Advancing\<close>

fun pending :: "bt_entry list list \<Rightarrow> nat \<Rightarrow> bt_entry list" where
  "pending [] idx = []"
| "pending (es # ls) idx = drop idx es @ concat ls"

definition cursor_rest :: "bt_cursor \<Rightarrow> bt_entry list" where
  "cursor_rest c = pending (cur_leaf c) (cur_idx c)"

primrec cursor_scan :: "nat \<Rightarrow> bt_cursor \<Rightarrow> bt_entry list" where
  "cursor_scan 0 c = []"
| "cursor_scan (Suc n) c =
     (case qihse_btree_cursor_get c of
        None \<Rightarrow> []
      | Some e \<Rightarrow>
          e # (case qihse_btree_cursor_next c of (advanced, c') \<Rightarrow> if advanced then cursor_scan n c' else []))"

abbreviation in_range :: "bt_cursor \<Rightarrow> bt_entry \<Rightarrow> bool" where
  "in_range c e \<equiv> cursor_in_range c (fst e)"

definition range_closed :: "bt_cursor \<Rightarrow> bt_entry list \<Rightarrow> bool" where
  "range_closed c = sorted_wrt (\<lambda>e e'. cursor_past_range c (fst e) \<longrightarrow> \<not> in_range c e \<longrightarrow> \<not> in_range c e')"

definition same_bounds :: "bt_cursor \<Rightarrow> bt_cursor \<Rightarrow> bool" where
  "same_bounds c c' \<longleftrightarrow> cur_min c = cur_min c' \<and> cur_max c = cur_max c' \<and> cur_prefix c = cur_prefix c'"

lemma same_boundsD:
  "same_bounds c c' \<Longrightarrow> cursor_in_range c' = cursor_in_range c"
  "same_bounds c c' \<Longrightarrow> cursor_past_range c' = cursor_past_range c"
  by (simp_all add: same_bounds_def cursor_in_range_def cursor_past_range_def fun_eq_iff split: option.split)

lemma range_closed_past:
  "range_closed c (e # es) \<Longrightarrow> cursor_past_range c (fst e) \<Longrightarrow> \<not> in_range c e \<Longrightarrow>
   filter (in_range c) (e # es) = []"
  by (simp add: range_closed_def filter_empty_conv)

lemma range_closed_tl: "range_closed c (e # es) \<Longrightarrow> range_closed c es"
  by (simp add: range_closed_def)

definition seek_result :: "bt_cursor \<Rightarrow> bt_entry list \<Rightarrow> bool \<Rightarrow> bt_cursor \<Rightarrow> bool" where
  "seek_result c es found c' \<longleftrightarrow> same_bounds c c' \<and>
     (if found
      then \<not> cur_exhausted c' \<and>
        (\<exists>e tail. qihse_btree_cursor_get c' = Some e \<and> cursor_rest c' = e # tail \<and> range_closed c tail \<and>
           length tail < length es \<and> filter (in_range c) es = e # filter (in_range c) tail)
      else filter (in_range c) es = [])"

lemma seek_result_skip:
  "seek_result c es found c' \<Longrightarrow> \<not> in_range c e \<Longrightarrow> seek_result c (e # es) found c'"
  unfolding seek_result_def by (cases found) force+

lemma cursor_seek_spec:
  assumes "range_closed c (pending ls idx)" "\<not> cur_exhausted c" "cursor_seek c ls idx = (found, c')"
  shows "seek_result c (pending ls idx) found c'"
  using assms
proof (induction c ls idx arbitrary: found c' rule: cursor_seek.induct)
  case (1 c idx)
  then show ?case by (auto simp: seek_result_def same_bounds_def)
next
  case (2 c es ls idx)
  show ?case
  proof (cases "idx < length es")
    case False
    have eq: "pending (es # ls) idx = pending ls 0" using False by (cases ls) simp_all
    have "cursor_seek c ls 0 = (found, c')" using 2(5) False by simp
    from 2(2) [OF False 2(3) [unfolded eq] 2(4) this] show ?thesis unfolding eq .
  next
    case True
    define e where "e = es ! idx"
    have eq: "pending (es # ls) idx = e # pending (es # ls) (idx + 1)"
      using True by (simp add: Cons_nth_drop_Suc e_def)
    note closed = 2(3) [unfolded eq]
    consider (inr) "in_range c e" | (past) "\<not> in_range c e" "cursor_past_range c (fst e)"
      | (skip) "\<not> in_range c e" "\<not> cursor_past_range c (fst e)" by blast
    then show ?thesis
    proof cases
      case inr
      with 2(5) True have "found" "c' = c\<lparr>cur_leaf := es # ls, cur_idx := idx\<rparr>" by (simp_all add: e_def)
      moreover have "cursor_rest c' = e # pending (es # ls) (idx + 1)"
        using eq by (simp add: cursor_rest_def calculation(2))
      ultimately show ?thesis
        using inr 2(4) True range_closed_tl [OF closed]
        by (simp add: seek_result_def same_bounds_def qihse_btree_cursor_get_def eq del: pending.simps)
          (simp add: e_def)
    next
      case past
      with 2(5) True have "\<not> found" "same_bounds c c'" by (auto simp: e_def same_bounds_def)
      with range_closed_past [OF closed past(2,1)] show ?thesis by (simp add: seek_result_def eq del: pending.simps)
    next
      case skip
      with 2(5) True have "cursor_seek c (es # ls) (idx + 1) = (found, c')" by (simp add: e_def)
      from 2(1) [OF True skip [unfolded e_def] range_closed_tl [OF closed] 2(4) this]
      show ?thesis unfolding eq by (rule seek_result_skip) (rule skip(1))
    qed
  qed
qed

lemma cursor_scan_spec:
  "\<not> cur_exhausted c \<Longrightarrow> qihse_btree_cursor_get c = Some e \<Longrightarrow> cursor_rest c = e # tail \<Longrightarrow>
   range_closed c tail \<Longrightarrow> length tail < n \<Longrightarrow> cursor_scan n c = e # filter (in_range c) tail"
proof (induction n arbitrary: c e tail)
  case (Suc n)
  have "cur_leaf c \<noteq> []" "cur_idx c < length (hd (cur_leaf c))"
    using Suc.prems(2) by (auto simp: qihse_btree_cursor_get_def split: list.splits if_splits)
  then have tail: "pending (cur_leaf c) (cur_idx c + 1) = tail"
    using Suc.prems(3) by (cases "cur_leaf c") (auto simp: cursor_rest_def Cons_nth_drop_Suc [symmetric])
  obtain found c' where seek: "cursor_seek c (cur_leaf c) (cur_idx c + 1) = (found, c')" by (metis surj_pair)
  note spec = cursor_seek_spec [OF _ Suc.prems(1) seek, unfolded tail, OF Suc.prems(4)]
  have next': "qihse_btree_cursor_next c = (found, c')"
    using Suc.prems(1) seek by (simp add: qihse_btree_cursor_next_def)
  show ?case
  proof (cases found)
    case True
    with spec obtain e' tail' where e': "same_bounds c c'" "\<not> cur_exhausted c'"
      "qihse_btree_cursor_get c' = Some e'" "cursor_rest c' = e' # tail'" "range_closed c tail'"
      "length tail' < length tail" "filter (in_range c) tail = e' # filter (in_range c) tail'"
      by (auto simp: seek_result_def)
    have "cursor_scan n c' = e' # filter (in_range c') tail'"
      by (rule Suc.IH) (use e' Suc.prems(5) in \<open>simp_all add: range_closed_def same_boundsD [OF e'(1)]\<close>)
    with e' True next' Suc.prems(2) show ?thesis by (simp add: same_boundsD [OF e'(1)])
  next
    case False
    with spec next' Suc.prems(2) show ?thesis by (simp add: seek_result_def)
  qed
qed simp

lemma prefix_between: "p < k \<Longrightarrow> k < p @ x \<Longrightarrow> take (length p) k = p" for p k x :: bytes
proof (induction p arbitrary: k)
  case (Cons a p)
  then show ?case by (cases k) auto
qed simp

lemma prefix_ge: "take (length p) k = p \<Longrightarrow> p \<le> k" for p k :: bytes
proof (induction p arbitrary: k)
  case (Cons a p)
  then show ?case by (cases k) auto
qed simp

lemma in_range_prefix:
  "cur_prefix c = Some p \<Longrightarrow> cursor_in_range c k \<longleftrightarrow> take (length p) k = p"
proof (cases "length p \<le> length k")
  case True
  then show "cur_prefix c = Some p \<Longrightarrow> ?thesis" by (simp add: cursor_in_range_def memcmp_eq)
next
  case False
  then have "take (length p) k \<noteq> p" by (metis length_take min.cobounded1)
  with False show "cur_prefix c = Some p \<Longrightarrow> ?thesis" by (simp add: cursor_in_range_def)
qed

lemma in_range_bounds:
  "cur_prefix c = None \<Longrightarrow> cursor_in_range c k \<longleftrightarrow> ge_lo (cur_min c) k \<and> le_hi (cur_max c) k"
  by (auto simp: cursor_in_range_def not_less split: option.splits)

lemma ordered_range_closed: "ordered es \<Longrightarrow> range_closed c es"
proof -
  have "\<not> cursor_in_range c k'" if "k < k'" "cursor_past_range c k" "\<not> cursor_in_range c k" for k k'
  proof (cases "cur_prefix c")
    case None
    with that show ?thesis
      by (auto simp: in_range_bounds cursor_past_range_def not_le split: option.splits intro: order.strict_trans)
  next
    case (Some p)
    show ?thesis
    proof
      assume "cursor_in_range c k'"
      then have "k' = p @ drop (length p) k'" using Some by (metis in_range_prefix append_take_drop_id)
      moreover have "p < k" using that(2) Some by (simp add: cursor_past_range_def)
      ultimately have "take (length p) k = p" using prefix_between that(1) by metis
      with that(3) Some show False by (simp add: in_range_prefix)
    qed
  qed
  then show "ordered es \<Longrightarrow> range_closed c es"
    unfolding range_closed_def by (auto simp: sorted_wrt_map elim: sorted_wrt_mono_rel [rotated])
qed

subsection \<open>Opening\<close>

lemma leftmost_leaf_leaves: "tree_inv cap lo hi n \<Longrightarrow> leftmost_leaf n = leaves n \<and> leaves n \<noteq> []"
proof (induction n arbitrary: lo hi rule: leftmost_leaf.induct)
  case (2 ks cs)
  then have kids: "kids_inv cap lo hi ks cs" by simp
  then obtain c cs' where cs: "cs = c # cs'" by (cases cs) auto
  with kids kids_cons have "tree_inv cap lo (high_of hi ks) c" by blast
  with 2(1) cs show ?case by auto
qed simp

definition scan_cursor :: "nat \<Rightarrow> bt_cursor option \<Rightarrow> bt_entry list" where
  "scan_cursor n c = (case c of None \<Rightarrow> [] | Some c' \<Rightarrow> cursor_scan n c')"

lemma advance_start:
  assumes "btree_inv t"
  obtains l ls where "cursor_advance_to_first t c = cursor_seek c ls 0" "bt_view t = l @ pending ls 0"
    "\<forall>e \<in> set l. \<not> in_range c e"
proof -
  have tree: "tree_inv (unat (bt_fanout t)) None None (bt_root t)" and chain: "bt_orphans t = []"
    using assms by (simp_all add: btree_inv_def)
  have from_key: "\<exists>l ls. descend_to_leaf (bt_root t) k = ls \<and> ls \<noteq> [] \<and> bt_view t = l @ pending ls 0 \<and> below l k"
    for k using descend_split [OF tree, of k] by (auto simp: bt_view_def)
  have left: "leftmost_leaf (bt_root t) \<noteq> []" "bt_view t = [] @ pending (leftmost_leaf (bt_root t)) 0"
    using leftmost_leaf_leaves [OF tree]
    by (cases "leaves (bt_root t)"; auto simp: bt_view_def entries_def)+
  consider (all) "cur_prefix c = None" "cur_min c = None" | (lower) m where "cur_prefix c = None" "cur_min c = Some m"
    | (pre) p where "cur_prefix c = Some p" by blast
  then show thesis
  proof cases
    case all
    with left show ?thesis by (intro that [OF _ left(2)]) (simp_all add: cursor_advance_to_first_def chain)
  next
    case lower
    obtain l ls where d: "descend_to_leaf (bt_root t) m = ls" "ls \<noteq> []" "bt_view t = l @ pending ls 0" "below l m"
      using from_key by metis
    with lower show ?thesis
      by (intro that [OF _ d(3)]) (auto simp: cursor_advance_to_first_def chain in_range_bounds)
  next
    case pre
    obtain l ls where d: "descend_to_leaf (bt_root t) p = ls" "ls \<noteq> []" "bt_view t = l @ pending ls 0" "below l p"
      using from_key by metis
    have "\<forall>e \<in> set l. \<not> in_range c e" using d(4) prefix_ge pre by (fastforce simp: in_range_prefix)
    with d pre show ?thesis by (intro that [OF _ d(3)]) (simp_all add: cursor_advance_to_first_def chain)
  qed
qed

lemma advance_scan:
  assumes inv: "btree_inv t" and c: "\<not> cur_exhausted c" and n: "length (bt_view t) \<le> n"
  shows "scan_cursor n (case cursor_advance_to_first t c of (found, c') \<Rightarrow> if found then Some c' else None) =
    filter (in_range c) (bt_view t)"
proof -
  obtain l ls where ls: "cursor_advance_to_first t c = cursor_seek c ls 0" "bt_view t = l @ pending ls 0"
    "\<forall>e \<in> set l. \<not> in_range c e" using advance_start [OF inv] .
  obtain found c' where seek: "cursor_seek c ls 0 = (found, c')" by (metis surj_pair)
  have "ordered (pending ls 0)" using view_ordered [OF inv] by (simp add: ls(2) sorted_wrt_append)
  from cursor_seek_spec [OF ordered_range_closed [OF this] c seek]
  have res: "seek_result c (pending ls 0) found c'" .
  have view: "filter (in_range c) (bt_view t) = filter (in_range c) (pending ls 0)"
    unfolding ls(2) using ls(3) by simp
  show ?thesis
  proof (cases found)
    case True
    with res obtain e tail where e: "same_bounds c c'" "\<not> cur_exhausted c'" "qihse_btree_cursor_get c' = Some e"
      "cursor_rest c' = e # tail" "range_closed c tail" "length tail < length (pending ls 0)"
      "filter (in_range c) (pending ls 0) = e # filter (in_range c) tail" by (auto simp: seek_result_def)
    have "cursor_scan n c' = e # filter (in_range c') tail"
      by (rule cursor_scan_spec) (use e n ls(2) in \<open>simp_all add: range_closed_def same_boundsD [OF e(1)]\<close>)
    with True seek ls(1) view e show ?thesis by (simp add: scan_cursor_def same_boundsD [OF e(1)])
  next
    case False
    with res seek ls(1) view show ?thesis by (simp add: seek_result_def scan_cursor_def)
  qed
qed

lemma range_scan:
  assumes "btree_inv t" "length (bt_view t) \<le> n"
  shows "scan_cursor n (qihse_btree_range_open True t lo hi) =
    filter (\<lambda>e. ge_lo (bound_of lo) (fst e) \<and> le_hi (bound_of hi) (fst e)) (bt_view t)"
  using advance_scan [OF assms(1) _ assms(2), of "\<lparr>cur_leaf = [], cur_idx = 0, cur_min = bound_of lo,
      cur_max = bound_of hi, cur_prefix = None, cur_exhausted = False\<rparr>"]
  by (simp add: qihse_btree_range_open_def in_range_bounds)

lemma prefix_scan:
  assumes "btree_inv t" "length (bt_view t) \<le> n" "p \<noteq> []"
  shows "scan_cursor n (qihse_btree_prefix_open True t (Some p)) =
    filter (\<lambda>e. take (length p) (fst e) = p) (bt_view t)"
  using advance_scan [OF assms(1) _ assms(2), of "\<lparr>cur_leaf = [], cur_idx = 0, cur_min = None,
      cur_max = None, cur_prefix = Some p, cur_exhausted = False\<rparr>"] assms(3)
  by (simp add: qihse_btree_prefix_open_def in_range_prefix bound_of_def)

end
