(* ===== verification/BtreeKeys.thy ===== *)
theory BtreeKeys
  imports BtreeScan
begin

section \<open>Sort-preserving key serialization\<close>

text \<open>
  Serialized composite keys compare as the columns do, column by column: integers by value, doubles by the
  total order of IEEE 754 on their bit patterns, strings without zero bytes lexicographically.
\<close>

subsection \<open>Big-endian bytes\<close>

primrec be_val :: "bytes \<Rightarrow> nat" where
  "be_val [] = 0"
| "be_val (b # bs) = unat b * 256 ^ length bs + be_val bs"

lemma be_val_less: "be_val bs < 256 ^ length bs"
proof (induction bs)
  case (Cons b bs)
  have "Suc (unat b) \<le> 256" using unsigned_less [of b, where ?'a = nat] by simp
  from mult_le_mono1 [OF this, of "256 ^ length bs"] Cons show ?case
    unfolding mult_Suc be_val.simps list.size power_Suc add_0_right add_Suc_right by linarith
qed simp

lemma be_val_append: "be_val (xs @ ys) = be_val xs * 256 ^ length ys + be_val ys"
  by (induction xs) (simp_all add: algebra_simps power_add)

lemma be_val_order: "length xs = length ys \<Longrightarrow> be_val xs < be_val ys \<longleftrightarrow> xs < ys"
proof (induction xs ys rule: list_induct2)
  case (Cons x xs y ys)
  let ?B = "256 ^ length ys :: nat"
  have "be_val xs < ?B" "be_val ys < ?B" using be_val_less [of xs] be_val_less [of ys] Cons.hyps by simp_all
  moreover have "unat x * ?B + ?B \<le> unat y * ?B" if "unat x < unat y"
    using mult_le_mono1 [OF Suc_leI [OF that], of ?B] by simp
  moreover have "unat y * ?B + ?B \<le> unat x * ?B" if "unat y < unat x"
    using mult_le_mono1 [OF Suc_leI [OF that], of ?B] by simp
  moreover have "x = y \<or> unat x < unat y \<or> unat y < unat x"
    by (auto simp: word_unat_eq_iff)
  ultimately show ?case using Cons by (auto simp: word_less_nat_alt)
qed simp

definition be_bytes :: "nat \<Rightarrow> 'a::len word \<Rightarrow> bytes" where
  "be_bytes n u = map (\<lambda>i. ucast (drop_bit (8 * (n - 1 - i)) u)) [0..<n]"

lemma be_bytes_Suc: "be_bytes (Suc n) u = be_bytes n (drop_bit 8 u) @ [ucast u]"
  by (auto simp: be_bytes_def intro!: arg_cong [where f = ucast] arg_cong2 [where f = drop_bit])

lemma length_be_bytes [simp]: "length (be_bytes n u) = n"
  by (simp add: be_bytes_def)

lemma be_val_be_bytes: "be_val (be_bytes n u) = unat u mod 256 ^ n"
proof (induction n arbitrary: u)
  case (Suc n)
  have "unat (ucast u :: u8) = unat u mod 256" by (simp add: unsigned_ucast_eq take_bit_eq_mod)
  moreover have "unat (drop_bit 8 u) = unat u div 256" by (simp add: unat_drop_bit_eq drop_bit_eq_div [of _ "unat u"])
  ultimately show ?case
    by (simp add: be_bytes_Suc be_val_append Suc mod_mult2_eq)
qed (simp add: be_bytes_def)

lemma be_bytes_order:
  assumes "LENGTH('a) = 8 * n"
  shows "be_bytes n (u :: 'a::len word) < be_bytes n v \<longleftrightarrow> u < v"
proof -
  have "unat w < 256 ^ n" for w :: "'a word"
    using unsigned_less [of w, where ?'a = nat] by (simp add: assms power_mult)
  then show ?thesis
    by (simp add: be_val_order [symmetric] be_val_be_bytes word_less_nat_alt)
qed

subsection \<open>Sign flips\<close>

lemma uint_top_bit:
  assumes "LENGTH('a::len) = Suc n"
  shows "uint (v :: 'a word) = uint (take_bit n v) + (if bit v n then 2 ^ n else 0)"
proof -
  have "uint v < 2 ^ Suc n" using uint_bounded [of v] by (simp add: assms)
  then have "uint v = take_bit (Suc n) (uint v)" by (simp add: take_bit_int_eq_self)
  also have "\<dots> = take_bit n (uint v) + (if bit (uint v) n then 2 ^ n else 0)"
    by (simp add: take_bit_Suc_from_most)
  finally show ?thesis
    using assms by (simp add: unsigned_take_bit_eq bit_uint_iff)
qed

lemma sint_top_bit:
  assumes "LENGTH('a::len) = Suc n"
  shows "sint (v :: 'a word) = uint (take_bit n v) - (if bit v n then 2 ^ n else 0)"
proof -
  have "sint v = signed_take_bit n (uint v)" by (simp add: sint_uint assms)
  also have "\<dots> = take_bit (Suc n) (uint v) - 2 ^ Suc n * of_bool (bit (uint v) n)"
    by (rule signed_take_bit_eq_take_bit_minus)
  also have "take_bit (Suc n) (uint v) = uint v"
    using uint_bounded [of v] by (simp add: assms take_bit_int_eq_self)
  also have "bit (uint v) n = bit v n" by (simp add: bit_uint_iff assms)
  finally show ?thesis using uint_top_bit [OF assms, of v] by (cases "bit v n") simp_all
qed

lemma flip_top_bit:
  assumes "LENGTH('a::len) = Suc n"
  shows "take_bit n (v XOR push_bit n 1) = take_bit n (v :: 'a word)"
    "bit (v XOR push_bit n 1) n \<longleftrightarrow> \<not> bit v n"
proof -
  show "take_bit n (v XOR push_bit n 1) = take_bit n v"
    by (rule bit_eqI) (auto simp: bit_take_bit_iff bit_xor_iff bit_push_bit_iff bit_exp_iff)
  show "bit (v XOR push_bit n 1) n \<longleftrightarrow> \<not> bit v n"
    using assms by (simp add: bit_xor_iff bit_push_bit_iff bit_exp_iff)
qed

lemma sign_flip_order:
  assumes "LENGTH('a::len) = Suc n"
  shows "(v :: 'a word) XOR push_bit n 1 < w XOR push_bit n 1 \<longleftrightarrow> sint v < sint w"
proof -
  have "uint (u XOR push_bit n 1) = sint u + 2 ^ n" for u :: "'a word"
    using uint_top_bit [OF assms, of "u XOR push_bit n 1"] sint_top_bit [OF assms, of u]
    unfolding flip_top_bit [OF assms] by (cases "bit u n") simp_all
  then show ?thesis by (simp only: word_less_def) simp
qed

definition ieee_less :: "u64 \<Rightarrow> u64 \<Rightarrow> bool" where
  "ieee_less a b =
     (if bit a 63 then if bit b 63 then take_bit 63 b < take_bit 63 a else True
      else if bit b 63 then False else take_bit 63 a < take_bit 63 b)"

definition float_key :: "u64 \<Rightarrow> u64" where
  "float_key d = d XOR (if bit d 63 then 0xFFFFFFFFFFFFFFFF else push_bit 63 1)"

lemma float_key_order: "float_key a < float_key b \<longleftrightarrow> ieee_less a b"
proof -
  have key: "uint (float_key d) =
      (if bit d 63 then 2 ^ 63 - 1 - uint (take_bit 63 d) else uint (take_bit 63 d) + 2 ^ 63)" for d
  proof (cases "bit d 63")
    case True
    have "(0xFFFFFFFFFFFFFFFF :: u64) = - 1" by simp
    then have "float_key d = NOT d" using True unfolding float_key_def by (simp only: if_True) simp
    moreover have "take_bit 64 (uint d) = uint d"
      using uint_bounded [of d] by (simp add: take_bit_int_eq_self)
    ultimately have "uint (float_key d) = 2 ^ 64 - 1 - uint d"
      by (simp add: unsigned_not_eq take_bit_not_eq_mask_diff mask_eq_exp_minus_1)
    with True uint_top_bit [of 63 d] show ?thesis by simp
  next
    case False
    then show ?thesis using uint_top_bit [of 63 "float_key d"] flip_top_bit [of 63 d]
      by (simp add: float_key_def)
  qed
  have "0 \<le> uint (take_bit 63 d) \<and> uint (take_bit 63 d) < 2 ^ 63" for d :: u64
    using take_bit_int_less_exp [of 63 "uint d"] by (simp add: unsigned_take_bit_eq)
  note bounds = this
  define A where "A = uint (take_bit 63 a)"
  define B where "B = uint (take_bit 63 b)"
  have "0 \<le> A" "A < 2 ^ 63" "0 \<le> B" "B < 2 ^ 63" using bounds by (simp_all add: A_def B_def)
  then show ?thesis
    unfolding ieee_less_def word_less_def key A_def [symmetric] B_def [symmetric] by auto
qed

lemma encode_int64: "encode_int64_sortable v = be_bytes 8 (v XOR push_bit 63 1)"
  by (simp add: encode_int64_sortable_def be_bytes_def Let_def algebra_simps)

lemma encode_int32: "encode_int32_sortable v = be_bytes 4 (v XOR push_bit 31 1)"
  by (simp add: encode_int32_sortable_def be_bytes_def Let_def algebra_simps)

lemma encode_float64: "encode_float64_sortable d = be_bytes 8 (float_key d)"
proof -
  have "drop_bit 63 d AND 1 \<noteq> 0 \<longleftrightarrow> bit d 63"
    by (simp only: and_one_eq bit_iff_odd_drop_bit even_iff_mod_2_eq_zero)
  then show ?thesis
    unfolding encode_float64_sortable_def be_bytes_def Let_def float_key_def
    by (simp only:) (simp add: algebra_simps)
qed

subsection \<open>Columns\<close>

fun same_type :: "bt_col \<Rightarrow> bt_col \<Rightarrow> bool" where
  "same_type (ColInt32 _) (ColInt32 _) = True"
| "same_type (ColInt64 _) (ColInt64 _) = True"
| "same_type (ColFloat64 _) (ColFloat64 _) = True"
| "same_type (ColString s) (ColString t) \<longleftrightarrow> 0 \<notin> set s \<and> 0 \<notin> set t"
| "same_type _ _ = False"

fun col_less :: "bt_col \<Rightarrow> bt_col \<Rightarrow> bool" where
  "col_less (ColInt32 v) (ColInt32 w) \<longleftrightarrow> sint v < sint w"
| "col_less (ColInt64 v) (ColInt64 w) \<longleftrightarrow> sint v < sint w"
| "col_less (ColFloat64 a) (ColFloat64 b) \<longleftrightarrow> ieee_less a b"
| "col_less (ColString s) (ColString t) \<longleftrightarrow> s < t"
| "col_less _ _ = False"

fun cols_less :: "bt_col list \<Rightarrow> bt_col list \<Rightarrow> bool" where
  "cols_less (c # cs) (d # ds) \<longleftrightarrow> col_less c d \<or> c = d \<and> cols_less cs ds"
| "cols_less _ _ = False"

fun col_bytes :: "bt_col \<Rightarrow> bytes" where
  "col_bytes (ColInt32 v) = encode_int32_sortable v"
| "col_bytes (ColInt64 v) = encode_int64_sortable v"
| "col_bytes (ColFloat64 d) = encode_float64_sortable d"
| "col_bytes (ColString s) = s @ [0]"
| "col_bytes ColOther = []"

lemma append_less: "length xs = length ys \<Longrightarrow> xs @ us < ys @ vs \<longleftrightarrow> xs < ys \<or> xs = ys \<and> us < vs"
  for xs ys us vs :: bytes
  by (induction xs ys rule: list_induct2) auto

lemma string_less:
  "0 \<notin> set s \<Longrightarrow> 0 \<notin> set t \<Longrightarrow> s @ 0 # us < t @ 0 # vs \<longleftrightarrow> s < t \<or> s = t \<and> us < vs"
  for s t us vs :: bytes
proof (induction s arbitrary: t)
  case Nil
  then show ?case by (cases t) (auto simp: word_neq_0_conv)
next
  case (Cons a s)
  then show ?case by (cases t) (auto simp: word_not_simps(1))
qed

lemma be_bytes_inj: "LENGTH('a) = 8 * n \<Longrightarrow> be_bytes n (u :: 'a::len word) = be_bytes n v \<longleftrightarrow> u = v"
  by (metis be_bytes_order order.irrefl linorder_neqE)

lemma float_key_inj: "float_key a = float_key b \<longleftrightarrow> a = b"
proof
  assume "float_key a = float_key b"
  then have "\<not> ieee_less a b" "\<not> ieee_less b a" using float_key_order by (metis order.irrefl)+
  then have "bit a 63 = bit b 63" "take_bit 63 a = take_bit 63 b"
    by (auto simp: ieee_less_def split: if_splits)
  then show "a = b" using uint_top_bit [of 63 a] uint_top_bit [of 63 b] by (simp add: word_uint_eq_iff)
qed simp

lemma xor_cancel: "v XOR m = w XOR m \<longleftrightarrow> v = w" for v w m :: "'a::len word"
  by (metis xor.assoc xor.right_neutral xor_self_eq)

lemma col_bytes_less:
  assumes "same_type c d"
  shows "col_bytes c @ us < col_bytes d @ vs \<longleftrightarrow> col_less c d \<or> c = d \<and> us < vs"
  using assms
  by (cases "(c, d)" rule: same_type.cases)
    (simp_all add: encode_int32 encode_int64 encode_float64 append_less be_bytes_order be_bytes_inj
      sign_flip_order xor_cancel float_key_order float_key_inj string_less del: push_bit_of_1)

definition key_bytes :: "bt_col list \<Rightarrow> bytes" where
  "key_bytes cs = concat (map col_bytes cs)"

lemma key_bytes_less:
  "list_all2 same_type cs ds \<Longrightarrow> key_bytes cs < key_bytes ds \<longleftrightarrow> cols_less cs ds"
  by (induction rule: list_all2_induct) (simp_all add: key_bytes_def col_bytes_less)

lemma put_cols_ok: "ColOther \<notin> set cs \<Longrightarrow> put_cols cs = (True, key_bytes cs)"
proof (induction cs)
  case (Cons c cs)
  then show ?case by (cases c) (simp_all add: key_bytes_def)
qed (simp add: key_bytes_def)

lemma serialize_alloc_ok:
  "ColOther \<notin> set cs \<Longrightarrow> qihse_btree_serialize_key_alloc True (Some cs) = (0, Some (key_bytes cs))"
  by (simp add: qihse_btree_serialize_key_alloc_def qihse_btree_serialize_key_def put_cols_ok Let_def)

lemma same_type_supported: "list_all2 same_type cs ds \<Longrightarrow> ColOther \<notin> set cs \<and> ColOther \<notin> set ds"
proof (induction rule: list_all2_induct)
  case (Cons c cs d ds)
  then show ?case by (cases "(c, d)" rule: same_type.cases) auto
qed simp

end
