(* ===== verification/BtreeFile.thy ===== *)
theory BtreeFile
  imports BtreeKeys
begin

section \<open>Saving and loading\<close>

text \<open>
  Loading what was saved rebuilds an index with the same entries; loading a proper prefix of a saved file
  yields no tree.
\<close>

subsection \<open>Entries\<close>

lemma fread_append: "length a = n \<Longrightarrow> fread n (a @ b) = Some (a, b)"
  by (simp add: fread_def)

lemma fread_short: "length bs < n \<Longrightarrow> fread n bs = None"
  by (simp add: fread_def)

lemma fread_take: "n \<le> m \<Longrightarrow> length a = n \<Longrightarrow> fread n (take m (a @ b)) = Some (a, take (m - n) b)"
  by (simp add: fread_def)

definition put_entries :: "bt_entry list \<Rightarrow> btree \<Rightarrow> btree" where
  "put_entries es t = fold (\<lambda>(k, r). bt_put k r) es t"

lemma put_entries_simps [simp]:
  "put_entries [] t = t" "put_entries (e # es) t = put_entries es (bt_put (fst e) (snd e) t)"
  by (simp_all add: put_entries_def split_beta)

lemma key_len_roundtrip:
  "length k \<le> 236 \<Longrightarrow> unat (le_word (le_bytes 2 (of_nat (length k) :: u16)) :: u16) = length k"
  by (simp add: le_word_le_bytes unat_of_nat take_bit_nat_eq_self)

lemma load_entry:
  assumes "index_ok t" "length (fst e) \<le> 236" "length (save_entry e) \<le> m"
  shows "load_entries (\<lambda>_. ok_env) (\<lambda>_. True) i (Suc n) (take m (save_entry e @ bs)) t =
    load_entries (\<lambda>_. ok_env) (\<lambda>_. True) (Suc i) n (take (m - length (save_entry e)) bs) (bt_put (fst e) (snd e) t)"
  using assms put_facts(1) [OF assms(1,2), of "snd e"]
  by (simp add: save_entry_def fread_take key_len_roundtrip Let_def add.commute del: take_append)

lemma load_entry_cut:
  assumes "length (fst e) \<le> 236" "m < length (save_entry e)"
  shows "load_entries (\<lambda>_. ok_env) (\<lambda>_. True) i (Suc n) (take m (save_entry e @ bs)) t = Some None"
proof -
  consider "m < 2" | "2 \<le> m" "m < 10" | "10 \<le> m" "m < 10 + length (fst e)"
    using assms(2) by (force simp: save_entry_def)
  then show ?thesis
    by cases (use assms(1) in \<open>simp_all add: save_entry_def fread_take fread_short key_len_roundtrip Let_def
        del: take_append\<close>)
qed

lemma load_entries_all:
  "index_ok t \<Longrightarrow> short_keys es \<Longrightarrow>
   load_entries (\<lambda>_. ok_env) (\<lambda>_. True) i (length es) (concat (map save_entry es)) t = Some (Some (put_entries es t))"
proof (induction es arbitrary: i t)
  case (Cons e es)
  then have e: "length (fst e) \<le> 236" "short_keys es" by (auto simp: short_keys_def)
  from load_entry [OF Cons.prems(1) e(1), of "length (save_entry e @ concat (map save_entry es))" i "length es"
      "concat (map save_entry es)"] Cons.IH [OF put_facts(2) [OF Cons.prems(1) e(1)] e(2), of "Suc i"]
  show ?case by (simp del: load_entries.simps)
qed simp

lemma load_entries_cut:
  "index_ok t \<Longrightarrow> short_keys es \<Longrightarrow> m < length (concat (map save_entry es)) \<Longrightarrow>
   load_entries (\<lambda>_. ok_env) (\<lambda>_. True) i (length es) (take m (concat (map save_entry es))) t = Some None"
proof (induction es arbitrary: i t m)
  case (Cons e es)
  then have e: "length (fst e) \<le> 236" "short_keys es" by (auto simp: short_keys_def)
  show ?case
  proof (cases "m < length (save_entry e)")
    case True
    with load_entry_cut [OF e(1)] show ?thesis by (simp del: load_entries.simps take_append)
  next
    case False
    with Cons.prems(3) Cons.IH [OF put_facts(2) [OF Cons.prems(1) e(1)] e(2), of "m - length (save_entry e)" "Suc i"]
    show ?thesis using load_entry [OF Cons.prems(1) e(1), of m i]
      by (simp del: load_entries.simps take_append)
  qed
qed simp

subsection \<open>Files\<close>

definition save_stream :: "btree \<Rightarrow> bytes" where
  "save_stream t = le_bytes 4 QIHSE_BTREE_MAGIC @ le_bytes 4 QIHSE_BTREE_VERSION @
     le_bytes 4 (bt_fanout t) @ le_bytes 8 (bt_count t) @ concat (map save_entry (bt_view t))"

lemma save_result:
  assumes "index_ok t"
  shows "qihse_btree_save True limit t =
    (0, Some (case limit of None \<Rightarrow> save_stream t | Some n \<Rightarrow> take n (save_stream t)))"
proof -
  have chain: "bt_orphans t = []" using index_okD(1) [OF assms] by (simp add: btree_inv_def)
  have "concat (leftmost_leaf (bt_root t)) = bt_view t"
    using leftmost_leaf_leaves index_okD(1) [OF assms] by (auto simp: btree_inv_def bt_view_def entries_def)
  with index_okD(2) [OF assms] show ?thesis
    by (simp add: qihse_btree_save_def Let_def save_stream_def counted_def chain split: option.split)
qed

lemma put_entries_facts:
  assumes "index_ok t" "bt_view t = []" "ordered es" "short_keys es"
  shows "index_ok (put_entries es t)" "bt_view (put_entries es t) = es"
    "bt_fanout (put_entries es t) = bt_fanout t"
proof -
  show "index_ok (put_entries es t)" "bt_view (put_entries es t) = es"
    using bt.put_all [of t es] assms by (simp_all add: put_entries_def short_keys_def)
  show "bt_fanout (put_entries es t) = bt_fanout t"
    using assms(1,4) by (induction es arbitrary: t) (auto simp: short_keys_def put_facts)
qed

lemma load_stream:
  assumes "20 \<le> m" "qihse_btree_create ok_env (bt_fanout t) = Some t0"
  shows "qihse_btree_load ok_env (\<lambda>_. ok_env) (\<lambda>_. True) (Some (take m (save_stream t))) =
    load_entries (\<lambda>_. ok_env) (\<lambda>_. True) 0 (unat (bt_count t)) (take (m - 20) (concat (map save_entry (bt_view t)))) t0"
  using assms by (simp add: qihse_btree_load_def save_stream_def fread_take del: take_append)

lemma load_header_cut:
  assumes "m < 20"
  shows "qihse_btree_load ok_env (\<lambda>_. ok_env) (\<lambda>_. True) (Some (take m (save_stream t))) = Some None"
proof -
  consider "m < 4" | "4 \<le> m" "m < 8" | "8 \<le> m" "m < 12" | "12 \<le> m" "m < 20" using assms by linarith
  then show ?thesis
    by cases (simp_all add: qihse_btree_load_def save_stream_def fread_take fread_short del: take_append)
qed

lemma create_fresh:
  assumes "index_ok t"
  obtains t0 where "qihse_btree_create ok_env (bt_fanout t) = Some t0" "index_ok t0" "bt_view t0 = []"
    "bt_fanout t0 = bt_fanout t"
proof -
  have "bt_fanout t \<noteq> 0" using index_okD(1) [OF assms] by (auto simp: btree_inv_def)
  moreover have "bt_env_ok ok_env" by (simp add: bt_env_ok_iff)
  then obtain t0 where "qihse_btree_create ok_env (bt_fanout t) = Some t0" "btree_inv t0" "bt_view t0 = []"
    "counted t0" "bt_fanout t0 = (if bt_fanout t \<noteq> 0 then bt_fanout t else 128)" by (rule create_view)
  ultimately show thesis
    using index_okD(4) [OF assms] by (intro that [of t0]) (simp_all add: index_ok_def short_keys_def)
qed

lemma count_length:
  "index_ok t \<Longrightarrow> length (bt_view t) < 2 ^ 64 \<Longrightarrow> unat (bt_count t) = length (bt_view t)"
  by (simp add: index_ok_def counted_def unat_of_nat take_bit_nat_eq_self)

lemma save_load:
  assumes "index_ok t" "length (bt_view t) < 2 ^ 64"
  shows "\<exists>file t'. qihse_btree_save True None t = (0, Some file) \<and>
    qihse_btree_load ok_env (\<lambda>_. ok_env) (\<lambda>_. True) (Some file) = Some (Some t') \<and> index_ok t' \<and>
    bt_view t' = bt_view t \<and> bt_fanout t' = bt_fanout t"
proof -
  obtain t0 where t0: "qihse_btree_create ok_env (bt_fanout t) = Some t0" "index_ok t0" "bt_view t0 = []"
    "bt_fanout t0 = bt_fanout t" using create_fresh [OF assms(1)] .
  note len = count_length [OF assms(1,2)]
  note view = view_ordered [OF index_okD(1) [OF assms(1)]] index_okD(3) [OF assms(1)]
  have "20 \<le> length (save_stream t)" by (simp add: save_stream_def)
  from load_stream [OF this t0(1)] load_entries_all [OF t0(2) view(2)]
  have "qihse_btree_load ok_env (\<lambda>_. ok_env) (\<lambda>_. True) (Some (save_stream t)) = Some (Some (put_entries (bt_view t) t0))"
    by (simp add: len) (simp add: save_stream_def)
  with put_entries_facts [OF t0(2,3) view] t0(4) save_result [OF assms(1), of None] show ?thesis by auto
qed

lemma load_cut:
  assumes "index_ok t" "length (bt_view t) < 2 ^ 64" "m < length (save_stream t)"
  shows "qihse_btree_load ok_env (\<lambda>_. ok_env) (\<lambda>_. True) (Some (take m (save_stream t))) = Some None"
proof (cases "m < 20")
  case True
  then show ?thesis by (rule load_header_cut)
next
  case False
  obtain t0 where t0: "qihse_btree_create ok_env (bt_fanout t) = Some t0" "index_ok t0"
    using create_fresh [OF assms(1)] by metis
  note len = count_length [OF assms(1,2)]
  have "m - 20 < length (concat (map save_entry (bt_view t)))"
    using assms(3) False by (simp add: save_stream_def)
  from load_entries_cut [OF t0(2) index_okD(3) [OF assms(1)] this] load_stream [OF _ t0(1), of m] False
  show ?thesis by (simp add: len)
qed

end
