(* ===== verification/BtreeProps.thy ===== *)
theory BtreeProps
  imports BtreeFile
begin

section \<open>Properties of the index\<close>

text \<open>
  Reachable trees are well formed, and a tree is run against a finite map. The properties of the
  index follow from the lemmas of the preceding theories.
\<close>

subsection \<open>Reachable trees\<close>

inductive bt_reach :: "btree \<Rightarrow> bool" where
  created: "qihse_btree_create env fanout = Some t \<Longrightarrow> bt_reach t"
| inserted: "bt_reach t \<Longrightarrow> bt_env_ok env \<Longrightarrow> qihse_btree_insert env t key row = Some (ok, t') \<Longrightarrow> bt_reach t'"
| deleted: "bt_reach t \<Longrightarrow> qihse_btree_delete t key = (row, t') \<Longrightarrow> bt_reach t'"
| loaded: "qihse_btree_load ok_env (\<lambda>_. ok_env) ok_key file = Some (Some t) \<Longrightarrow> bt_reach t"

lemma bt_create_inv: "qihse_btree_create env fanout = Some t \<Longrightarrow> btree_inv t"
  by (auto simp: qihse_btree_create_def node_alloc_leaf_def btree_inv_def word_neq_0_conv unat_gt_0
      QIHSE_BTREE_DEFAULT_FANOUT_def split: if_splits)

lemma insert_inv:
  assumes "btree_inv t" "bt_env_ok env" "qihse_btree_insert env t key row = Some (ok, t')"
  shows "btree_inv t'"
proof (cases "\<exists>k. key = Some k \<and> length k \<le> QIHSE_BTREE_MAX_KEY_LEN")
  case True
  then obtain k where k: "key = Some k" "length k \<le> QIHSE_BTREE_MAX_KEY_LEN" by blast
  show ?thesis
    by (cases rule: insert_view [OF assms(2,1) k(2), of row])
      (use assms k in \<open>auto simp: btree_inv_def\<close>)
next
  case False
  with assms show ?thesis by (auto simp: qihse_btree_insert_def split: option.splits)
qed

lemma delete_inv: "btree_inv t \<Longrightarrow> qihse_btree_delete t key = (row, t') \<Longrightarrow> btree_inv t'"
  using delete_view(2) by (cases key) (auto simp: qihse_btree_delete_def)

lemma load_entries_inv:
  "btree_inv t \<Longrightarrow> load_entries (\<lambda>_. ok_env) ok_key i n bs t = Some (Some t') \<Longrightarrow> btree_inv t'"
proof (induction n arbitrary: i bs t)
  case (Suc n)
  from Suc.prems(2) obtain key row ok t1 bs' where
    step: "qihse_btree_insert ok_env t (Some key) row = Some (ok, t1)" "load_entries (\<lambda>_. ok_env) ok_key (Suc i) n bs' t1 = Some (Some t')"
    unfolding load_entries.simps Let_def by (auto split: option.splits if_splits)
  have "btree_inv t1" using insert_inv [OF Suc.prems(1) _ step(1)] by (simp add: bt_env_ok_iff)
  with Suc.IH step(2) show ?case by blast
qed simp

lemma load_inv: "qihse_btree_load ok_env (\<lambda>_. ok_env) ok_key file = Some (Some t) \<Longrightarrow> btree_inv t"
  unfolding qihse_btree_load_def
  by (auto split: option.splits if_splits elim!: load_entries_inv [OF bt_create_inv])

lemma bt_reach_inv: "bt_reach t \<Longrightarrow> btree_inv t"
  by (induction rule: bt_reach.induct) (auto intro: bt_create_inv insert_inv delete_inv load_inv)

subsection \<open>Pages and arrays\<close>

text \<open>Each array of an internal node has a free slot for the key or child that is linked before a split.\<close>

fun nodes_fit :: "u32 \<Rightarrow> bnode \<Rightarrow> bool" where
  "nodes_fit f (BLeaf es n) \<longleftrightarrow> n = leaf_bytes es \<and> n \<le> data_capacity \<and> length es \<le> unat f"
| "nodes_fit f (BNode ks cs) \<longleftrightarrow>
     length ks \<le> unat f \<and> length cs = length ks + 1 \<and> length ks + 1 < 2 ^ 16 \<and>
     length ks < unat (snd (internal_slots f)) \<and> length cs < unat (fst (internal_slots f)) \<and>
     (\<forall>c \<in> set cs. nodes_fit f c)"

lemma inv_fit:
  assumes f: "0 < unat f" "unat f \<le> FANOUT_MAX"
  shows "cap = unat f \<Longrightarrow> tree_inv cap lo hi n \<Longrightarrow> nodes_fit f n"
    "cap = unat f \<Longrightarrow> kids_inv cap lo hi ks cs \<Longrightarrow> \<forall>c \<in> set cs. nodes_fit f c"
proof (induction cap lo hi n and cap lo hi ks cs rule: tree_inv_kids_inv.induct)
  case (2 cap lo hi ks cs)
  with kids_length [of cap lo hi ks cs] internal_slots_fit [OF f] f(2) show ?case
    by (simp add: FANOUT_MAX_def)
qed auto

subsection \<open>Sequences of operations\<close>

datatype bt_op = BtPut bytes u64 | BtDel bytes

fun bt_step :: "bt_op \<Rightarrow> btree \<Rightarrow> btree" where
  "bt_step (BtPut k r) t = bt_put k r t"
| "bt_step (BtDel k) t = bt_remove k t"

fun map_step :: "bt_op \<Rightarrow> (bytes \<rightharpoonup> u64) \<Rightarrow> (bytes \<rightharpoonup> u64)" where
  "map_step (BtPut k r) m = m(k \<mapsto> r)"
| "map_step (BtDel k) m = m(k := None)"

fun op_short :: "bt_op \<Rightarrow> bool" where
  "op_short (BtPut k r) \<longleftrightarrow> length k \<le> 236"
| "op_short (BtDel k) \<longleftrightarrow> True"

lemma step_refines:
  assumes "index_ok t" "op_short op"
  shows "index_ok (bt_step op t) \<and> map_of (bt_view (bt_step op t)) = map_step op (map_of (bt_view t))"
  using assms bt.inv_ordered [OF assms(1)]
  by (cases op) (auto simp: put_facts remove_facts map_of_ins_list map_of_del_list)

lemma run_refines:
  "index_ok t \<Longrightarrow> \<forall>op \<in> set ops. op_short op \<Longrightarrow>
   index_ok (fold bt_step ops t) \<and>
   map_of (bt_view (fold bt_step ops t)) = fold map_step ops (map_of (bt_view t))"
proof (induction ops arbitrary: t)
  case (Cons op ops)
  with step_refines [of t op] Cons.IH [of "bt_step op t"] show ?case by simp
qed simp

lemma size_view:
  assumes "index_ok t"
  shows "qihse_btree_size t = of_nat (card (dom (map_of (bt_view t))))"
proof -
  have "distinct (map fst (bt_view t))"
    using bt.inv_ordered [OF assms] strict_sorted_iff by blast
  then have "card (dom (map_of (bt_view t))) = length (bt_view t)"
    by (metis distinct_card dom_map_of_conv_image_fst length_map set_map)
  with assms show ?thesis by (simp add: qihse_btree_size_def index_ok_def counted_def)
qed

subsection \<open>Examples\<close>

lemma insert_refines:
  assumes "bt_env_ok env" "btree_inv t" "length k \<le> QIHSE_BTREE_MAX_KEY_LEN" "unat (bt_fanout t) \<le> FANOUT_MAX"
  obtains ok t' where "qihse_btree_insert env t (Some k) r = Some (ok, t')" "btree_inv t'"
    "bt_view t' = (if ok then ins_list k r (bt_view t) else bt_view t)"
  using assms(2,4)
  by (cases rule: insert_view [OF assms(1-3), of r]) (auto intro: that simp: bt_view_def btree_inv_def)

lemma insert_defined:
  assumes "btree_inv t" "unat (bt_fanout t) \<le> FANOUT_MAX"
  shows "\<exists>ok t'. qihse_btree_insert ok_env t key row = Some (ok, t')"
proof (cases "\<exists>k. key = Some k \<and> length k \<le> QIHSE_BTREE_MAX_KEY_LEN")
  case True
  then obtain k where k: "key = Some k" "length k \<le> QIHSE_BTREE_MAX_KEY_LEN" by blast
  have "bt_env_ok ok_env" by (simp add: bt_env_ok_iff)
  from insert_refines [OF this assms(1) k(2) assms(2), of row] k(1) show ?thesis by metis
next
  case False
  then show ?thesis by (auto simp: qihse_btree_insert_def split: option.split)
qed

text \<open>With the largest fanout the arrays of the first root are too short for its key and children.\<close>

lemma largest_fanout_overflows:
  "ok_root env \<Longrightarrow> internal_slots 0xFFFFFFFF = (1, 0) \<and> new_root env 0xFFFFFFFF l k r = None"
  by (simp add: new_root_def node_alloc_internal_def internal_slots_def Let_def)

definition demo_ops :: "bt_op list" where
  "demo_ops = [BtPut [2] 20, BtPut [1] 10, BtPut [3, 1] 31, BtPut [3] 30, BtPut [4] 40, BtDel [2]]"

definition demo_tree :: btree where
  "demo_tree = fold bt_step demo_ops \<lparr>bt_root = BLeaf [] 0, bt_fanout = 2, bt_count = 0, bt_orphans = []\<rparr>"

lemma demo_created:
  "qihse_btree_create ok_env 2 = Some \<lparr>bt_root = BLeaf [] 0, bt_fanout = 2, bt_count = 0, bt_orphans = []\<rparr>"
  by (simp add: qihse_btree_create_def node_alloc_leaf_def ok_env_def)

lemma created_ok:
  assumes "qihse_btree_create ok_env f = Some t" "f \<le> 65534"
  shows "index_ok t" "bt_view t = []"
proof -
  have "bt_env_ok ok_env" by (simp add: bt_env_ok_iff)
  then obtain t' where "qihse_btree_create ok_env f = Some t'" "btree_inv t'" "bt_view t' = []" "counted t'"
    "bt_fanout t' = (if f \<noteq> 0 then f else 128)"
    by (rule create_view)
  with assms show "index_ok t" "bt_view t = []"
    by (simp_all add: index_ok_def short_keys_def FANOUT_MAX_def word_le_nat_alt)
qed

lemma demo_facts: "index_ok demo_tree" "map_of (bt_view demo_tree) = fold map_step demo_ops Map.empty"
  using run_refines [of "\<lparr>bt_root = BLeaf [] 0, bt_fanout = 2, bt_count = 0, bt_orphans = []\<rparr>" demo_ops]
    created_ok [OF demo_created]
  by (simp_all add: demo_tree_def demo_ops_def)

lemma demo_view: "bt_view demo_tree = [([1], 10), ([3], 30), ([3, 1], 31), ([4], 40)]"
  using created_ok [OF demo_created] by (simp add: demo_tree_def demo_ops_def put_facts remove_facts)

definition big_key :: "u8 \<Rightarrow> bytes" where
  "big_key b = b # replicate 1023 0"

definition big_tree :: btree where
  "big_tree = \<lparr>bt_root = BLeaf [([1], 1), ([2], 2), ([3], 3), (big_key 4, 4), (big_key 5, 5), (big_key 6, 6)] 3171,
     bt_fanout = 128, bt_count = 6, bt_orphans = []\<rparr>"

lemma big_tree_ok: "btree_inv big_tree" "counted big_tree"
  by (simp_all add: big_tree_def btree_inv_def counted_def bt_view_def big_key_def data_capacity_def
      QIHSE_BTREE_PAGE_SIZE_def)

lemma lower_bound_end: "ordered es \<Longrightarrow> below es k \<Longrightarrow> leaf_lower_bound es k = length es"
  using leaf_lower_bound_split [of es k]
  by (metis drop_eq_Nil in_set_dropD le_antisym leD last_in_set)

definition page :: "bt_entry list \<Rightarrow> btree" where
  "page es = \<lparr>bt_root = BLeaf es (leaf_bytes es), bt_fanout = 128, bt_count = of_nat (length es), bt_orphans = []\<rparr>"

lemma page_append:
  assumes "bt_reach (page es)" "ordered es" "below es k" "length es < 128"
    "leaf_bytes es + (16 + length k) \<le> data_capacity" "length k \<le> QIHSE_BTREE_MAX_KEY_LEN"
  shows "bt_reach (page (es @ [(k, r)]))"
proof (rule bt_reach.inserted [OF assms(1)])
  show "bt_env_ok ok_env" by (simp add: bt_env_ok_iff)
  show "qihse_btree_insert ok_env (page es) (Some k) r = Some (True, page (es @ [(k, r)]))"
    using assms(2-) by (simp add: qihse_btree_insert_def page_def ins_leaf_def Let_def leaf_insert_at_def
        lower_bound_end key_at_def LEAF_ENTRY_SIZE_def)
qed

lemma big_tree_reach: "bt_reach big_tree"
proof -
  note limits = big_key_def data_capacity_def QIHSE_BTREE_PAGE_SIZE_def QIHSE_BTREE_MAX_KEY_LEN_def
  have "bt_reach (page [])"
    by (rule bt_reach.created [of ok_env 128]) (simp add: page_def qihse_btree_create_def node_alloc_leaf_def ok_env_def)
  from page_append [OF this, of "[1]" 1] have "bt_reach (page [([1], 1)])" by (simp add: limits)
  from page_append [OF this, of "[2]" 2] have "bt_reach (page [([1], 1), ([2], 2)])" by (simp add: limits)
  from page_append [OF this, of "[3]" 3] have "bt_reach (page [([1], 1), ([2], 2), ([3], 3)])"
    by (simp add: limits)
  from page_append [OF this, of "big_key 4" 4]
  have "bt_reach (page [([1], 1), ([2], 2), ([3], 3), (big_key 4, 4)])" by (simp add: limits)
  from page_append [OF this, of "big_key 5" 5]
  have "bt_reach (page [([1], 1), ([2], 2), ([3], 3), (big_key 4, 4), (big_key 5, 5)])" by (simp add: limits)
  from page_append [OF this, of "big_key 6" 6] show ?thesis by (simp add: limits page_def big_tree_def)
qed

lemma big_insert:
  "qihse_btree_insert ok_env big_tree (Some (big_key 7)) 7 = Some (False, big_tree\<lparr>bt_count := 7\<rparr>)"
proof -
  define es :: "bt_entry list" where
    "es = [([1], 1), ([2], 2), ([3], 3), (big_key 4, 4), (big_key 5, 5), (big_key 6, 6)]"
  have "leaf_lower_bound es (big_key 7) = 6"
    by (subst lower_bound_end) (simp_all add: es_def big_key_def)
  then have "ins_leaf ok_env 128 (big_key 7) 7 es 3171 = InsFail (BLeaf es 3171) True"
    by (simp add: ins_leaf_def Let_def leaf_insert_at_def key_at_def leaf_split_def es_def big_key_def
        data_capacity_def QIHSE_BTREE_PAGE_SIZE_def LEAF_ENTRY_SIZE_def node_alloc_leaf_def ok_env_def)
  then show ?thesis
    by (simp add: qihse_btree_insert_def big_tree_def es_def [symmetric] QIHSE_BTREE_MAX_KEY_LEN_def)
      (simp add: big_key_def)
qed

subsection \<open>Properties\<close>

text \<open>
  C20: Every tree with a fanout of at most 65534 that is created, loaded from any file, or obtained
  by inserts and deletes while allocations succeed is well formed: each leaf's \<open>data_size\<close> is the number of
  bytes of its entries and fits the page, each leaf has at most fanout entries, each internal node has at
  most fanout keys and one more child, both arrays as allocated have a slot to spare and one
  more key does not wrap the \<open>uint16_t\<close> count, and the entries from left to right are
  strictly sorted by key. So the next insert writes inside the arrays: it has a result.
  (A larger fanout lets the count wrap, and from 4294967294 on the lengths of the arrays wrap too.)
\<close>
theorem btree_pages_fit:
  assumes "bt_reach t" "bt_fanout t \<le> 65534"
  shows "nodes_fit (bt_fanout t) (bt_root t) \<and> ordered (bt_view t) \<and>
    (\<exists>ok t'. qihse_btree_insert ok_env t key row = Some (ok, t'))"
proof -
  have inv: "btree_inv t" by (rule bt_reach_inv [OF assms(1)])
  then have tree: "0 < unat (bt_fanout t)" "tree_inv (unat (bt_fanout t)) None None (bt_root t)"
    by (simp_all add: btree_inv_def)
  have f: "unat (bt_fanout t) \<le> FANOUT_MAX" using assms(2) by (simp add: FANOUT_MAX_def word_le_nat_alt)
  from inv_fit(1) [OF tree(1) f refl tree(2)] view_ordered [OF inv] insert_defined [OF inv f]
  show ?thesis by blast
qed

theorem btree_pages_fit_witness:
  "\<exists>t t'. qihse_btree_create ok_env 2 = Some t \<and> nodes_fit 2 (bt_root t) \<and> ordered (bt_view t) \<and>
     qihse_btree_insert ok_env t (Some [1]) 10 = Some (True, t')"
proof -
  let ?t = "\<lparr>bt_root = BLeaf [] 0, bt_fanout = 2, bt_count = 0, bt_orphans = []\<rparr>"
  have "nodes_fit 2 (bt_root ?t) \<and> ordered (bt_view ?t) \<and>
      (\<exists>ok t'. qihse_btree_insert ok_env ?t (Some [1]) 10 = Some (ok, t'))"
    using btree_pages_fit [OF bt_reach.created [OF demo_created], of "Some [1]" 10] by simp
  moreover have "qihse_btree_insert ok_env ?t (Some [1]) 10 = Some (True, bt_put [1] 10 ?t)"
    using put_facts(1) [OF created_ok(1) [OF demo_created]] by simp
  ultimately show ?thesis using demo_created by blast
qed

text \<open>
  On a well-formed tree of bounded fanout and with memory available, insert of a key of at most 1024 bytes returns
  a well-formed tree. If it returns true, the entries are those of the sorted list with the key inserted or its
  row replaced; if it returns false, they are unchanged. Every lookup afterwards agrees.
\<close>
lemma insert_any_key_refines:
  assumes "bt_env_ok env" "btree_inv t" "length k \<le> QIHSE_BTREE_MAX_KEY_LEN" "unat (bt_fanout t) \<le> FANOUT_MAX"
  shows "\<exists>ok t'. qihse_btree_insert env t (Some k) r = Some (ok, t') \<and> btree_inv t' \<and>
    bt_view t' = (if ok then ins_list k r (bt_view t) else bt_view t) \<and>
    (\<forall>k'. qihse_btree_lookup t' (Some k') = (if ok \<and> k' = k then Some r else qihse_btree_lookup t (Some k')))"
proof -
  obtain ok t' where ins: "qihse_btree_insert env t (Some k) r = Some (ok, t')" "btree_inv t'"
    "bt_view t' = (if ok then ins_list k r (bt_view t) else bt_view t)"
    using insert_refines [OF assms] .
  then have "qihse_btree_lookup t' (Some k') = (if ok \<and> k' = k then Some r else qihse_btree_lookup t (Some k'))"
    for k' by (simp add: lookup_view assms(2) map_of_ins_list view_ordered)
  with ins show ?thesis by blast
qed

text \<open>
  C13: With keys of at most 236 bytes, a fanout of at most 65534 (0 selects 128) and allocations that
  succeed, a new tree implements a finite map: after any sequence of inserts and deletes each lookup returns
  what the map holds, the size is the number of keys of the map, and the next insert returns true.
\<close>
theorem btree_run_map:
  assumes "qihse_btree_create ok_env fanout = Some t" "fanout \<le> 65534" "\<forall>op \<in> set ops. op_short op"
  shows "qihse_btree_lookup (fold bt_step ops t) (Some k) = fold map_step ops Map.empty k \<and>
    qihse_btree_size (fold bt_step ops t) = of_nat (card (dom (fold map_step ops Map.empty))) \<and>
    (length k \<le> 236 \<longrightarrow> (\<exists>t'. qihse_btree_insert ok_env (fold bt_step ops t) (Some k) row = Some (True, t')))"
proof -
  have t: "index_ok t" "bt_view t = []" by (rule created_ok [OF assms(1,2)])+
  with run_refines [OF t(1) assms(3)] put_facts(1) [of "fold bt_step ops t" k row] show ?thesis
    by (simp add: lookup_view index_okD(1) size_view)
qed

theorem btree_run_map_witness:
  "qihse_btree_lookup demo_tree (Some [3, 1]) = Some 31 \<and> qihse_btree_lookup demo_tree (Some [2]) = None \<and>
   qihse_btree_size demo_tree = 4 \<and> (\<exists>t'. qihse_btree_insert ok_env demo_tree (Some [2]) 7 = Some (True, t'))"
proof -
  have fanout: "(2 :: u32) \<le> 65534" by simp
  have short: "\<forall>op \<in> set demo_ops. op_short op" by (simp add: demo_ops_def)
  have dom: "dom (fold map_step demo_ops Map.empty) = {[1], [3, 1], [3], [4]}"
    by (auto simp: demo_ops_def)
  show ?thesis
    using btree_run_map [OF demo_created fanout short, of "[3, 1]"]
      btree_run_map [OF demo_created fanout short, of "[2]" 7]
    unfolding demo_tree_def dom by (simp add: demo_ops_def)
qed

text \<open>
  C14: A cursor that is opened on a range or on a prefix and advanced to the end returns, in key
  order, exactly the entries between the bounds (an absent or empty bound being open) or with the prefix; opening
  returns no cursor when there are none. No more steps are needed than the tree has entries. The tree is
  well formed, as every tree that is reached while allocations succeed.
\<close>
theorem btree_scan_exact:
  assumes "btree_inv t" "length (bt_view t) \<le> n" "p \<noteq> []"
  shows "scan_cursor n (qihse_btree_range_open True t lo hi) =
      filter (\<lambda>e. ge_lo (bound_of lo) (fst e) \<and> le_hi (bound_of hi) (fst e)) (bt_view t) \<and>
    scan_cursor n (qihse_btree_prefix_open True t (Some p)) =
      filter (\<lambda>e. take (length p) (fst e) = p) (bt_view t)"
  using range_scan [OF assms(1,2)] prefix_scan [OF assms] by blast

theorem btree_scan_exact_witness:
  "scan_cursor 4 (qihse_btree_range_open True demo_tree (Some [2]) (Some [3])) = [([3], 30)] \<and>
   scan_cursor 4 (qihse_btree_prefix_open True demo_tree (Some [3])) = [([3], 30), ([3, 1], 31)]"
  using btree_scan_exact [OF index_okD(1) [OF demo_facts(1)], of 4 "[3]" "Some [2]" "Some [3]"]
  by (simp add: demo_view bound_of_def)

text \<open>
  C21: Serializing composite keys preserves their order: for columns of the same supported types, with
  no zero byte in strings, the serialized keys compare as the columns do, the first differing column deciding.
\<close>
theorem btree_key_order:
  assumes "list_all2 same_type cs ds"
  shows "\<exists>a b. qihse_btree_serialize_key_alloc True (Some cs) = (0, Some a) \<and>
    qihse_btree_serialize_key_alloc True (Some ds) = (0, Some b) \<and> (key_cmp a b < 0 \<longleftrightarrow> cols_less cs ds)"
  using same_type_supported [OF assms] key_bytes_less [OF assms] by (simp add: serialize_alloc_ok)

theorem btree_key_order_witness:
  "\<exists>a b. qihse_btree_serialize_key_alloc True (Some [ColString [0x61], ColInt32 (- 5)]) = (0, Some a) \<and>
    qihse_btree_serialize_key_alloc True (Some [ColString [0x61], ColInt32 3]) = (0, Some b) \<and>
    key_cmp a b < 0"
proof -
  have "sint (- 5 :: u32) < sint (3 :: u32)" by simp
  then show ?thesis
    using btree_key_order [of "[ColString [0x61], ColInt32 (- 5)]" "[ColString [0x61], ColInt32 3]"] by simp
qed

text \<open>
  C22: Saving a tree and loading the file gives a tree with the same entries in the same order, the
  same fanout and the right size. The tree is well formed with an exact count, its keys have at most 236
  bytes and its fanout is at most 65534, as for every tree built from such keys; the disk takes
  the whole file and allocations succeed.
\<close>
theorem btree_save_load:
  assumes "index_ok t" "length (bt_view t) < 2 ^ 64"
  shows "\<exists>file t'. qihse_btree_save True None t = (0, Some file) \<and>
    qihse_btree_load ok_env (\<lambda>_. ok_env) (\<lambda>_. True) (Some file) = Some (Some t') \<and> index_ok t' \<and>
    bt_view t' = bt_view t \<and> bt_fanout t' = bt_fanout t"
  by (rule save_load [OF assms])

theorem btree_save_load_witness:
  "\<exists>file t'. qihse_btree_save True None demo_tree = (0, Some file) \<and>
    qihse_btree_load ok_env (\<lambda>_. ok_env) (\<lambda>_. True) (Some file) = Some (Some t') \<and> index_ok t' \<and>
    bt_view t' = bt_view demo_tree \<and> bt_fanout t' = bt_fanout demo_tree"
  by (rule btree_save_load) (simp_all add: demo_facts(1) demo_view)

text \<open>
  When the disk takes only part of the file, save reports success all the same, and loading
  what is there never yields a tree.
\<close>
lemma cut_file_rejected:
  assumes "index_ok t" "length (bt_view t) < 2 ^ 64" "m < length (save_stream t)"
  shows "\<exists>file. qihse_btree_save True (Some m) t = (0, Some file) \<and> length file = m \<and>
    qihse_btree_load ok_env (\<lambda>_. ok_env) (\<lambda>_. True) (Some file) = Some None"
  using load_cut [OF assms] save_result [OF assms(1)] assms(3) by simp

text \<open>
  C39: Inserting a key of the permitted length can fail with memory available: when the upper half of
  a full page, by number of entries, does not fit a page, insert returns false and the key is absent, but
  the count has grown, so the size is wrong and a later save returns an error.
\<close>
theorem btree_large_key_rejected:
  "\<exists>t k t'. bt_reach t \<and> counted t \<and> length k = QIHSE_BTREE_MAX_KEY_LEN \<and>
    qihse_btree_insert ok_env t (Some k) 7 = Some (False, t') \<and> qihse_btree_lookup t' (Some k) = None \<and>
    qihse_btree_size t' = qihse_btree_size t + 1 \<and> fst (qihse_btree_save True None t') = -1"
proof (intro exI conjI)
  show "qihse_btree_insert ok_env big_tree (Some (big_key 7)) 7 = Some (False, big_tree\<lparr>bt_count := 7\<rparr>)"
    by (rule big_insert)
  show "length (big_key 7) = QIHSE_BTREE_MAX_KEY_LEN"
    by (simp add: big_key_def QIHSE_BTREE_MAX_KEY_LEN_def)
  have inv: "btree_inv (big_tree\<lparr>bt_count := 7\<rparr>)" using big_tree_ok(1) by (simp add: btree_inv_def)
  show "qihse_btree_lookup (big_tree\<lparr>bt_count := 7\<rparr>) (Some (big_key 7)) = None"
    by (simp add: lookup_view [OF inv]) (simp add: big_tree_def bt_view_def big_key_def)
qed (simp_all add: big_tree_ok big_tree_reach, simp_all add: big_tree_def qihse_btree_size_def qihse_btree_save_def Let_def)

end
