(* ===== verification/HashIndex.thy ===== *)
theory HashIndex
  imports Bytes
begin

section \<open>The hash index\<close>

text \<open>
  Model of \<^verbatim>\<open>src/frieze/qihse_hash_index.c\<close>: open addressing with linear probing,
  tombstones and resizing.

  Conventions. The table is the list of its slots, whose length is the capacity; \<open>count\<close> and
  \<open>tombstones\<close> are 64-bit words. The probe loops have no bound in the code, so they are partial functions
  and \<open>None\<close> is a call that does not return (or an \<open>int64\<close> key with fewer than eight bytes). The hash
  is a parameter, because its body depends on the instruction set the file is compiled for;
  \<open>fnv_hash\<close> is the portable body. Whether the allocation of a table succeeds is the argument \<open>ok\<close>; the product of
  capacity and slot size is taken not to overflow. The load factor is a quotient by a power
  of two and is compared with 0.7 without rounding. The lock, or the hardware transaction that replaces
  it and runs the same code, makes each call atomic.
\<close>

datatype hash_key_type = QIHSE_HASH_KEY_INT64 | QIHSE_HASH_KEY_STRING

datatype hash_slot = SLOT_EMPTY | SLOT_OCCUPIED bytes u64 | SLOT_TOMBSTONE

record hash_index =
  hx_type :: hash_key_type
  hx_table :: "hash_slot list"
  hx_count :: u64
  hx_tombstones :: u64

type_synonym hash_fun = "bytes \<Rightarrow> u64"

subsection \<open>Hashing\<close>

definition fnv_hash :: hash_fun where
  "fnv_hash bs = foldl (\<lambda>h b. (h XOR ucast b) * 1099511628211) 1469598103934665603 bs"

definition slot_key_match :: "bytes \<Rightarrow> bytes \<Rightarrow> bool" where
  "slot_key_match k key \<longleftrightarrow> length k = length key \<and> k = key"

definition home_slot :: "hash_fun \<Rightarrow> nat \<Rightarrow> bytes \<Rightarrow> nat" where
  "home_slot hash capacity key = unat (hash key) AND (capacity - 1)"

definition next_slot :: "nat \<Rightarrow> nat \<Rightarrow> nat" where
  "next_slot capacity i = (i + 1) AND (capacity - 1)"

subsection \<open>Table management\<close>

definition next_pow2 :: "u64 \<Rightarrow> u64" where
  "next_pow2 v =
     (if v < 16 then 16
      else
        let r = v - 1;
            r = r OR drop_bit 1 r; r = r OR drop_bit 2 r; r = r OR drop_bit 4 r;
            r = r OR drop_bit 8 r; r = r OR drop_bit 16 r; r = r OR drop_bit 32 r
        in r + 1)"

definition table_init :: "hash_index \<Rightarrow> nat \<Rightarrow> hash_index" where
  "table_init idx capacity =
     idx\<lparr>hx_table := replicate capacity SLOT_EMPTY, hx_count := 0, hx_tombstones := 0\<rparr>"

partial_function (option) rehash_slot ::
    "hash_slot list \<Rightarrow> bytes \<Rightarrow> u64 \<Rightarrow> nat \<Rightarrow> hash_slot list option" where
  [code]: "rehash_slot tbl key row j =
     (case tbl ! j of
        SLOT_EMPTY \<Rightarrow> Some (tbl[j := SLOT_OCCUPIED key row])
      | _ \<Rightarrow> rehash_slot tbl key row (next_slot (length tbl) j))"

fun rehash :: "hash_fun \<Rightarrow> hash_slot list \<Rightarrow> hash_index \<Rightarrow> hash_index option" where
  "rehash hash [] idx = Some idx"
| "rehash hash (SLOT_OCCUPIED key row # ss) idx =
     (case rehash_slot (hx_table idx) key row (home_slot hash (length (hx_table idx)) key) of
        None \<Rightarrow> None
      | Some tbl \<Rightarrow> rehash hash ss (idx\<lparr>hx_table := tbl, hx_count := hx_count idx + 1\<rparr>))"
| "rehash hash (_ # ss) idx = rehash hash ss idx"

definition table_resize :: "hash_fun \<Rightarrow> bool \<Rightarrow> hash_index \<Rightarrow> nat \<Rightarrow> (bool \<times> hash_index) option" where
  "table_resize hash ok idx new_cap =
     (let idx1 = table_init idx new_cap in
      if \<not> ok then Some (False, idx1\<lparr>hx_table := hx_table idx\<rparr>)
      else (case rehash hash (hx_table idx) idx1 of None \<Rightarrow> None | Some idx2 \<Rightarrow> Some (True, idx2)))"

definition qihse_hash_index_create :: "bool \<Rightarrow> bool \<Rightarrow> hash_key_type \<Rightarrow> u64 \<Rightarrow> hash_index option" where
  "qihse_hash_index_create ok_idx ok key_type initial_capacity =
     (if \<not> ok_idx then None
      else
        let cap = (if initial_capacity \<noteq> 0 then next_pow2 initial_capacity else 1024) in
        if \<not> ok then None
        else Some (table_init \<lparr>hx_type = key_type, hx_table = [], hx_count = 0, hx_tombstones = 0\<rparr> (unat cap)))"

subsection \<open>Insert\<close>

partial_function (option) insert_probe ::
    "hash_slot list \<Rightarrow> bytes \<Rightarrow> u64 \<Rightarrow> nat \<Rightarrow> nat option \<Rightarrow> (hash_slot list \<times> bool \<times> bool) option" where
  [code]: "insert_probe tbl key row i first_tomb =
     (case tbl ! i of
        SLOT_EMPTY \<Rightarrow>
          Some (tbl[(case first_tomb of None \<Rightarrow> i | Some t \<Rightarrow> t) := SLOT_OCCUPIED key row], True, first_tomb \<noteq> None)
      | SLOT_TOMBSTONE \<Rightarrow>
          insert_probe tbl key row (next_slot (length tbl) i)
            (case first_tomb of None \<Rightarrow> Some i | Some t \<Rightarrow> Some t)
      | SLOT_OCCUPIED k r \<Rightarrow>
          if slot_key_match k key then Some (tbl[i := SLOT_OCCUPIED k row], False, False)
          else insert_probe tbl key row (next_slot (length tbl) i) first_tomb)"

definition hash_insert_internal :: "hash_index \<Rightarrow> bytes \<Rightarrow> u64 \<Rightarrow> nat \<Rightarrow> (bool \<times> hash_index) option" where
  "hash_insert_internal idx key row i =
     (case insert_probe (hx_table idx) key row i None of
        None \<Rightarrow> None
      | Some (tbl, added, reused) \<Rightarrow>
          Some (True, idx\<lparr>hx_table := tbl, hx_count := (if added then hx_count idx + 1 else hx_count idx),
                          hx_tombstones := (if reused then hx_tombstones idx - 1 else hx_tombstones idx)\<rparr>))"

definition load_exceeded :: "hash_index \<Rightarrow> bool" where
  "load_exceeded idx \<longleftrightarrow>
     10 * unat (hx_count idx + hx_tombstones idx + 1) > 7 * length (hx_table idx)"

definition fixed_key :: "hash_key_type \<Rightarrow> bytes \<Rightarrow> bytes option" where
  "fixed_key key_type key =
     (case key_type of
        QIHSE_HASH_KEY_INT64 \<Rightarrow> if length key < 8 then None else Some (take 8 key)
      | QIHSE_HASH_KEY_STRING \<Rightarrow> Some key)"

definition qihse_hash_index_insert ::
    "hash_fun \<Rightarrow> bool \<Rightarrow> hash_index \<Rightarrow> bytes option \<Rightarrow> u64 \<Rightarrow> (bool \<times> hash_index) option" where
  "qihse_hash_index_insert hash ok idx key row =
     (case key of
        None \<Rightarrow> Some (False, idx)
      | Some k0 \<Rightarrow>
          (case fixed_key (hx_type idx) k0 of
             None \<Rightarrow> None
           | Some k \<Rightarrow>
               if hx_type idx = QIHSE_HASH_KEY_STRING \<and> length k > 255 then Some (False, idx)
               else
                 (case (if load_exceeded idx then table_resize hash ok idx (length (hx_table idx) * 2)
                        else Some (True, idx)) of
                    None \<Rightarrow> None
                  | Some (False, idx1) \<Rightarrow> Some (False, idx1)
                  | Some (True, idx1) \<Rightarrow>
                      hash_insert_internal idx1 k row (home_slot hash (length (hx_table idx1)) k))))"

subsection \<open>Lookup and delete\<close>

partial_function (option) find_slot :: "hash_slot list \<Rightarrow> bytes \<Rightarrow> nat \<Rightarrow> nat option option" where
  [code]: "find_slot tbl key i =
     (case tbl ! i of
        SLOT_EMPTY \<Rightarrow> Some None
      | SLOT_TOMBSTONE \<Rightarrow> find_slot tbl key (next_slot (length tbl) i)
      | SLOT_OCCUPIED k r \<Rightarrow>
          if slot_key_match k key then Some (Some i) else find_slot tbl key (next_slot (length tbl) i))"

definition slot_row :: "hash_slot \<Rightarrow> u64" where
  "slot_row s = (case s of SLOT_OCCUPIED k r \<Rightarrow> r | _ \<Rightarrow> 0)"

definition qihse_hash_index_lookup :: "hash_fun \<Rightarrow> hash_index \<Rightarrow> bytes option \<Rightarrow> u64 option option" where
  "qihse_hash_index_lookup hash idx key =
     (case key of
        None \<Rightarrow> Some None
      | Some k0 \<Rightarrow>
          (case fixed_key (hx_type idx) k0 of
             None \<Rightarrow> None
           | Some k \<Rightarrow>
               map_option (map_option (\<lambda>i. slot_row (hx_table idx ! i)))
                 (find_slot (hx_table idx) k (home_slot hash (length (hx_table idx)) k))))"

definition qihse_hash_index_delete ::
    "hash_fun \<Rightarrow> bool \<Rightarrow> hash_index \<Rightarrow> bytes option \<Rightarrow> (u64 option \<times> hash_index) option" where
  "qihse_hash_index_delete hash ok idx key =
     (case key of
        None \<Rightarrow> Some (None, idx)
      | Some k0 \<Rightarrow>
          (case fixed_key (hx_type idx) k0 of
             None \<Rightarrow> None
           | Some k \<Rightarrow>
               (case find_slot (hx_table idx) k (home_slot hash (length (hx_table idx)) k) of
                  None \<Rightarrow> None
                | Some None \<Rightarrow> Some (None, idx)
                | Some (Some i) \<Rightarrow>
                    let idx1 = idx\<lparr>hx_table := (hx_table idx)[i := SLOT_TOMBSTONE],
                                   hx_count := hx_count idx - 1, hx_tombstones := hx_tombstones idx + 1\<rparr>
                    in
                      if unat (hx_tombstones idx1) > length (hx_table idx1) div 4
                      then (case table_resize hash ok idx1 (length (hx_table idx1)) of
                              None \<Rightarrow> None
                            | Some (_, idx2) \<Rightarrow> Some (Some (slot_row (hx_table idx ! i)), idx2))
                      else Some (Some (slot_row (hx_table idx ! i)), idx1))))"

definition qihse_hash_index_size :: "hash_index \<Rightarrow> u64" where
  "qihse_hash_index_size idx = hx_count idx"

end
