(* ===== verification/HashProbe.thy ===== *)
theory HashProbe
  imports HashIndex
begin

section \<open>Probe sequences and single-slot updates\<close>

text \<open>
  The slots a probe visits from a start (\<open>walk\<close>), the three probe loops along them, the table
  invariant \<open>tbl_inv\<close> (no empty slot between the home slot of a key and the slot that holds it), the
  map \<open>tbl_map\<close> a table stands for, and the effect of writing one slot.
\<close>

subsection \<open>Walking the table\<close>

lemma and_mask_mod: "x AND (2 ^ n - Suc 0) = x mod 2 ^ n" for x :: nat
  by (metis One_nat_def take_bit_eq_mask take_bit_eq_mod mask_eq_exp_minus_1)

definition pow2_table :: "hash_slot list \<Rightarrow> bool" where
  "pow2_table tbl \<longleftrightarrow> (\<exists>n. length tbl = 2 ^ n)"

lemma pow2_pos: "pow2_table tbl \<Longrightarrow> 0 < length tbl"
  by (auto simp: pow2_table_def)

lemma next_slot_mod: "pow2_table tbl \<Longrightarrow> next_slot (length tbl) i = (i + 1) mod length tbl"
  by (auto simp: pow2_table_def next_slot_def and_mask_mod)

lemma home_slot_mod: "pow2_table tbl \<Longrightarrow> home_slot hash (length tbl) k = unat (hash k) mod length tbl"
  by (auto simp: pow2_table_def home_slot_def and_mask_mod)

lemma home_slot_less: "pow2_table tbl \<Longrightarrow> home_slot hash (length tbl) k < length tbl"
  unfolding home_slot_mod by (rule mod_less_divisor [OF pow2_pos])

definition walk :: "hash_slot list \<Rightarrow> nat \<Rightarrow> nat \<Rightarrow> nat" where
  "walk tbl h d = (h + d) mod length tbl"

lemma walk_less: "pow2_table tbl \<Longrightarrow> walk tbl h d < length tbl"
  unfolding walk_def by (rule mod_less_divisor [OF pow2_pos])

lemma walk_0: "h < length tbl \<Longrightarrow> walk tbl h 0 = h"
  by (simp add: walk_def)

lemma walk_Suc: "pow2_table tbl \<Longrightarrow> next_slot (length tbl) (walk tbl h d) = walk tbl h (Suc d)"
  by (simp add: walk_def next_slot_mod mod_Suc_eq)

lemma walk_onto: "h < length tbl \<Longrightarrow> j < length tbl \<Longrightarrow> \<exists>d. walk tbl h d = j"
proof
  assume "h < length tbl" "j < length tbl"
  then show "walk tbl h (length tbl - h + j) = j" by (simp add: walk_def)
qed

lemma walk_update [simp]: "walk (tbl[i := s]) = walk tbl"
  by (simp add: walk_def fun_eq_iff)

definition holds_key :: "hash_slot \<Rightarrow> bytes \<Rightarrow> bool" where
  "holds_key s key \<longleftrightarrow> (\<exists>r. s = SLOT_OCCUPIED key r)"

definition stops :: "hash_slot \<Rightarrow> bytes \<Rightarrow> bool" where
  "stops s key \<longleftrightarrow> s = SLOT_EMPTY \<or> holds_key s key"

lemma find_slot_walk:
  "pow2_table tbl \<Longrightarrow> h < length tbl \<Longrightarrow> \<forall>d' < d. \<not> stops (tbl ! walk tbl h d') key \<Longrightarrow>
   find_slot tbl key h = find_slot tbl key (walk tbl h d)"
proof (induction d)
  case (Suc d)
  have "\<not> stops (tbl ! walk tbl h d) key" using Suc.prems(3) by blast
  then have "find_slot tbl key (walk tbl h d) = find_slot tbl key (walk tbl h (Suc d))"
    using walk_Suc [OF Suc.prems(1), of h d]
    by (subst find_slot.simps)
      (auto simp: stops_def holds_key_def slot_key_match_def split: hash_slot.splits)
  with Suc show ?case by simp
qed (simp add: walk_0)

lemma insert_probe_walk:
  "pow2_table tbl \<Longrightarrow> h < length tbl \<Longrightarrow> \<forall>d' < d. \<not> stops (tbl ! walk tbl h d') key \<Longrightarrow>
   \<exists>ft. insert_probe tbl key row h None = insert_probe tbl key row (walk tbl h d) ft \<and>
     (\<forall>t. ft = Some t \<longrightarrow> (\<exists>e < d. t = walk tbl h e \<and> tbl ! t = SLOT_TOMBSTONE))"
proof (induction d)
  case 0
  then show ?case by (auto simp: walk_0)
next
  case (Suc d)
  then obtain ft where ft: "insert_probe tbl key row h None = insert_probe tbl key row (walk tbl h d) ft"
    "\<forall>t. ft = Some t \<longrightarrow> (\<exists>e < d. t = walk tbl h e \<and> tbl ! t = SLOT_TOMBSTONE)" by auto
  have stop: "\<not> stops (tbl ! walk tbl h d) key" using Suc.prems(3) by blast
  define ft' where "ft' = (if tbl ! walk tbl h d = SLOT_TOMBSTONE \<and> ft = None then Some (walk tbl h d) else ft)"
  have "insert_probe tbl key row (walk tbl h d) ft = insert_probe tbl key row (walk tbl h (Suc d)) ft'"
    using walk_Suc [OF Suc.prems(1), of h d] stop
    by (subst insert_probe.simps)
      (auto simp: stops_def holds_key_def slot_key_match_def ft'_def split: hash_slot.splits option.splits)
  moreover have "\<forall>t. ft' = Some t \<longrightarrow> (\<exists>e < Suc d. t = walk tbl h e \<and> tbl ! t = SLOT_TOMBSTONE)"
    using ft(2) by (auto simp: ft'_def intro: less_SucI)
  ultimately show ?case using ft(1) by auto
qed

lemma rehash_slot_walk:
  "pow2_table tbl \<Longrightarrow> h < length tbl \<Longrightarrow> \<forall>d' < d. tbl ! walk tbl h d' \<noteq> SLOT_EMPTY \<Longrightarrow>
   rehash_slot tbl key row h = rehash_slot tbl key row (walk tbl h d)"
proof (induction d)
  case (Suc d)
  have "tbl ! walk tbl h d \<noteq> SLOT_EMPTY" using Suc.prems(3) by blast
  then have "rehash_slot tbl key row (walk tbl h d) = rehash_slot tbl key row (walk tbl h (Suc d))"
    using walk_Suc [OF Suc.prems(1), of h d]
    by (subst rehash_slot.simps) (auto split: hash_slot.splits)
  with Suc show ?case by simp
qed (simp add: walk_0)

lemma first_stop:
  assumes "h < length tbl" "j < length tbl" "P (tbl ! j)"
  obtains d where "P (tbl ! walk tbl h d)" "\<forall>d' < d. \<not> P (tbl ! walk tbl h d')"
proof -
  obtain d where "walk tbl h d = j" using walk_onto assms by blast
  with assms(3) have "\<exists>d. P (tbl ! walk tbl h d)" by metis
  from exists_least_iff [THEN iffD1, OF this] that show thesis by blast
qed

subsection \<open>The table invariant\<close>

primrec hx_entries :: "hash_slot list \<Rightarrow> (bytes \<times> u64) list" where
  "hx_entries [] = []"
| "hx_entries (s # ss) = (case s of SLOT_OCCUPIED k r \<Rightarrow> [(k, r)] | _ \<Rightarrow> []) @ hx_entries ss"

definition tbl_map :: "hash_slot list \<Rightarrow> (bytes \<rightharpoonup> u64)" where
  "tbl_map tbl = map_of (hx_entries tbl)"

definition tombs :: "hash_slot list \<Rightarrow> nat" where
  "tombs tbl = length (filter (\<lambda>s. s = SLOT_TOMBSTONE) tbl)"

definition tbl_inv :: "hash_fun \<Rightarrow> hash_slot list \<Rightarrow> bool" where
  "tbl_inv hash tbl \<longleftrightarrow> pow2_table tbl \<and> distinct (map fst (hx_entries tbl)) \<and>
     (\<forall>j < length tbl. \<forall>k r. tbl ! j = SLOT_OCCUPIED k r \<longrightarrow>
        (\<exists>d. j = walk tbl (home_slot hash (length tbl) k) d \<and>
           (\<forall>d' < d. tbl ! walk tbl (home_slot hash (length tbl) k) d' \<noteq> SLOT_EMPTY)))"

lemma tbl_invD:
  assumes "tbl_inv hash tbl"
  shows "pow2_table tbl" "distinct (map fst (hx_entries tbl))"
    "\<And>j k r. j < length tbl \<Longrightarrow> tbl ! j = SLOT_OCCUPIED k r \<Longrightarrow>
       \<exists>d. j = walk tbl (home_slot hash (length tbl) k) d \<and>
         (\<forall>d' < d. tbl ! walk tbl (home_slot hash (length tbl) k) d' \<noteq> SLOT_EMPTY)"
  using assms by (simp_all add: tbl_inv_def)

lemma hx_entries_append [simp]: "hx_entries (xs @ ys) = hx_entries xs @ hx_entries ys"
  by (induction xs) simp_all

lemma entries_mem: "(k, r) \<in> set (hx_entries tbl) \<longleftrightarrow> SLOT_OCCUPIED k r \<in> set tbl"
  by (induction tbl) (auto split: hash_slot.splits)

lemma split_table:
  assumes "i < length tbl"
  obtains xs ys where "tbl = xs @ tbl ! i # ys" "\<And>s. tbl[i := s] = xs @ s # ys" "length xs = i"
  using assms that [of "take i tbl" "drop (Suc i) tbl"]
  by (simp add: id_take_nth_drop [symmetric] upd_conv_take_nth_drop)

lemma table_count: "length tbl = length (hx_entries tbl) + tombs tbl + length (filter (\<lambda>s. s = SLOT_EMPTY) tbl)"
  by (induction tbl) (auto simp: tombs_def split: hash_slot.splits)

lemma has_empty:
  assumes "length (hx_entries tbl) + tombs tbl < length tbl"
  obtains j where "j < length tbl" "tbl ! j = SLOT_EMPTY"
proof -
  have "filter (\<lambda>s. s = SLOT_EMPTY) tbl \<noteq> []" using assms table_count [of tbl] by auto
  then show thesis using that by (auto simp: filter_empty_conv in_set_conv_nth)
qed

lemma tbl_map_iff:
  assumes "tbl_inv hash tbl"
  shows "tbl_map tbl k = Some r \<longleftrightarrow> (\<exists>j < length tbl. tbl ! j = SLOT_OCCUPIED k r)"
proof -
  have "tbl_map tbl k = Some r \<longleftrightarrow> SLOT_OCCUPIED k r \<in> set tbl"
    using tbl_invD(2) [OF assms] by (simp add: tbl_map_def entries_mem)
  then show ?thesis by (simp add: in_set_conv_nth)
qed

lemma absent_of_empty:
  assumes inv: "tbl_inv hash tbl" and h: "h = home_slot hash (length tbl) k"
    and stop: "tbl ! walk tbl h d = SLOT_EMPTY" "\<forall>d' < d. \<not> stops (tbl ! walk tbl h d') k"
  shows "tbl_map tbl k = None"
proof (rule ccontr)
  assume "tbl_map tbl k \<noteq> None"
  then obtain r j where j: "j < length tbl" "tbl ! j = SLOT_OCCUPIED k r"
    using tbl_map_iff [OF inv] by blast
  obtain e where e: "j = walk tbl h e" "\<forall>d' < e. tbl ! walk tbl h d' \<noteq> SLOT_EMPTY"
    using tbl_invD(3) [OF inv j] h by blast
  show False
  proof (cases "e < d")
    case True
    with stop(2) e(1) j(2) show False by (auto simp: stops_def holds_key_def)
  next
    case False
    with stop(1) e j(2) show False by (cases "d = e") auto
  qed
qed

lemma find_slot_spec:
  assumes inv: "tbl_inv hash tbl" and empty: "j < length tbl" "tbl ! j = SLOT_EMPTY"
  obtains (absent) "find_slot tbl k (home_slot hash (length tbl) k) = Some None" "tbl_map tbl k = None"
    | (found) i r where "find_slot tbl k (home_slot hash (length tbl) k) = Some (Some i)" "i < length tbl"
        "tbl ! i = SLOT_OCCUPIED k r" "tbl_map tbl k = Some r"
proof -
  note p2 = tbl_invD(1) [OF inv]
  define h where "h = home_slot hash (length tbl) k"
  have h: "h < length tbl" unfolding h_def by (rule home_slot_less [OF p2])
  obtain d where d: "stops (tbl ! walk tbl h d) k" "\<forall>d' < d. \<not> stops (tbl ! walk tbl h d') k"
    using first_stop [OF h empty(1), of "\<lambda>s. stops s k"] empty(2) by (auto simp: stops_def)
  note walk = find_slot_walk [OF p2 h d(2)]
  from d(1) consider "tbl ! walk tbl h d = SLOT_EMPTY" | r where "tbl ! walk tbl h d = SLOT_OCCUPIED k r"
    by (auto simp: stops_def holds_key_def)
  then show thesis
  proof cases
    case 1
    have "find_slot tbl k (walk tbl h d) = Some None" by (subst find_slot.simps) (simp add: 1)
    with walk absent absent_of_empty [OF inv h_def 1 d(2)] show thesis by (simp add: h_def)
  next
    case 2
    have "find_slot tbl k (walk tbl h d) = Some (Some (walk tbl h d))"
      by (subst find_slot.simps) (simp add: 2 slot_key_match_def)
    moreover have "tbl_map tbl k = Some r" using tbl_map_iff [OF inv] 2 walk_less [OF p2] by blast
    ultimately show thesis using walk found [OF _ walk_less [OF p2] 2] by (simp add: h_def)
  qed
qed

subsection \<open>Writing one slot\<close>

lemma tombs_append: "tombs (xs @ s # ys) = tombs xs + of_bool (s = SLOT_TOMBSTONE) + tombs ys"
  by (simp add: tombs_def)

lemma tbl_inv_update:
  assumes inv: "tbl_inv hash tbl" and i: "i < length tbl" and s: "s \<noteq> SLOT_EMPTY"
    and dist: "distinct (map fst (hx_entries (tbl[i := s])))"
    and key: "\<And>k r. s = SLOT_OCCUPIED k r \<Longrightarrow> \<exists>d. i = walk tbl (home_slot hash (length tbl) k) d \<and>
      (\<forall>d' < d. tbl ! walk tbl (home_slot hash (length tbl) k) d' \<noteq> SLOT_EMPTY)"
  shows "tbl_inv hash (tbl[i := s])"
  unfolding tbl_inv_def
proof (intro conjI allI impI)
  show "pow2_table (tbl[i := s])" using tbl_invD(1) [OF inv] by (simp add: pow2_table_def)
  have mono: "tbl[i := s] ! j \<noteq> SLOT_EMPTY" if "tbl ! j \<noteq> SLOT_EMPTY" for j
    using that s i by (cases "j = i") auto
  fix j k r
  assume j: "j < length (tbl[i := s])" "tbl[i := s] ! j = SLOT_OCCUPIED k r"
  have "\<exists>d. j = walk tbl (home_slot hash (length tbl) k) d \<and>
      (\<forall>d' < d. tbl ! walk tbl (home_slot hash (length tbl) k) d' \<noteq> SLOT_EMPTY)"
    using j i key tbl_invD(3) [OF inv, of j k r] by (cases "j = i") auto
  then show "\<exists>d. j = walk (tbl[i := s]) (home_slot hash (length (tbl[i := s])) k) d \<and>
      (\<forall>d' < d. tbl[i := s] ! walk (tbl[i := s]) (home_slot hash (length (tbl[i := s])) k) d' \<noteq> SLOT_EMPTY)"
    using mono by auto
qed (rule dist)

definition free_slot :: "hash_slot \<Rightarrow> bool" where
  "free_slot s \<longleftrightarrow> s = SLOT_EMPTY \<or> s = SLOT_TOMBSTONE"

lemma place_key:
  assumes inv: "tbl_inv hash tbl" and absent: "tbl_map tbl k = None"
    and i: "i = walk tbl (home_slot hash (length tbl) k) d" "free_slot (tbl ! i)"
    and path: "\<forall>d' < d. tbl ! walk tbl (home_slot hash (length tbl) k) d' \<noteq> SLOT_EMPTY"
  shows "tbl_inv hash (tbl[i := SLOT_OCCUPIED k r])"
    "tbl_map (tbl[i := SLOT_OCCUPIED k r]) = (tbl_map tbl)(k \<mapsto> r)"
    "length (hx_entries (tbl[i := SLOT_OCCUPIED k r])) = Suc (length (hx_entries tbl))"
    "tombs tbl = tombs (tbl[i := SLOT_OCCUPIED k r]) + of_bool (tbl ! i = SLOT_TOMBSTONE)"
proof -
  have len: "i < length tbl" using i(1) walk_less tbl_invD(1) [OF inv] by simp
  obtain xs ys where t: "tbl = xs @ tbl ! i # ys" "\<And>s. tbl[i := s] = xs @ s # ys"
    using split_table [OF len] by metis
  have es: "hx_entries tbl = hx_entries xs @ hx_entries ys"
    by (subst t(1)) (use i(2) in \<open>auto simp: free_slot_def\<close>)
  have es': "hx_entries (tbl[i := SLOT_OCCUPIED k r]) = hx_entries xs @ (k, r) # hx_entries ys"
    by (simp add: t(2))
  have k: "k \<notin> fst ` set (hx_entries xs)" "k \<notin> fst ` set (hx_entries ys)"
    using absent by (auto simp: tbl_map_def es map_of_eq_None_iff image_Un simp del: map_of_append)
  have "distinct (map fst (hx_entries (tbl[i := SLOT_OCCUPIED k r])))"
    using tbl_invD(2) [OF inv] k by (simp add: es es')
  then show "tbl_inv hash (tbl[i := SLOT_OCCUPIED k r])"
    using i(1) path by (intro tbl_inv_update [OF inv len]) auto
  show "tbl_map (tbl[i := SLOT_OCCUPIED k r]) = (tbl_map tbl)(k \<mapsto> r)"
    using k [folded map_of_eq_None_iff]
    by (auto simp: tbl_map_def es es' fun_eq_iff map_add_def split: option.split)
  show "length (hx_entries (tbl[i := SLOT_OCCUPIED k r])) = Suc (length (hx_entries tbl))"
    by (simp add: es es')
  show "tombs tbl = tombs (tbl[i := SLOT_OCCUPIED k r]) + of_bool (tbl ! i = SLOT_TOMBSTONE)"
    by (subst t(1)) (simp add: t(2) tombs_append)
qed

lemma occupied_split:
  assumes inv: "tbl_inv hash tbl" and i: "i < length tbl" "tbl ! i = SLOT_OCCUPIED k r0"
  obtains xs ys where "\<And>s. tbl[i := s] = xs @ s # ys" "hx_entries tbl = hx_entries xs @ (k, r0) # hx_entries ys"
    "map_of (hx_entries xs) k = None" "map_of (hx_entries ys) k = None" "tombs tbl = tombs xs + tombs ys"
proof -
  obtain xs ys where t: "tbl = xs @ SLOT_OCCUPIED k r0 # ys" "\<And>s. tbl[i := s] = xs @ s # ys"
    using split_table [OF i(1)] i(2) by metis
  have es: "hx_entries tbl = hx_entries xs @ (k, r0) # hx_entries ys" by (subst t(1)) simp
  moreover have "tombs tbl = tombs xs + tombs ys" by (subst t(1)) (simp add: tombs_append)
  ultimately show thesis
    using t(2) tbl_invD(2) [OF inv] by (intro that) (auto simp: map_of_eq_None_iff)
qed

lemma change_row:
  assumes inv: "tbl_inv hash tbl" and i: "i < length tbl" "tbl ! i = SLOT_OCCUPIED k r0"
  shows "tbl_inv hash (tbl[i := SLOT_OCCUPIED k r])"
    "tbl_map (tbl[i := SLOT_OCCUPIED k r]) = (tbl_map tbl)(k \<mapsto> r)"
    "length (hx_entries (tbl[i := SLOT_OCCUPIED k r])) = length (hx_entries tbl)"
    "tombs (tbl[i := SLOT_OCCUPIED k r]) = tombs tbl"
proof -
  obtain xs ys where t: "\<And>s. tbl[i := s] = xs @ s # ys" "hx_entries tbl = hx_entries xs @ (k, r0) # hx_entries ys"
    "map_of (hx_entries xs) k = None" "map_of (hx_entries ys) k = None" "tombs tbl = tombs xs + tombs ys"
    using occupied_split [OF assms] by metis
  show "tbl_inv hash (tbl[i := SLOT_OCCUPIED k r])"
    using tbl_invD(2) [OF inv] tbl_invD(3) [OF inv i] by (intro tbl_inv_update [OF inv i(1)]) (auto simp: t(1,2))
  show "tbl_map (tbl[i := SLOT_OCCUPIED k r]) = (tbl_map tbl)(k \<mapsto> r)"
    using t(3,4) by (auto simp: tbl_map_def t(1,2) fun_eq_iff map_add_def split: option.split)
qed (use occupied_split [OF assms] in \<open>force simp: tombs_append\<close>)+

lemma drop_key:
  assumes inv: "tbl_inv hash tbl" and i: "i < length tbl" "tbl ! i = SLOT_OCCUPIED k r0"
  shows "tbl_inv hash (tbl[i := SLOT_TOMBSTONE])"
    "tbl_map (tbl[i := SLOT_TOMBSTONE]) = (tbl_map tbl)(k := None)"
    "Suc (length (hx_entries (tbl[i := SLOT_TOMBSTONE]))) = length (hx_entries tbl)"
    "tombs (tbl[i := SLOT_TOMBSTONE]) = Suc (tombs tbl)"
proof -
  obtain xs ys where t: "\<And>s. tbl[i := s] = xs @ s # ys" "hx_entries tbl = hx_entries xs @ (k, r0) # hx_entries ys"
    "map_of (hx_entries xs) k = None" "map_of (hx_entries ys) k = None" "tombs tbl = tombs xs + tombs ys"
    using occupied_split [OF assms] by metis
  show "tbl_inv hash (tbl[i := SLOT_TOMBSTONE])"
    using tbl_invD(2) [OF inv] by (intro tbl_inv_update [OF inv i(1)]) (auto simp: t(1,2))
  show "tbl_map (tbl[i := SLOT_TOMBSTONE]) = (tbl_map tbl)(k := None)"
    using t(3,4) by (auto simp: tbl_map_def t(1,2) fun_eq_iff map_add_def split: option.split)
qed (use occupied_split [OF assms] in \<open>force simp: tombs_append\<close>)+

end
