(* ===== verification/HashTable.thy ===== *)
theory HashTable
  imports HashProbe
begin

section \<open>The operations of the hash index\<close>

text \<open>
  When the probe loops return, what insert, resize, lookup and delete do to the map of a table, the
  index invariant \<open>hx_inv\<close> (exact counters, load at most 0.7) that every operation keeps while
  allocations succeed, and the power of two the constructor rounds its capacity to.
\<close>

subsection \<open>When the probe loops return\<close>

lemma next_slot_less: "pow2_table tbl \<Longrightarrow> next_slot (length tbl) i < length tbl"
  by (simp add: next_slot_mod) (use pow2_pos in fastforce)

lemma find_slot_returned:
  assumes "find_slot tbl key i = Some y" "pow2_table tbl" "i < length tbl"
  shows "\<exists>s \<in> set tbl. stops s key"
  using assms
proof (induction rule: find_slot.raw_induct [rotated, consumes 1, case_names step])
  case (step find_slot tbl key i y)
  show ?case
  proof (cases "stops (tbl ! i) key")
    case False
    with step(2) have "find_slot tbl key (next_slot (length tbl) i) = Some y"
      by (auto simp: stops_def holds_key_def slot_key_match_def split: hash_slot.splits if_splits)
    from step(1) [OF this step(3)] next_slot_less [OF step(3)] show ?thesis by blast
  qed (use step in auto)
qed

lemma insert_probe_returned:
  assumes "insert_probe tbl key row i ft = Some y" "pow2_table tbl" "i < length tbl"
  shows "\<exists>s \<in> set tbl. stops s key"
  using assms
proof (induction rule: insert_probe.raw_induct [rotated, consumes 1, case_names step])
  case (step insert_probe tbl key row i ft y)
  show ?case
  proof (cases "stops (tbl ! i) key")
    case False
    with step(2) have "\<exists>ft'. insert_probe tbl key row (next_slot (length tbl) i) ft' = Some y"
      by (auto simp: stops_def holds_key_def slot_key_match_def split: hash_slot.splits if_splits)
    then obtain ft' where "insert_probe tbl key row (next_slot (length tbl) i) ft' = Some y" ..
    from step(1) [OF this step(3)] next_slot_less [OF step(3)] show ?thesis by blast
  qed (use step in auto)
qed

lemma rehash_slot_returned:
  assumes "rehash_slot tbl key row i = Some y" "pow2_table tbl" "i < length tbl"
  shows "SLOT_EMPTY \<in> set tbl"
  using assms
proof (induction rule: rehash_slot.raw_induct [rotated, consumes 1, case_names step])
  case (step rehash_slot tbl key row i y)
  show ?case
  proof (cases "tbl ! i = SLOT_EMPTY")
    case False
    with step(2) have "rehash_slot tbl key row (next_slot (length tbl) i) = Some y"
      by (auto split: hash_slot.splits)
    from step(1) [OF this step(3)] next_slot_less [OF step(3)] show ?thesis by blast
  qed (use step nth_mem in metis)
qed

lemma find_slot_returns:
  assumes "pow2_table tbl" "i < length tbl"
  shows "find_slot tbl key i \<noteq> None \<longleftrightarrow> (\<exists>s \<in> set tbl. stops s key)"
proof
  assume "\<exists>s \<in> set tbl. stops s key"
  then obtain j where "j < length tbl" "stops (tbl ! j) key" by (auto simp: in_set_conv_nth)
  from first_stop [OF assms(2) this(1), of "\<lambda>s. stops s key", OF this(2)] obtain d
    where d: "stops (tbl ! walk tbl i d) key" "\<forall>d' < d. \<not> stops (tbl ! walk tbl i d') key" .
  have "find_slot tbl key (walk tbl i d) \<noteq> None"
    using d(1) by (subst find_slot.simps) (auto simp: stops_def holds_key_def slot_key_match_def)
  then show "find_slot tbl key i \<noteq> None" using find_slot_walk [OF assms d(2)] by simp
qed (use find_slot_returned assms in blast)

lemma insert_probe_returns:
  assumes "pow2_table tbl" "i < length tbl"
  shows "insert_probe tbl key row i None \<noteq> None \<longleftrightarrow> (\<exists>s \<in> set tbl. stops s key)"
proof
  assume "\<exists>s \<in> set tbl. stops s key"
  then obtain j where "j < length tbl" "stops (tbl ! j) key" by (auto simp: in_set_conv_nth)
  from first_stop [OF assms(2) this(1), of "\<lambda>s. stops s key", OF this(2)] obtain d
    where d: "stops (tbl ! walk tbl i d) key" "\<forall>d' < d. \<not> stops (tbl ! walk tbl i d') key" .
  have "insert_probe tbl key row (walk tbl i d) ft \<noteq> None" for ft
    using d(1) by (subst insert_probe.simps) (auto simp: stops_def holds_key_def slot_key_match_def)
  then show "insert_probe tbl key row i None \<noteq> None" using insert_probe_walk [OF assms d(2), of row] by auto
qed (use insert_probe_returned assms in blast)

lemma rehash_slot_returns:
  assumes "pow2_table tbl" "i < length tbl"
  shows "rehash_slot tbl key row i \<noteq> None \<longleftrightarrow> SLOT_EMPTY \<in> set tbl"
proof
  assume "SLOT_EMPTY \<in> set tbl"
  then obtain j where "j < length tbl" "tbl ! j = SLOT_EMPTY" by (auto simp: in_set_conv_nth)
  from first_stop [OF assms(2) this(1), of "\<lambda>s. s = SLOT_EMPTY", OF this(2)] obtain d
    where d: "tbl ! walk tbl i d = SLOT_EMPTY" "\<forall>d' < d. tbl ! walk tbl i d' \<noteq> SLOT_EMPTY" .
  have "rehash_slot tbl key row (walk tbl i d) \<noteq> None" using d(1) by (subst rehash_slot.simps) auto
  then show "rehash_slot tbl key row i \<noteq> None" using rehash_slot_walk [OF assms d(2)] by simp
qed (use rehash_slot_returned assms in blast)

subsection \<open>Probing and rehashing\<close>

lemma insert_probe_spec:
  assumes inv: "tbl_inv hash tbl" and empty: "j < length tbl" "tbl ! j = SLOT_EMPTY"
  obtains tbl' added reused where
    "insert_probe tbl k row (home_slot hash (length tbl) k) None = Some (tbl', added, reused)"
    "tbl_inv hash tbl'" "tbl_map tbl' = (tbl_map tbl)(k \<mapsto> row)" "length tbl' = length tbl"
    "length (hx_entries tbl') = length (hx_entries tbl) + of_bool added"
    "tombs tbl = tombs tbl' + of_bool reused" "added \<longleftrightarrow> tbl_map tbl k = None" "reused \<longrightarrow> added"
proof -
  note p2 = tbl_invD(1) [OF inv]
  define h where "h = home_slot hash (length tbl) k"
  have h: "h < length tbl" unfolding h_def by (rule home_slot_less [OF p2])
  obtain d where d: "stops (tbl ! walk tbl h d) k" "\<forall>d' < d. \<not> stops (tbl ! walk tbl h d') k"
    using first_stop [OF h empty(1), of "\<lambda>s. stops s k"] empty(2) by (auto simp: stops_def)
  obtain ft where ft: "insert_probe tbl k row h None = insert_probe tbl k row (walk tbl h d) ft"
    "\<And>t. ft = Some t \<Longrightarrow> \<exists>e < d. t = walk tbl h e \<and> tbl ! t = SLOT_TOMBSTONE"
    using insert_probe_walk [OF p2 h d(2), of row] by blast
  from d(1) consider "tbl ! walk tbl h d = SLOT_EMPTY" | r where "tbl ! walk tbl h d = SLOT_OCCUPIED k r"
    by (auto simp: stops_def holds_key_def)
  then show thesis
  proof cases
    case 1
    obtain e where e: "e \<le> d" "(case ft of None \<Rightarrow> walk tbl h d | Some t \<Rightarrow> t) = walk tbl h e"
      "free_slot (tbl ! walk tbl h e)" "tbl ! walk tbl h e = SLOT_TOMBSTONE \<longleftrightarrow> ft \<noteq> None"
    proof (cases ft)
      case None
      with 1 that [of d] show ?thesis by (simp add: free_slot_def)
    next
      case (Some t)
      with ft(2) obtain e where "e < d" "t = walk tbl h e" "tbl ! t = SLOT_TOMBSTONE" by blast
      with Some that [of e] show ?thesis by (simp add: free_slot_def)
    qed
    have "\<forall>d' < e. tbl ! walk tbl h d' \<noteq> SLOT_EMPTY" using d(2) e(1) by (auto simp: stops_def)
    note place = place_key [OF inv absent_of_empty [OF inv h_def 1 d(2)] _ e(3) this [unfolded h_def],
        folded h_def, OF refl, of row]
    have "insert_probe tbl k row h None = Some (tbl[walk tbl h e := SLOT_OCCUPIED k row], True, ft \<noteq> None)"
      unfolding ft(1) by (subst insert_probe.simps) (simp add: 1 e(2) [symmetric])
    with place e(4) absent_of_empty [OF inv h_def 1 d(2)] show thesis
      by (intro that [of "tbl[walk tbl h e := SLOT_OCCUPIED k row]" True "ft \<noteq> None"]) (simp_all add: h_def)
  next
    case 2
    note change = change_row [OF inv walk_less [OF p2] 2, of row]
    have "insert_probe tbl k row h None = Some (tbl[walk tbl h d := SLOT_OCCUPIED k row], False, False)"
      unfolding ft(1) by (subst insert_probe.simps) (simp add: 2 slot_key_match_def)
    moreover have "tbl_map tbl k = Some r" using tbl_map_iff [OF inv] 2 walk_less [OF p2] by blast
    ultimately show thesis using change
      by (intro that [of "tbl[walk tbl h d := SLOT_OCCUPIED k row]" False False]) (simp_all add: h_def)
  qed
qed

lemma rehash_slot_spec:
  assumes inv: "tbl_inv hash tbl" and empty: "j < length tbl" "tbl ! j = SLOT_EMPTY" and k: "tbl_map tbl k = None"
  obtains tbl' where "rehash_slot tbl k row (home_slot hash (length tbl) k) = Some tbl'"
    "tbl_inv hash tbl'" "tbl_map tbl' = (tbl_map tbl)(k \<mapsto> row)" "length tbl' = length tbl"
    "length (hx_entries tbl') = Suc (length (hx_entries tbl))" "tombs tbl' = tombs tbl"
proof -
  note p2 = tbl_invD(1) [OF inv]
  define h where "h = home_slot hash (length tbl) k"
  have h: "h < length tbl" unfolding h_def by (rule home_slot_less [OF p2])
  obtain d where d: "tbl ! walk tbl h d = SLOT_EMPTY" "\<forall>d' < d. tbl ! walk tbl h d' \<noteq> SLOT_EMPTY"
    using first_stop [OF h empty(1), of "\<lambda>s. s = SLOT_EMPTY"] empty(2) by auto
  have "free_slot (tbl ! walk tbl h d)" using d(1) by (simp add: free_slot_def)
  note place = place_key [OF inv k _ this d(2) [unfolded h_def], folded h_def, OF refl, of row]
  have "rehash_slot tbl k row h = Some (tbl[walk tbl h d := SLOT_OCCUPIED k row])"
    unfolding rehash_slot_walk [OF p2 h d(2)] by (subst rehash_slot.simps) (simp add: d(1))
  with place d(1) show thesis
    by (intro that [of "tbl[walk tbl h d := SLOT_OCCUPIED k row]"]) (simp_all add: h_def)
qed

lemma rehash_spec:
  assumes "tbl_inv hash (hx_table idx)" "distinct (map fst (hx_entries ss))"
    "fst ` set (hx_entries ss) \<inter> dom (tbl_map (hx_table idx)) = {}"
    "length (hx_entries (hx_table idx)) + tombs (hx_table idx) + length (hx_entries ss) < length (hx_table idx)"
  shows "\<exists>idx'. rehash hash ss idx = Some idx' \<and> tbl_inv hash (hx_table idx') \<and>
    tbl_map (hx_table idx') = tbl_map (hx_table idx) ++ map_of (hx_entries ss) \<and>
    length (hx_table idx') = length (hx_table idx) \<and>
    length (hx_entries (hx_table idx')) = length (hx_entries (hx_table idx)) + length (hx_entries ss) \<and>
    tombs (hx_table idx') = tombs (hx_table idx) \<and> hx_type idx' = hx_type idx \<and>
    hx_count idx' = hx_count idx + of_nat (length (hx_entries ss)) \<and> hx_tombstones idx' = hx_tombstones idx"
  using assms
proof (induction hash ss idx rule: rehash.induct)
  case (2 hash k r ss idx)
  have "length (hx_entries (hx_table idx)) + tombs (hx_table idx) < length (hx_table idx)"
    using 2(5) by simp
  then obtain j where j: "j < length (hx_table idx)" "hx_table idx ! j = SLOT_EMPTY" using has_empty by blast
  have "tbl_map (hx_table idx) k = None" using 2(4) by auto
  then obtain tbl' where t: "rehash_slot (hx_table idx) k r (home_slot hash (length (hx_table idx)) k) = Some tbl'"
    "tbl_inv hash tbl'" "tbl_map tbl' = (tbl_map (hx_table idx))(k \<mapsto> r)" "length tbl' = length (hx_table idx)"
    "length (hx_entries tbl') = Suc (length (hx_entries (hx_table idx)))" "tombs tbl' = tombs (hx_table idx)"
    using rehash_slot_spec [OF 2(2) j] by metis
  have "fst ` set (hx_entries ss) \<inter> dom (tbl_map tbl') = {}" using 2(3,4) by (auto simp: t(3))
  moreover have "(tbl_map (hx_table idx))(k \<mapsto> r) ++ map_of (hx_entries ss) =
      tbl_map (hx_table idx) ++ map_of (hx_entries (SLOT_OCCUPIED k r # ss))"
    using 2(3) by (simp add: map_add_upd_left dom_map_of_conv_image_fst del: fun_upd_apply)
  ultimately show ?case
    using 2(1) [OF t(1)] 2(3,5) t by (simp add: algebra_simps del: map_of.simps fun_upd_apply)
qed auto

subsection \<open>The index invariant\<close>

definition hx_inv :: "hash_fun \<Rightarrow> hash_index \<Rightarrow> bool" where
  "hx_inv hash idx \<longleftrightarrow> tbl_inv hash (hx_table idx) \<and> 16 \<le> length (hx_table idx) \<and>
     hx_count idx = of_nat (length (hx_entries (hx_table idx))) \<and>
     hx_tombstones idx = of_nat (tombs (hx_table idx)) \<and>
     10 * (length (hx_entries (hx_table idx)) + tombs (hx_table idx)) \<le> 7 * length (hx_table idx)"

lemma hx_invD:
  assumes "hx_inv hash idx"
  shows "tbl_inv hash (hx_table idx)" "16 \<le> length (hx_table idx)"
    "hx_count idx = of_nat (length (hx_entries (hx_table idx)))"
    "hx_tombstones idx = of_nat (tombs (hx_table idx))"
    "10 * (length (hx_entries (hx_table idx)) + tombs (hx_table idx)) \<le> 7 * length (hx_table idx)"
  using assms by (simp_all add: hx_inv_def)

lemma hx_inv_empty:
  assumes "hx_inv hash idx"
  obtains j where "j < length (hx_table idx)" "hx_table idx ! j = SLOT_EMPTY"
proof -
  have "length (hx_entries (hx_table idx)) + tombs (hx_table idx) < length (hx_table idx)"
    using hx_invD(2,5) [OF assms] by simp
  then show thesis using has_empty that by blast
qed

lemma entries_replicate [simp]: "hx_entries (replicate n SLOT_EMPTY) = []"
  by (induction n) simp_all

lemma tombs_replicate [simp]: "tombs (replicate n SLOT_EMPTY) = 0"
  by (simp add: tombs_def)

lemma tbl_inv_replicate: "tbl_inv hash (replicate (2 ^ n) SLOT_EMPTY)"
  by (auto simp: tbl_inv_def pow2_table_def)

lemma resize_spec:
  assumes inv: "tbl_inv hash (hx_table idx)" and cap: "length (hx_entries (hx_table idx)) < 2 ^ n"
  obtains idx' where "table_resize hash True idx (2 ^ n) = Some (True, idx')" "tbl_inv hash (hx_table idx')"
    "tbl_map (hx_table idx') = tbl_map (hx_table idx)" "length (hx_table idx') = 2 ^ n"
    "length (hx_entries (hx_table idx')) = length (hx_entries (hx_table idx))" "tombs (hx_table idx') = 0"
    "hx_type idx' = hx_type idx" "hx_count idx' = of_nat (length (hx_entries (hx_table idx)))" "hx_tombstones idx' = 0"
proof -
  let ?i = "table_init idx (2 ^ n)"
  have "tbl_inv hash (hx_table ?i)" by (simp add: table_init_def tbl_inv_replicate)
  from rehash_spec [OF this tbl_invD(2) [OF inv]] cap
  obtain idx' where "rehash hash (hx_table idx) ?i = Some idx'" "tbl_inv hash (hx_table idx')"
    "tbl_map (hx_table idx') = tbl_map (hx_table idx)" "length (hx_table idx') = 2 ^ n"
    "length (hx_entries (hx_table idx')) = length (hx_entries (hx_table idx))" "tombs (hx_table idx') = 0"
    "hx_type idx' = hx_type idx" "hx_count idx' = of_nat (length (hx_entries (hx_table idx)))" "hx_tombstones idx' = 0"
    by (auto simp: table_init_def tbl_map_def)
  with that show thesis by (simp add: table_resize_def)
qed

lemma load_nat:
  assumes "hx_inv hash idx" "length (hx_table idx) \<le> 2 ^ 60"
  shows "load_exceeded idx \<longleftrightarrow>
    10 * (length (hx_entries (hx_table idx)) + tombs (hx_table idx) + 1) > 7 * length (hx_table idx)"
    "unat (hx_tombstones idx) = tombs (hx_table idx)"
proof -
  note inv = hx_invD [OF assms(1)]
  have sum: "hx_count idx + hx_tombstones idx + 1 =
      (of_nat (length (hx_entries (hx_table idx)) + tombs (hx_table idx) + 1) :: u64)"
    by (simp add: inv)
  have "length (hx_entries (hx_table idx)) + tombs (hx_table idx) + 1 < 2 ^ 64"
    using inv(5) assms(2) by simp
  then show "load_exceeded idx \<longleftrightarrow>
      10 * (length (hx_entries (hx_table idx)) + tombs (hx_table idx) + 1) > 7 * length (hx_table idx)"
    unfolding load_exceeded_def sum by (simp add: unat_of_nat take_bit_nat_eq_self del: of_nat_add of_nat_Suc)
  show "unat (hx_tombstones idx) = tombs (hx_table idx)"
    using inv(5) assms(2) by (simp add: inv(4) unat_of_nat take_bit_nat_eq_self)
qed

lemma insert_internal_spec:
  assumes inv: "tbl_inv hash (hx_table idx)" "16 \<le> length (hx_table idx)"
    "hx_count idx = of_nat (length (hx_entries (hx_table idx)))"
    "hx_tombstones idx = of_nat (tombs (hx_table idx))"
    and room: "10 * (length (hx_entries (hx_table idx)) + tombs (hx_table idx) + 1) \<le> 7 * length (hx_table idx)"
  obtains idx' where
    "hash_insert_internal idx k row (home_slot hash (length (hx_table idx)) k) = Some (True, idx')"
    "hx_inv hash idx'" "tbl_map (hx_table idx') = (tbl_map (hx_table idx))(k \<mapsto> row)" "hx_type idx' = hx_type idx"
proof -
  have "length (hx_entries (hx_table idx)) + tombs (hx_table idx) < length (hx_table idx)"
    using room inv(2) by simp
  then obtain j where "j < length (hx_table idx)" "hx_table idx ! j = SLOT_EMPTY" using has_empty by blast
  from insert_probe_spec [OF inv(1) this, of k row]
  obtain tbl added reused where t:
    "insert_probe (hx_table idx) k row (home_slot hash (length (hx_table idx)) k) None = Some (tbl, added, reused)"
    "tbl_inv hash tbl" "tbl_map tbl = (tbl_map (hx_table idx))(k \<mapsto> row)" "length tbl = length (hx_table idx)"
    "length (hx_entries tbl) = length (hx_entries (hx_table idx)) + of_bool added"
    "tombs (hx_table idx) = tombs tbl + of_bool reused" by metis
  have sum: "10 * (length (hx_entries tbl) + tombs tbl) \<le> 7 * length tbl"
    using room t(4-6) by (auto split: if_splits)
  let ?i = "idx\<lparr>hx_table := tbl, hx_count := (if added then hx_count idx + 1 else hx_count idx),
      hx_tombstones := (if reused then hx_tombstones idx - 1 else hx_tombstones idx)\<rparr>"
  have "hx_inv hash ?i" using t inv(2-4) sum by (auto simp: hx_inv_def)
  with t(1,3) show thesis by (intro that [of ?i]) (simp_all add: hash_insert_internal_def)
qed

lemma insert_spec:
  assumes inv: "hx_inv hash idx" "length (hx_table idx) \<le> 2 ^ 60" and k: "fixed_key (hx_type idx) key = Some k"
    "hx_type idx = QIHSE_HASH_KEY_STRING \<Longrightarrow> length k \<le> 255"
  obtains idx' where "qihse_hash_index_insert hash True idx (Some key) row = Some (True, idx')"
    "hx_inv hash idx'" "tbl_map (hx_table idx') = (tbl_map (hx_table idx))(k \<mapsto> row)" "hx_type idx' = hx_type idx"
proof (cases "load_exceeded idx")
  case True
  note i = hx_invD [OF inv(1)]
  obtain n where n: "length (hx_table idx) = 2 ^ n" using tbl_invD(1) [OF i(1)] by (auto simp: pow2_table_def)
  have "length (hx_entries (hx_table idx)) < 2 ^ Suc n" using i(2,5) n by simp
  from resize_spec [OF i(1) this] obtain idx1 where r:
    "table_resize hash True idx (2 ^ Suc n) = Some (True, idx1)" "tbl_inv hash (hx_table idx1)"
    "tbl_map (hx_table idx1) = tbl_map (hx_table idx)" "length (hx_table idx1) = 2 ^ Suc n"
    "length (hx_entries (hx_table idx1)) = length (hx_entries (hx_table idx))" "tombs (hx_table idx1) = 0"
    "hx_type idx1 = hx_type idx" "hx_count idx1 = of_nat (length (hx_entries (hx_table idx)))"
    "hx_tombstones idx1 = 0" by metis
  have "16 \<le> length (hx_table idx1)" "10 * (length (hx_entries (hx_table idx1)) + tombs (hx_table idx1) + 1)
      \<le> 7 * length (hx_table idx1)" using r(4-6) i(2,5) n by simp_all
  from insert_internal_spec [OF r(2) this(1) _ _ this(2), of k row] r
  obtain idx' where "hash_insert_internal idx1 k row (home_slot hash (length (hx_table idx1)) k) = Some (True, idx')"
    "hx_inv hash idx'" "tbl_map (hx_table idx') = (tbl_map (hx_table idx))(k \<mapsto> row)" "hx_type idx' = hx_type idx"
    by auto
  moreover have "\<not> (hx_type idx = QIHSE_HASH_KEY_STRING \<and> length k > 255)" using k(2) by force
  ultimately show thesis
    using True k(1) r(1) n by (intro that [of idx']) (simp_all add: qihse_hash_index_insert_def mult.commute)
next
  case False
  note i = hx_invD [OF inv(1)]
  have "10 * (length (hx_entries (hx_table idx)) + tombs (hx_table idx) + 1) \<le> 7 * length (hx_table idx)"
    using False load_nat [OF inv] by simp
  from insert_internal_spec [OF i(1-4) this, of k row] obtain idx' where
    "hash_insert_internal idx k row (home_slot hash (length (hx_table idx)) k) = Some (True, idx')"
    "hx_inv hash idx'" "tbl_map (hx_table idx') = (tbl_map (hx_table idx))(k \<mapsto> row)" "hx_type idx' = hx_type idx" .
  moreover have "\<not> (hx_type idx = QIHSE_HASH_KEY_STRING \<and> length k > 255)" using k(2) by force
  ultimately show thesis
    using False k(1) by (intro that [of idx']) (simp_all add: qihse_hash_index_insert_def)
qed

lemma lookup_spec:
  assumes inv: "hx_inv hash idx" and k: "fixed_key (hx_type idx) key = Some k"
  shows "qihse_hash_index_lookup hash idx (Some key) = Some (tbl_map (hx_table idx) k)"
proof -
  obtain j where "j < length (hx_table idx)" "hx_table idx ! j = SLOT_EMPTY" using hx_inv_empty [OF inv] .
  from hx_invD(1) [OF inv] this show ?thesis
    by (cases rule: find_slot_spec [of hash "hx_table idx" j k])
      (simp_all add: qihse_hash_index_lookup_def k slot_row_def)
qed

lemma purge_spec:
  assumes inv: "hx_inv hash idx"
  obtains idx' where "(if unat (hx_tombstones idx) > length (hx_table idx) div 4
      then table_resize hash True idx (length (hx_table idx)) else Some (True, idx)) = Some (True, idx')"
    "hx_inv hash idx'" "tbl_map (hx_table idx') = tbl_map (hx_table idx)" "hx_type idx' = hx_type idx"
proof (cases "unat (hx_tombstones idx) > length (hx_table idx) div 4")
  case True
  note i = hx_invD [OF inv]
  obtain n where n: "length (hx_table idx) = 2 ^ n" using tbl_invD(1) [OF i(1)] by (auto simp: pow2_table_def)
  have "length (hx_entries (hx_table idx)) < 2 ^ n" using i(2,5) n by simp
  from resize_spec [OF i(1) this] obtain idx' where r:
    "table_resize hash True idx (2 ^ n) = Some (True, idx')" "tbl_inv hash (hx_table idx')"
    "tbl_map (hx_table idx') = tbl_map (hx_table idx)" "length (hx_table idx') = 2 ^ n"
    "length (hx_entries (hx_table idx')) = length (hx_entries (hx_table idx))" "tombs (hx_table idx') = 0"
    "hx_type idx' = hx_type idx" "hx_count idx' = of_nat (length (hx_entries (hx_table idx)))"
    "hx_tombstones idx' = 0" by metis
  have "hx_inv hash idx'" using r i(2,5) n by (simp add: hx_inv_def)
  with r True n show thesis by (intro that [of idx']) simp_all
qed (use inv that in auto)

lemma delete_spec:
  assumes inv: "hx_inv hash idx" and k: "fixed_key (hx_type idx) key = Some k"
  obtains idx' where "qihse_hash_index_delete hash True idx (Some key) = Some (tbl_map (hx_table idx) k, idx')"
    "hx_inv hash idx'" "tbl_map (hx_table idx') = (tbl_map (hx_table idx))(k := None)" "hx_type idx' = hx_type idx"
proof -
  note i = hx_invD [OF inv]
  obtain j where j: "j < length (hx_table idx)" "hx_table idx ! j = SLOT_EMPTY" using hx_inv_empty [OF inv] .
  show thesis
  proof (cases rule: find_slot_spec [OF i(1) j, of k])
    case 1
    then show thesis
      using inv k by (intro that [of idx]) (auto simp: qihse_hash_index_delete_def fun_eq_iff)
  next
    case (2 p r)
    define idx1 where "idx1 = idx\<lparr>hx_table := (hx_table idx)[p := SLOT_TOMBSTONE],
        hx_count := hx_count idx - 1, hx_tombstones := hx_tombstones idx + 1\<rparr>"
    note drop = drop_key [OF i(1) 2(2,3)]
    have idx1: "hx_inv hash idx1" "hx_type idx1 = hx_type idx"
      "tbl_map (hx_table idx1) = (tbl_map (hx_table idx))(k := None)"
      using drop(1,2,4) drop(3) [symmetric] i by (auto simp: hx_inv_def idx1_def)
    obtain idx2 where purge: "(if unat (hx_tombstones idx1) > length (hx_table idx1) div 4
        then table_resize hash True idx1 (length (hx_table idx1)) else Some (True, idx1)) = Some (True, idx2)"
      "hx_inv hash idx2" "tbl_map (hx_table idx2) = tbl_map (hx_table idx1)" "hx_type idx2 = hx_type idx1"
      using purge_spec [OF idx1(1)] .
    have "qihse_hash_index_delete hash True idx (Some key) = Some (Some r, idx2)"
      using 2 k purge(1)
      by (auto simp: qihse_hash_index_delete_def Let_def slot_row_def simp flip: idx1_def split: if_splits)
    with purge idx1 2(4) show thesis by (intro that [of idx2]) simp_all
  qed
qed

subsection \<open>The initial capacity\<close>

definition smeared :: "u64 \<Rightarrow> nat \<Rightarrow> u64 \<Rightarrow> bool" where
  "smeared r w x \<longleftrightarrow> (\<forall>i. bit x i \<longleftrightarrow> (\<exists>j < w. bit r (i + j)))"

lemma smeared_step: "smeared r w x \<Longrightarrow> smeared r (2 * w) (x OR drop_bit w x)"
proof -
  assume x: "smeared r w x"
  have "(\<exists>j < w. bit r (i + j)) \<or> (\<exists>j < w. bit r (i + w + j)) \<longleftrightarrow> (\<exists>j < 2 * w. bit r (i + j))" (is "?l \<longleftrightarrow> ?r") for i
  proof
    assume ?l
    then obtain j where "j < w" "bit r (i + j) \<or> bit r (i + (w + j))" by (auto simp: add.assoc)
    then have "j < 2 * w" "w + j < 2 * w" by auto
    with \<open>bit r (i + j) \<or> bit r (i + (w + j))\<close> show ?r by blast
  next
    assume ?r
    then obtain j where j: "j < 2 * w" "bit r (i + j)" by blast
    show ?l
    proof (cases "j < w")
      case False
      then have "j - w < w" "i + w + (j - w) = i + j" using j(1) by auto
      with j(2) show ?l by metis
    qed (use j in blast)
  qed
  with x show ?thesis by (simp add: smeared_def bit_or_iff bit_drop_bit_eq add.commute)
qed

lemma smeared_all:
  assumes "smeared r 64 x" "bit r n" "unat r < 2 ^ Suc n" "n < 63"
  shows "unat (x + 1) = 2 ^ Suc n"
proof -
  have top: "m \<le> n" if "bit r m" for m
  proof (rule ccontr)
    assume "\<not> m \<le> n"
    then have "2 ^ Suc n \<le> (2 ^ m :: nat)" by (intro power_increasing) auto
    moreover have "odd (unat r div 2 ^ m)"
      using that by (simp add: bit_unsigned_iff flip: bit_iff_odd)
    then have "2 ^ m \<le> unat r" by (cases "unat r < 2 ^ m") auto
    ultimately show False using assms(3) by simp
  qed
  have "bit x i \<longleftrightarrow> i < Suc n" for i
  proof
    show "bit x i \<Longrightarrow> i < Suc n" using assms(1) top by (force simp: smeared_def)
    assume "i < Suc n"
    then have "n - i < 64" "bit r (i + (n - i))" using assms(2,4) by auto
    with assms(1) show "bit x i" by (auto simp: smeared_def)
  qed
  then have "x = mask (Suc n)" by (intro bit_eqI) (simp add: bit_mask_iff)
  then have "x + 1 = 2 ^ Suc n" by (simp add: mask_eq_exp_minus_1)
  moreover have "(2 :: nat) ^ Suc n < 2 ^ LENGTH(64)" using assms(4) by (intro power_strict_increasing) auto
  then have "unat (of_nat (2 ^ Suc n) :: u64) = 2 ^ Suc n" unfolding unat_of_nat by (rule mod_less)
  ultimately show ?thesis by (simp only: of_nat_power of_nat_numeral)
qed

lemma next_pow2_spec:
  assumes "v \<le> 2 ^ 60"
  obtains n where "unat (next_pow2 v) = 2 ^ n" "4 \<le> n" "n \<le> 60" "unat v \<le> 2 ^ n"
proof (cases "v < 16")
  case True
  have "next_pow2 v = 16" unfolding next_pow2_def by (rule if_P [OF True])
  moreover have "unat v \<le> 2 ^ 4" using True by (simp add: word_less_nat_alt)
  ultimately show thesis by (intro that [of 4]) simp_all
next
  case False
  define r where "r = v - 1"
  define x where "x = (let y = r OR drop_bit 1 r; y = y OR drop_bit 2 y; y = y OR drop_bit 4 y;
      y = y OR drop_bit 8 y; y = y OR drop_bit 16 y in y OR drop_bit 32 y)"
  have v: "16 \<le> unat v" "unat v \<le> 2 ^ 60" using False assms by (simp_all add: word_le_nat_alt word_less_nat_alt not_less)
  then have r: "unat r = unat v - 1" unfolding r_def by (intro unat_minus_one) auto
  have "smeared r 1 r" by (auto simp: smeared_def)
  from smeared_step [OF smeared_step [OF smeared_step [OF smeared_step [OF smeared_step [OF smeared_step [OF this]]]]]]
  have sm: "smeared r 64 x" unfolding x_def Let_def by (simp only: mult_2 mult_1_right numeral_plus_numeral numeral_plus_one one_plus_numeral one_add_one arith_simps)
  have "1 \<le> unat r" using v r by simp
  then obtain n where n: "2 ^ n \<le> unat r" "unat r < 2 ^ Suc n"
    using ex_power_ivl1 [of 2 "unat r"] by auto
  have "unat r div 2 ^ n = 1" using n by (intro div_nat_eqI) auto
  then have "bit (unat r) n" by (simp add: bit_iff_odd)
  then have bit: "bit r n" by (simp add: bit_unsigned_iff)
  have "(2 :: nat) ^ n < 2 ^ 60" using n(1) v r by simp
  then have "n < 60" by (rule power_less_imp_less_exp [rotated]) simp
  moreover have "3 \<le> n"
  proof (rule ccontr)
    assume "\<not> 3 \<le> n"
    then have "(2 :: nat) ^ Suc n \<le> 2 ^ 3" by (intro power_increasing) auto
    with n(2) r v show False by simp
  qed
  ultimately have bound: "n < 60" "3 \<le> n" by simp_all
  show thesis
    using smeared_all [OF sm bit n(2)] bound n(2) r v
    by (intro that [of "Suc n"]) (simp_all add: next_pow2_def False r_def [symmetric] x_def Let_def)
qed

lemma create_spec:
  assumes "qihse_hash_index_create True True ty c = Some idx" "c \<le> 2 ^ 60"
  shows "hx_inv hash idx" "tbl_map (hx_table idx) = Map.empty" "hx_type idx = ty"
proof -
  obtain n where n: "unat (if c \<noteq> 0 then next_pow2 c else 1024) = 2 ^ n" "4 \<le> n"
  proof (cases "c = 0")
    case True
    then show thesis by (intro that [of 10]) simp_all
  qed (use next_pow2_spec [OF assms(2)] that in auto)
  have "(2 :: nat) ^ 4 \<le> 2 ^ n" using n(2) by (intro power_increasing) auto
  with assms(1) n(1) show "hx_inv hash idx" "tbl_map (hx_table idx) = Map.empty" "hx_type idx = ty"
    by (auto simp: qihse_hash_index_create_def table_init_def hx_inv_def tbl_inv_replicate tbl_map_def Let_def)
qed

end
