(* ===== verification/HashProps.thy ===== *)
theory HashProps
  imports HashTable
begin

section \<open>Properties of the hash index\<close>

text \<open>
  Runs of the index beside the map they stand for, and the properties of the operations over all runs,
  all hash functions and all keys. The last part follows a failed resize.
\<close>

subsection \<open>Runs\<close>

inductive hx_run :: "hash_fun \<Rightarrow> hash_index \<Rightarrow> (bytes \<rightharpoonup> u64) \<Rightarrow> bool" for hash where
  created: "qihse_hash_index_create True True ty c = Some idx \<Longrightarrow> c \<le> 2 ^ 60 \<Longrightarrow> hx_run hash idx Map.empty"
| inserted: "hx_run hash idx m \<Longrightarrow> length (hx_table idx) \<le> 2 ^ 60 \<Longrightarrow> fixed_key (hx_type idx) key = Some k \<Longrightarrow>
    qihse_hash_index_insert hash True idx (Some key) row = Some (ok, idx') \<Longrightarrow>
    hx_run hash idx' (if ok then m(k \<mapsto> row) else m)"
| deleted: "hx_run hash idx m \<Longrightarrow> fixed_key (hx_type idx) key = Some k \<Longrightarrow>
    qihse_hash_index_delete hash True idx (Some key) = Some (res, idx') \<Longrightarrow> hx_run hash idx' (m(k := None))"

definition key_fits :: "hash_key_type \<Rightarrow> bytes \<Rightarrow> bool" where
  "key_fits ty k \<longleftrightarrow> ty = QIHSE_HASH_KEY_INT64 \<or> length k \<le> 255"

lemma insert_result:
  assumes inv: "hx_inv hash idx" "length (hx_table idx) \<le> 2 ^ 60" and k: "fixed_key (hx_type idx) key = Some k"
  obtains idx' where "qihse_hash_index_insert hash True idx (Some key) row = Some (key_fits (hx_type idx) k, idx')"
    "hx_inv hash idx'" "tbl_map (hx_table idx') =
      (if key_fits (hx_type idx) k then (tbl_map (hx_table idx))(k \<mapsto> row) else tbl_map (hx_table idx))"
    "hx_type idx' = hx_type idx"
proof (cases "key_fits (hx_type idx) k")
  case True
  then have "hx_type idx = QIHSE_HASH_KEY_STRING \<Longrightarrow> length k \<le> 255" by (auto simp: key_fits_def)
  from insert_spec [OF inv k this, of row] obtain idx' where
    "qihse_hash_index_insert hash True idx (Some key) row = Some (True, idx')" "hx_inv hash idx'"
    "tbl_map (hx_table idx') = (tbl_map (hx_table idx))(k \<mapsto> row)" "hx_type idx' = hx_type idx" by blast
  with True show thesis by (intro that [of idx']) simp_all
next
  case False
  then have "hx_type idx = QIHSE_HASH_KEY_STRING" "length k > 255"
    by (cases "hx_type idx"; simp add: key_fits_def)+
  with that [of idx] False inv k show thesis by (simp add: qihse_hash_index_insert_def)
qed

lemma run_inv: "hx_run hash idx m \<Longrightarrow> hx_inv hash idx \<and> tbl_map (hx_table idx) = m"
proof (induction rule: hx_run.induct)
  case (created ty c idx)
  then show ?case using create_spec by blast
next
  case (inserted idx m key k row ok idx')
  then have inv: "hx_inv hash idx" and m: "tbl_map (hx_table idx) = m" by auto
  from insert_result [OF inv inserted.hyps(2,3), of row] inserted.hyps(4)
  show ?case by (metis Pair_inject m option.inject)
next
  case (deleted idx m key k res idx')
  then have inv: "hx_inv hash idx" and m: "tbl_map (hx_table idx) = m" by auto
  from delete_spec [OF inv deleted.hyps(2)] deleted.hyps(3)
  show ?case by (metis Pair_inject m option.inject)
qed

lemma size_map:
  assumes "hx_inv hash idx"
  shows "qihse_hash_index_size idx = of_nat (card (dom (tbl_map (hx_table idx))))"
proof -
  have "distinct (map fst (hx_entries (hx_table idx)))" using hx_invD(1) [OF assms] tbl_invD(2) by blast
  then have "card (dom (tbl_map (hx_table idx))) = length (hx_entries (hx_table idx))"
    unfolding tbl_map_def by (metis distinct_card dom_map_of_conv_image_fst length_map set_map)
  with hx_invD(3) [OF assms] show ?thesis by (simp add: qihse_hash_index_size_def)
qed


text \<open>
  C15: With allocations that succeed and a table of at most 2^60 slots, any sequence of inserts and
  deletes on a new hash index, for any hash function, implements a finite map. Every lookup returns,
  and returns what the map holds. The size is the number of keys. An insert returns true unless a
  string key is longer than 255 bytes, and a delete reports the row the map held.
\<close>
theorem hash_index_map:
  assumes "hx_run hash idx m" "length (hx_table idx) \<le> 2 ^ 60" "fixed_key (hx_type idx) key = Some k"
  shows "qihse_hash_index_lookup hash idx (Some key) = Some (m k) \<and>
    qihse_hash_index_size idx = of_nat (card (dom m)) \<and>
    (\<exists>idx'. qihse_hash_index_insert hash True idx (Some key) row = Some (key_fits (hx_type idx) k, idx') \<and>
       hx_run hash idx' (if key_fits (hx_type idx) k then m(k \<mapsto> row) else m)) \<and>
    (\<exists>idx'. qihse_hash_index_delete hash True idx (Some key) = Some (m k, idx') \<and> hx_run hash idx' (m(k := None)))"
proof -
  have inv: "hx_inv hash idx" and m: "tbl_map (hx_table idx) = m" using run_inv [OF assms(1)] by auto
  have "qihse_hash_index_lookup hash idx (Some key) = Some (m k)" using lookup_spec [OF inv assms(3)] m by simp
  moreover have "qihse_hash_index_size idx = of_nat (card (dom m))" using size_map [OF inv] m by simp
  moreover have "\<exists>idx'. qihse_hash_index_insert hash True idx (Some key) row = Some (key_fits (hx_type idx) k, idx') \<and>
      hx_run hash idx' (if key_fits (hx_type idx) k then m(k \<mapsto> row) else m)"
    using insert_result [OF inv assms(2,3), of row] hx_run.inserted [OF assms] by metis
  moreover have "\<exists>idx'. qihse_hash_index_delete hash True idx (Some key) = Some (m k, idx') \<and>
      hx_run hash idx' (m(k := None))"
    using delete_spec [OF inv assms(3)] hx_run.deleted [OF assms(1,3)] m by metis
  ultimately show ?thesis by blast
qed

theorem hash_index_map_witness:
  "\<exists>idx. qihse_hash_index_create True True QIHSE_HASH_KEY_STRING 16 = Some idx \<and>
     qihse_hash_index_lookup fnv_hash idx (Some [1, 2]) = Some None \<and>
     (\<exists>idx'. qihse_hash_index_insert fnv_hash True idx (Some [1, 2]) 7 = Some (True, idx'))"
proof -
  obtain idx where c: "qihse_hash_index_create True True QIHSE_HASH_KEY_STRING 16 = Some idx"
    by (simp add: qihse_hash_index_create_def Let_def)
  have "next_pow2 16 = 16" by code_simp
  with c have "length (hx_table idx) \<le> 2 ^ 60" and t: "hx_type idx = QIHSE_HASH_KEY_STRING"
    by (auto simp: qihse_hash_index_create_def table_init_def Let_def)
  moreover have "fixed_key (hx_type idx) [1, 2] = Some [1, 2]" using t by (simp add: fixed_key_def)
  moreover have "hx_run fnv_hash idx Map.empty" using c by (rule hx_run.created) simp
  ultimately show ?thesis using c hash_index_map [of fnv_hash idx Map.empty "[1, 2]" "[1, 2]" 7] t
    by (auto simp: key_fits_def)
qed

text \<open>
  C23: The probe loops return exactly when they can stop. On a table whose capacity is a power of two, a lookup
  or insert probe returns from every start if and only if some slot is empty or holds the key, and a rehash
  probe if and only if some slot is empty; otherwise the loop runs forever.
\<close>
theorem hash_probe_returns:
  assumes "pow2_table tbl" "i < length tbl"
  shows "(find_slot tbl key i \<noteq> None \<longleftrightarrow> (\<exists>s \<in> set tbl. stops s key)) \<and>
    (insert_probe tbl key row i None \<noteq> None \<longleftrightarrow> (\<exists>s \<in> set tbl. stops s key)) \<and>
    (rehash_slot tbl key row i \<noteq> None \<longleftrightarrow> SLOT_EMPTY \<in> set tbl)"
  using find_slot_returns [OF assms] insert_probe_returns [OF assms] rehash_slot_returns [OF assms] by blast

theorem hash_probe_returns_witness:
  "find_slot (replicate 16 SLOT_TOMBSTONE) [1] 3 = None \<and> find_slot [SLOT_OCCUPIED [1] 7, SLOT_TOMBSTONE] [1] 1 \<noteq> None"
proof -
  have "pow2_table (replicate 16 SLOT_TOMBSTONE)" "pow2_table [SLOT_OCCUPIED [1] 7, SLOT_TOMBSTONE]"
    unfolding pow2_table_def by (intro exI [of _ 4], simp) (intro exI [of _ 1], simp)
  then show ?thesis
    using hash_probe_returns [of "replicate 16 SLOT_TOMBSTONE" 3 "[1]"]
      hash_probe_returns [of "[SLOT_OCCUPIED [1] 7, SLOT_TOMBSTONE]" 1 "[1]"]
    by (simp add: stops_def holds_key_def)
qed

subsection \<open>After a failed resize\<close>

fun put_keys :: "hash_fun \<Rightarrow> bool \<Rightarrow> bytes list \<Rightarrow> hash_index \<Rightarrow> hash_index option" where
  "put_keys hash ok [] idx = Some idx"
| "put_keys hash ok (k # ks) idx =
     (case qihse_hash_index_insert hash ok idx (Some k) 0 of
        Some (True, idx') \<Rightarrow> put_keys hash ok ks idx'
      | _ \<Rightarrow> None)"

definition small_index :: "hash_fun \<Rightarrow> nat \<Rightarrow> nat \<Rightarrow> hash_index \<Rightarrow> bool" where
  "small_index hash e c idx \<longleftrightarrow> tbl_inv hash (hx_table idx) \<and> length (hx_table idx) = 16 \<and>
     hx_type idx = QIHSE_HASH_KEY_STRING \<and> tombs (hx_table idx) = 0 \<and> hx_tombstones idx = 0 \<and>
     length (hx_entries (hx_table idx)) = e \<and> hx_count idx = of_nat c"

lemma small_load: "small_index hash e c idx \<Longrightarrow> c < 16 \<Longrightarrow> load_exceeded idx \<longleftrightarrow> 10 < c"
proof -
  assume s: "small_index hash e c idx" and "c < 16"
  then have "unat (of_nat (c + 1) :: u64) = c + 1" by (simp add: unat_of_nat take_bit_nat_eq_self del: of_nat_add of_nat_Suc)
  with s show ?thesis by (auto simp: small_index_def load_exceeded_def add.commute)
qed

lemma small_put:
  assumes s: "small_index hash e c idx" and c: "e < 16" "c \<le> 10" and k: "length k \<le> 255" "tbl_map (hx_table idx) k = None"
  obtains idx' where "qihse_hash_index_insert hash ok idx (Some k) r = Some (True, idx')"
    "small_index hash (Suc e) (Suc c) idx'" "tbl_map (hx_table idx') = (tbl_map (hx_table idx))(k \<mapsto> r)"
proof -
  have load: "\<not> load_exceeded idx" using small_load [OF s] c(2) by simp
  have inv: "tbl_inv hash (hx_table idx)" using s by (simp add: small_index_def)
  have "length (hx_entries (hx_table idx)) + tombs (hx_table idx) < length (hx_table idx)"
    using s c(1) by (simp add: small_index_def)
  then obtain j where "j < length (hx_table idx)" "hx_table idx ! j = SLOT_EMPTY" using has_empty by blast
  from insert_probe_spec [OF inv this, of k r] obtain tbl added reused where t:
    "insert_probe (hx_table idx) k r (home_slot hash (length (hx_table idx)) k) None = Some (tbl, added, reused)"
    "tbl_inv hash tbl" "tbl_map tbl = (tbl_map (hx_table idx))(k \<mapsto> r)" "length tbl = length (hx_table idx)"
    "length (hx_entries tbl) = length (hx_entries (hx_table idx)) + of_bool added"
    "tombs (hx_table idx) = tombs tbl + of_bool reused" "added \<longleftrightarrow> tbl_map (hx_table idx) k = None" by metis
  then have a: "added" "\<not> reused" "tombs tbl = 0" using s k(2) by (auto simp: small_index_def)
  show thesis
    by (rule that [of "idx\<lparr>hx_table := tbl, hx_count := hx_count idx + 1\<rparr>"])
      (use s t a load k(1) in \<open>simp_all add: small_index_def qihse_hash_index_insert_def fixed_key_def hash_insert_internal_def\<close>)
qed

lemma small_put_keys:
  assumes "small_index hash e c idx" "e + length ks \<le> 16" "c + length ks \<le> 11"
    "distinct ks" "\<forall>k \<in> set ks. length k \<le> 255 \<and> tbl_map (hx_table idx) k = None"
  shows "\<exists>idx'. put_keys hash ok ks idx = Some idx' \<and> small_index hash (e + length ks) (c + length ks) idx' \<and>
    dom (tbl_map (hx_table idx')) = dom (tbl_map (hx_table idx)) \<union> set ks"
  using assms
proof (induction ks arbitrary: idx e c)
  case (Cons k ks)
  then have "e < 16" "c \<le> 10" "length k \<le> 255" "tbl_map (hx_table idx) k = None" by auto
  from small_put [OF Cons.prems(1) this, of ok 0] obtain idx' where p:
    "qihse_hash_index_insert hash ok idx (Some k) 0 = Some (True, idx')" "small_index hash (Suc e) (Suc c) idx'"
    "tbl_map (hx_table idx') = (tbl_map (hx_table idx))(k \<mapsto> 0)" .
  have "\<forall>k' \<in> set ks. length k' \<le> 255 \<and> tbl_map (hx_table idx') k' = None" using Cons.prems p(3) by auto
  from Cons.IH [OF p(2) _ _ _ this] Cons.prems p show ?case by auto
qed simp

definition byte_keys :: "nat \<Rightarrow> nat \<Rightarrow> bytes list" where
  "byte_keys i j = map (\<lambda>n. [of_nat n]) [i ..< j]"

lemma small_created:
  assumes "qihse_hash_index_create True True QIHSE_HASH_KEY_STRING 16 = Some idx"
  shows "small_index hash 0 0 idx" "tbl_map (hx_table idx) = Map.empty"
proof -
  have "next_pow2 16 = 16" by code_simp
  then have "idx = \<lparr>hx_type = QIHSE_HASH_KEY_STRING, hx_table = replicate (2 ^ 4) SLOT_EMPTY, hx_count = 0, hx_tombstones = 0\<rparr>"
    using assms by (simp add: qihse_hash_index_create_def table_init_def Let_def)
  then show "small_index hash 0 0 idx" "tbl_map (hx_table idx) = Map.empty"
    using tbl_inv_replicate [of hash 4] by (simp_all add: small_index_def tbl_map_def)
qed

lemma small_full:
  assumes "small_index hash 16 c idx" "tbl_map (hx_table idx) k = None"
  shows "qihse_hash_index_lookup hash idx (Some k) = None"
proof -
  have inv: "tbl_inv hash (hx_table idx)" and full: "length (hx_entries (hx_table idx)) = length (hx_table idx)"
    and ty: "hx_type idx = QIHSE_HASH_KEY_STRING" using assms(1) by (simp_all add: small_index_def)
  have "length (filter (\<lambda>s. s = SLOT_EMPTY) (hx_table idx)) = 0" using table_count [of "hx_table idx"] full by simp
  then have "\<forall>s \<in> set (hx_table idx). \<not> stops s k"
    using tbl_map_iff [OF inv, of k] assms(2)
    by (auto simp: stops_def holds_key_def filter_empty_conv in_set_conv_nth)
  then have "find_slot (hx_table idx) k (home_slot hash (length (hx_table idx)) k) = None"
    using find_slot_returns [OF tbl_invD(1) [OF inv] home_slot_less [OF tbl_invD(1) [OF inv]]] by blast
  with ty show ?thesis by (simp add: qihse_hash_index_lookup_def fixed_key_def)
qed

text \<open>
  C38: A failed resize resets the counters of a table that keeps its entries. On an index of capacity 16
  holding eleven keys, an insert whose allocation fails returns false and leaves a size of 0. Five more
  inserts then succeed with no resize although the table is full, and a lookup of an absent key
  never returns, for any hash function.
\<close>
theorem hash_failed_resize_hangs:
  "\<exists>idx0 idx1 idx2 idx3.
     qihse_hash_index_create True True QIHSE_HASH_KEY_STRING 16 = Some idx0 \<and>
     put_keys hash True (byte_keys 0 11) idx0 = Some idx1 \<and>
     qihse_hash_index_insert hash False idx1 (Some [11]) 0 = Some (False, idx2) \<and>
     hx_table idx2 = hx_table idx1 \<and> qihse_hash_index_size idx2 = 0 \<and>
     put_keys hash True (byte_keys 12 17) idx2 = Some idx3 \<and>
     qihse_hash_index_lookup hash idx3 (Some [99]) = None"
proof -
  obtain idx0 where c: "qihse_hash_index_create True True QIHSE_HASH_KEY_STRING 16 = Some idx0"
    by (simp add: qihse_hash_index_create_def Let_def)
  have s0: "small_index hash 0 0 idx0" "tbl_map (hx_table idx0) = Map.empty" using small_created [OF c] by blast+
  have "distinct (byte_keys 0 11)" "length (byte_keys 0 11) = 11" "\<forall>k \<in> set (byte_keys 0 11). length k \<le> 255"
    by (simp_all add: byte_keys_def upt_rec)
  with small_put_keys [OF s0(1), of "byte_keys 0 11" True] s0(2) obtain idx1 where i1:
    "put_keys hash True (byte_keys 0 11) idx0 = Some idx1" "small_index hash 11 11 idx1"
    "dom (tbl_map (hx_table idx1)) = set (byte_keys 0 11)" by auto
  let ?i2 = "idx1\<lparr>hx_count := 0, hx_tombstones := 0\<rparr>"
  have i2: "qihse_hash_index_insert hash False idx1 (Some [11]) 0 = Some (False, ?i2)" "small_index hash 11 0 ?i2"
    using i1(2) small_load [OF i1(2)]
    by (simp_all add: qihse_hash_index_insert_def fixed_key_def table_resize_def table_init_def small_index_def)
  have k2: "distinct (byte_keys 12 17)" "length (byte_keys 12 17) = 5"
    "\<forall>k \<in> set (byte_keys 12 17). length k \<le> 255 \<and> k \<notin> set (byte_keys 0 11)"
    by (simp_all add: byte_keys_def upt_rec)
  then have "\<forall>k \<in> set (byte_keys 12 17). length k \<le> 255 \<and> tbl_map (hx_table ?i2) k = None"
    using i1(3) by (auto simp: domIff)
  with small_put_keys [OF i2(2), of "byte_keys 12 17" True] k2 obtain idx3 where i3:
    "put_keys hash True (byte_keys 12 17) ?i2 = Some idx3" "small_index hash 16 5 idx3"
    "dom (tbl_map (hx_table idx3)) = set (byte_keys 0 11) \<union> set (byte_keys 12 17)" using i1(3) by auto
  have "[99] \<notin> set (byte_keys 0 11) \<union> set (byte_keys 12 17)" by (simp add: byte_keys_def upt_rec)
  then have "qihse_hash_index_lookup hash idx3 (Some [99]) = None"
    using small_full [OF i3(2)] i3(3) by blast
  with c i1(1) i2(1) i3(1) show ?thesis by (intro exI [of _ idx0] exI [of _ idx1] exI [of _ ?i2] exI [of _ idx3])
    (simp add: qihse_hash_index_size_def)
qed

end
