(* ===== verification/IndexManager.thy ===== *)
theory IndexManager
  imports BtreeProps HashProps
begin

section \<open>The index manager\<close>

text \<open>
  Model of \<^verbatim>\<open>src/frieze/qihse_index_manager.c\<close>: the indexes of a table in a linked list, the keys they
  take from a row, and the operations that apply a row to every index.

  Conventions. The list is the chain from \<open>head\<close>. A column value is a pointer to memory, which is the
  bytes that can be read there or \<open>None\<close> for a null pointer, with its length argument. A result of
  \<open>None\<close> is a call that does not return or reads memory that is not there. The record \<open>idx_env\<close> holds
  the outcomes of the allocations. The callbacks of a wrapped index are functions on the value behind its
  handle, and every handle is a value of its own. Freeing memory and the lock have no counterpart.
\<close>

datatype index_type =
    QIHSE_INDEX_BTREE | QIHSE_INDEX_HASH | QIHSE_INDEX_VECTOR_HNSW | QIHSE_INDEX_FTS_INVERTED | INDEX_OTHER

datatype idx_col_type =
    QIHSE_IDX_COL_INT32 | QIHSE_IDX_COL_INT64 | QIHSE_IDX_COL_FLOAT64 | QIHSE_IDX_COL_STRING | IDX_COL_OTHER

record idx_col_def =
  def_type :: idx_col_type
  def_name :: bytes

type_synonym col_value = "bytes option \<times> nat"

record 'w index_wrapper_vtbl =
  create_fn :: "(unit \<Rightarrow> 'w option) option"
  insert_fn :: "('w \<Rightarrow> u64 \<Rightarrow> col_value \<Rightarrow> bool \<times> 'w) option"
  delete_fn :: "('w \<Rightarrow> u64 \<Rightarrow> bool \<times> 'w) option"

record 'w qindex =
  ix_name :: bytes
  ix_type :: index_type
  ix_cols :: "idx_col_def list"
  ix_btree :: "btree option"
  ix_hash :: "hash_index option"
  ix_wrapped :: "'w option"
  ix_vtbl :: "'w index_wrapper_vtbl"

record 'w index_manager =
  im_head :: "'w qindex list"
  im_count :: u64

record idx_env =
  ok_index :: bool
  ok_cols :: bool
  ok_key_cols :: bool
  ok_key_buf :: bool
  ok_hash_index :: bool
  ok_hash_table :: bool
  tree_env :: bt_env

subsection \<open>Registration\<close>

definition qihse_index_manager_create :: "bool \<Rightarrow> 'w index_manager option" where
  "qihse_index_manager_create ok = (if \<not> ok then None else Some \<lparr>im_head = [], im_count = 0\<rparr>)"

definition no_vtbl :: "'w index_wrapper_vtbl" where
  "no_vtbl = \<lparr>create_fn = None, insert_fn = None, delete_fn = None\<rparr>"

definition index_alloc ::
    "idx_env \<Rightarrow> bytes option \<Rightarrow> index_type \<Rightarrow> idx_col_def list \<Rightarrow> 'w qindex option" where
  "index_alloc env name ty cols =
     (if \<not> ok_index env then None
      else if 0 < length cols \<and> \<not> ok_cols env then None
      else Some \<lparr>ix_name = take 127 (case name of None \<Rightarrow> [] | Some s \<Rightarrow> s), ix_type = ty, ix_cols = cols,
                 ix_btree = None, ix_hash = None, ix_wrapped = None, ix_vtbl = no_vtbl\<rparr>)"

definition manager_link :: "'w index_manager \<Rightarrow> 'w qindex \<Rightarrow> 'w index_manager" where
  "manager_link mgr idx = mgr\<lparr>im_head := idx # im_head mgr, im_count := im_count mgr + 1\<rparr>"

definition qihse_index_manager_add_btree ::
    "idx_env \<Rightarrow> 'w index_manager \<Rightarrow> bytes option \<Rightarrow> idx_col_def list \<Rightarrow> u32 \<Rightarrow>
     'w qindex option \<times> 'w index_manager" where
  "qihse_index_manager_add_btree env mgr name cols fanout =
     (case index_alloc env name QIHSE_INDEX_BTREE cols of
        None \<Rightarrow> (None, mgr)
      | Some idx \<Rightarrow>
          (case qihse_btree_create (tree_env env) fanout of
             None \<Rightarrow> (None, mgr)
           | Some t \<Rightarrow>
               let idx1 = idx\<lparr>ix_btree := Some t\<rparr> in (Some idx1, manager_link mgr idx1)))"

definition single_int64 :: "idx_col_def list \<Rightarrow> bool" where
  "single_int64 cols \<longleftrightarrow> length cols = 1 \<and> def_type (cols ! 0) = QIHSE_IDX_COL_INT64"

definition qihse_index_manager_add_hash ::
    "idx_env \<Rightarrow> 'w index_manager \<Rightarrow> bytes option \<Rightarrow> idx_col_def list \<Rightarrow> u64 \<Rightarrow>
     'w qindex option \<times> 'w index_manager" where
  "qihse_index_manager_add_hash env mgr name cols initial_capacity =
     (case index_alloc env name QIHSE_INDEX_HASH cols of
        None \<Rightarrow> (None, mgr)
      | Some idx \<Rightarrow>
          let kt = (if single_int64 cols then QIHSE_HASH_KEY_INT64 else QIHSE_HASH_KEY_STRING) in
          (case qihse_hash_index_create (ok_hash_index env) (ok_hash_table env) kt initial_capacity of
             None \<Rightarrow> (None, mgr)
           | Some h \<Rightarrow>
               let idx1 = idx\<lparr>ix_hash := Some h\<rparr> in (Some idx1, manager_link mgr idx1)))"

definition qihse_index_manager_add_wrapped ::
    "idx_env \<Rightarrow> 'w index_manager \<Rightarrow> bytes option \<Rightarrow> index_type \<Rightarrow> idx_col_def list \<Rightarrow>
     'w index_wrapper_vtbl option \<Rightarrow> 'w qindex option \<times> 'w index_manager" where
  "qihse_index_manager_add_wrapped env mgr name ty cols vtbl =
     (case vtbl of
        None \<Rightarrow> (None, mgr)
      | Some vt \<Rightarrow>
          (case create_fn vt of
             None \<Rightarrow> (None, mgr)
           | Some create \<Rightarrow>
               if ty \<noteq> QIHSE_INDEX_VECTOR_HNSW \<and> ty \<noteq> QIHSE_INDEX_FTS_INVERTED then (None, mgr)
               else
                 (case index_alloc env name ty cols of
                    None \<Rightarrow> (None, mgr)
                  | Some idx \<Rightarrow>
                      (case create () of
                         None \<Rightarrow> (None, mgr)
                       | Some w \<Rightarrow>
                           let idx1 = idx\<lparr>ix_vtbl := vt, ix_wrapped := Some w\<rparr>
                           in (Some idx1, manager_link mgr idx1)))))"

subsection \<open>Finding and dropping\<close>

definition qihse_index_manager_find :: "'w index_manager \<Rightarrow> bytes option \<Rightarrow> 'w qindex option" where
  "qihse_index_manager_find mgr name =
     (case name of None \<Rightarrow> None | Some s \<Rightarrow> find (\<lambda>cur. ix_name cur = s) (im_head mgr))"

primrec unlink_first :: "bytes \<Rightarrow> 'w qindex list \<Rightarrow> 'w qindex list option" where
  "unlink_first name [] = None"
| "unlink_first name (cur # next) =
     (if ix_name cur = name then Some next else map_option ((#) cur) (unlink_first name next))"

definition qihse_index_manager_drop :: "'w index_manager \<Rightarrow> bytes option \<Rightarrow> bool \<times> 'w index_manager" where
  "qihse_index_manager_drop mgr name =
     (case name of
        None \<Rightarrow> (False, mgr)
      | Some s \<Rightarrow>
          (case unlink_first s (im_head mgr) of
             None \<Rightarrow> (False, mgr)
           | Some rest \<Rightarrow> (True, mgr\<lparr>im_head := rest, im_count := im_count mgr - 1\<rparr>)))"

definition qihse_index_manager_count :: "'w index_manager \<Rightarrow> u64" where
  "qihse_index_manager_count mgr = im_count mgr"

subsection \<open>Keys\<close>

definition to_btree_col_type :: "idx_col_type \<Rightarrow> idx_col_type" where
  "to_btree_col_type t = (case t of IDX_COL_OTHER \<Rightarrow> QIHSE_IDX_COL_INT64 | _ \<Rightarrow> t)"

text \<open>Reading a typed value through a column pointer.\<close>

definition read_mem :: "nat \<Rightarrow> bytes option \<Rightarrow> bytes option" where
  "read_mem n p =
     (case p of
        None \<Rightarrow> if n = 0 then Some [] else None
      | Some bs \<Rightarrow> if length bs < n then None else Some (take n bs))"

definition bcol :: "idx_col_type \<Rightarrow> col_value \<Rightarrow> bt_col option" where
  "bcol t v =
     (case to_btree_col_type t of
        QIHSE_IDX_COL_INT32 \<Rightarrow> map_option (\<lambda>bs. ColInt32 (le_word bs)) (read_mem 4 (fst v))
      | QIHSE_IDX_COL_INT64 \<Rightarrow> map_option (\<lambda>bs. ColInt64 (le_word bs)) (read_mem 8 (fst v))
      | QIHSE_IDX_COL_FLOAT64 \<Rightarrow> map_option (\<lambda>bs. ColFloat64 (le_word bs)) (read_mem 8 (fst v))
      | QIHSE_IDX_COL_STRING \<Rightarrow> map_option ColString (read_mem (snd v) (fst v))
      | IDX_COL_OTHER \<Rightarrow> Some ColOther)"

fun bcols :: "idx_col_def list \<Rightarrow> col_value list \<Rightarrow> bt_col list option" where
  "bcols (d # ds) (v # vs) =
     (case (bcol (def_type d) v, bcols ds vs) of (Some c, Some cs) \<Rightarrow> Some (c # cs) | _ \<Rightarrow> None)"
| "bcols _ _ = Some []"

text \<open>The inner option is the key, or \<open>None\<close> when the function returns false.\<close>

definition serialize_index_key :: "idx_env \<Rightarrow> 'w qindex \<Rightarrow> col_value list \<Rightarrow> bytes option option" where
  "serialize_index_key env idx vals =
     (if length vals \<noteq> length (ix_cols idx) then Some None
      else if \<not> ok_key_cols env then Some None
      else
        (case bcols (ix_cols idx) vals of
           None \<Rightarrow> if ok_key_buf env then None else Some None
         | Some cs \<Rightarrow>
             (case qihse_btree_serialize_key_alloc (ok_key_buf env) (Some cs) of
                (rc, key) \<Rightarrow> Some (if rc = 0 then key else None))))"

text \<open>
  The key given to a hash index: the memory behind the first column for a single \<open>int64\<close> column, the
  serialized columns otherwise. The outer option is as above; the pointer in the inner one may be null.
\<close>

definition hash_index_key :: "idx_env \<Rightarrow> 'w qindex \<Rightarrow> col_value list \<Rightarrow> bytes option option option" where
  "hash_index_key env idx vals =
     (if single_int64 (ix_cols idx)
      then (case vals of [] \<Rightarrow> None | v # _ \<Rightarrow> Some (Some (fst v)))
      else
        (case serialize_index_key env idx vals of
           None \<Rightarrow> None
         | Some None \<Rightarrow> Some None
         | Some (Some k) \<Rightarrow> Some (Some (Some k))))"

subsection \<open>Operations on one index\<close>

definition qihse_index_insert ::
    "hash_fun \<Rightarrow> idx_env \<Rightarrow> 'w qindex \<Rightarrow> u64 \<Rightarrow> col_value list option \<Rightarrow> (bool \<times> 'w qindex) option" where
  "qihse_index_insert hash env idx row_id col_values =
     (case col_values of
        None \<Rightarrow> Some (False, idx)
      | Some vals \<Rightarrow>
          (case ix_type idx of
             QIHSE_INDEX_BTREE \<Rightarrow>
               (case serialize_index_key env idx vals of
                  None \<Rightarrow> None
                | Some None \<Rightarrow> Some (False, idx)
                | Some (Some key) \<Rightarrow>
                    (case ix_btree idx of
                       None \<Rightarrow> Some (False, idx)
                     | Some t \<Rightarrow>
                         map_option (\<lambda>(ok, t'). (ok, idx\<lparr>ix_btree := Some t'\<rparr>))
                           (qihse_btree_insert (tree_env env) t (Some key) row_id)))
           | QIHSE_INDEX_HASH \<Rightarrow>
               (case hash_index_key env idx vals of
                  None \<Rightarrow> None
                | Some None \<Rightarrow> Some (False, idx)
                | Some (Some key) \<Rightarrow>
                    (case ix_hash idx of
                       None \<Rightarrow> Some (False, idx)
                     | Some h \<Rightarrow>
                         map_option (\<lambda>(ok, h'). (ok, idx\<lparr>ix_hash := Some h'\<rparr>))
                           (qihse_hash_index_insert hash (ok_hash_table env) h key row_id)))
           | INDEX_OTHER \<Rightarrow> Some (False, idx)
           | _ \<Rightarrow>
               (case (insert_fn (ix_vtbl idx), ix_wrapped idx) of
                  (Some f, Some w) \<Rightarrow>
                    (case f w row_id (if 0 < length vals then vals ! 0 else (None, 0)) of
                       (ok, w') \<Rightarrow> Some (ok, idx\<lparr>ix_wrapped := Some w'\<rparr>))
                | (None, _) \<Rightarrow> Some (False, idx)
                | _ \<Rightarrow> None)))"

definition qihse_index_delete ::
    "hash_fun \<Rightarrow> idx_env \<Rightarrow> 'w qindex \<Rightarrow> u64 \<Rightarrow> col_value list option \<Rightarrow> (bool \<times> 'w qindex) option" where
  "qihse_index_delete hash env idx row_id col_values =
     (case col_values of
        None \<Rightarrow> Some (False, idx)
      | Some vals \<Rightarrow>
          (case ix_type idx of
             QIHSE_INDEX_BTREE \<Rightarrow>
               (case serialize_index_key env idx vals of
                  None \<Rightarrow> None
                | Some None \<Rightarrow> Some (False, idx)
                | Some (Some key) \<Rightarrow>
                    (case ix_btree idx of
                       None \<Rightarrow> Some (False, idx)
                     | Some t \<Rightarrow>
                         (case qihse_btree_delete t (Some key) of
                            (row, t') \<Rightarrow> Some (row \<noteq> None, idx\<lparr>ix_btree := Some t'\<rparr>))))
           | QIHSE_INDEX_HASH \<Rightarrow>
               (case hash_index_key env idx vals of
                  None \<Rightarrow> None
                | Some None \<Rightarrow> Some (False, idx)
                | Some (Some key) \<Rightarrow>
                    (case ix_hash idx of
                       None \<Rightarrow> Some (False, idx)
                     | Some h \<Rightarrow>
                         map_option (\<lambda>(row, h'). (row \<noteq> None, idx\<lparr>ix_hash := Some h'\<rparr>))
                           (qihse_hash_index_delete hash (ok_hash_table env) h key)))
           | INDEX_OTHER \<Rightarrow> Some (False, idx)
           | _ \<Rightarrow>
               (case (delete_fn (ix_vtbl idx), ix_wrapped idx) of
                  (Some f, Some w) \<Rightarrow> (case f w row_id of (ok, w') \<Rightarrow> Some (ok, idx\<lparr>ix_wrapped := Some w'\<rparr>))
                | (None, _) \<Rightarrow> Some (False, idx)
                | _ \<Rightarrow> None)))"

subsection \<open>Rows\<close>

text \<open>
  The loop over the chain: every index is visited whatever the earlier ones return. \<open>env i\<close> are the
  allocations of the \<open>i\<close>-th index.
\<close>

primrec each_index ::
    "(idx_env \<Rightarrow> 'w qindex \<Rightarrow> (bool \<times> 'w qindex) option) \<Rightarrow> (nat \<Rightarrow> idx_env) \<Rightarrow> nat \<Rightarrow> 'w qindex list \<Rightarrow>
     (bool \<times> 'w qindex list) option" where
  "each_index f env i [] = Some (True, [])"
| "each_index f env i (cur # next) =
     (case f (env i) cur of
        None \<Rightarrow> None
      | Some (ok, cur') \<Rightarrow>
          (case each_index f env (Suc i) next of
             None \<Rightarrow> None
           | Some (ok', next') \<Rightarrow> Some (ok \<and> ok', cur' # next')))"

definition qihse_index_manager_insert_row ::
    "hash_fun \<Rightarrow> (nat \<Rightarrow> idx_env) \<Rightarrow> 'w index_manager \<Rightarrow> u64 \<Rightarrow> col_value list option \<Rightarrow>
     (bool \<times> 'w index_manager) option" where
  "qihse_index_manager_insert_row hash env mgr row_id col_values =
     map_option (\<lambda>(ok, l). (ok, mgr\<lparr>im_head := l\<rparr>))
       (each_index (\<lambda>e cur. qihse_index_insert hash e cur row_id col_values) env 0 (im_head mgr))"

definition qihse_index_manager_delete_row ::
    "hash_fun \<Rightarrow> (nat \<Rightarrow> idx_env) \<Rightarrow> 'w index_manager \<Rightarrow> u64 \<Rightarrow> col_value list option \<Rightarrow>
     (bool \<times> 'w index_manager) option" where
  "qihse_index_manager_delete_row hash env mgr row_id col_values =
     map_option (\<lambda>(ok, l). (ok, mgr\<lparr>im_head := l\<rparr>))
       (each_index (\<lambda>e cur. qihse_index_delete hash e cur row_id col_values) env 0 (im_head mgr))"

subsection \<open>Bulk load\<close>

text \<open>
  \<open>qsort\<close> is a parameter: the order in which the standard leaves entries that compare equal is not
  specified. \<open>env i\<close> are the allocations of the \<open>i\<close>-th insert.
\<close>

type_synonym bulk_entry = "u64 \<times> bytes"

definition bulk_cmp :: "bulk_entry \<Rightarrow> bulk_entry \<Rightarrow> int" where
  "bulk_cmp ea eb =
     (let n = (if length (snd ea) < length (snd eb) then length (snd ea) else length (snd eb));
          c = (if n \<noteq> 0 then memcmp (take n (snd ea)) (take n (snd eb)) else 0)
      in
        if c \<noteq> 0 then c
        else if length (snd ea) < length (snd eb) then -1
        else if length (snd ea) > length (snd eb) then 1
        else 0)"

primrec bulk_insert :: "(nat \<Rightarrow> bt_env) \<Rightarrow> nat \<Rightarrow> bulk_entry list \<Rightarrow> btree \<Rightarrow> (bool \<times> btree) option" where
  "bulk_insert env i [] t = Some (True, t)"
| "bulk_insert env i (e # es) t =
     (case qihse_btree_insert (env i) t (Some (snd e)) (fst e) of
        None \<Rightarrow> None
      | Some (False, t') \<Rightarrow> Some (False, t')
      | Some (True, t') \<Rightarrow> bulk_insert env (Suc i) es t')"

definition qihse_index_bulk_load ::
    "((bulk_entry \<Rightarrow> bulk_entry \<Rightarrow> int) \<Rightarrow> bulk_entry list \<Rightarrow> bulk_entry list) \<Rightarrow> (nat \<Rightarrow> bt_env) \<Rightarrow> bool \<Rightarrow>
     'w qindex \<Rightarrow> bulk_entry list \<Rightarrow> (bool \<times> 'w qindex) option" where
  "qihse_index_bulk_load qsort env ok_entries idx rows =
     (if ix_type idx \<noteq> QIHSE_INDEX_BTREE
      then
        (case ix_btree idx of
           None \<Rightarrow> Some (rows = [], idx)
         | Some t \<Rightarrow> map_option (\<lambda>(ok, t'). (ok, idx\<lparr>ix_btree := Some t'\<rparr>)) (bulk_insert env 0 rows t))
      else if \<not> ok_entries then Some (False, idx)
      else
        (case ix_btree idx of
           None \<Rightarrow> Some (rows = [], idx)
         | Some t \<Rightarrow>
             map_option (\<lambda>(ok, t'). (ok, idx\<lparr>ix_btree := Some t'\<rparr>))
               (bulk_insert env 0 (qsort bulk_cmp rows) t)))"

end
