(* ===== verification/IndexProps.thy ===== *)
theory IndexProps
  imports IndexManager "HOL-Library.Multiset"
begin

section \<open>Properties of the index manager\<close>

text \<open>
  The locale \<open>point_index\<close> is what the manager relies on in the structures it manages; it is interpreted on the
  B+ tree and on the hash index. Each index is then a map from keys to rows (\<open>ix_map\<close>), and the operations on rows
  change the maps of all indexes of a reachable manager in the same way.
\<close>

subsection \<open>The interface of a point index\<close>

locale point_index =
  fixes put :: "'s \<Rightarrow> bytes \<Rightarrow> u64 \<Rightarrow> (bool \<times> 's) option"
    and del :: "'s \<Rightarrow> bytes \<Rightarrow> (u64 option \<times> 's) option"
    and get :: "'s \<Rightarrow> bytes \<Rightarrow> u64 option option"
    and view :: "'s \<Rightarrow> (bytes \<rightharpoonup> u64)"
    and inv :: "'s \<Rightarrow> bool"
    and key_ok :: "'s \<Rightarrow> bytes \<Rightarrow> bool"
    and room :: "'s \<Rightarrow> bytes \<Rightarrow> bool"
  assumes put_ok: "inv s \<Longrightarrow> key_ok s k \<Longrightarrow> room s k \<Longrightarrow>
      \<exists>s'. put s k r = Some (True, s') \<and> inv s' \<and> view s' = (view s)(k \<mapsto> r) \<and> key_ok s' = key_ok s"
    and del_ok: "inv s \<Longrightarrow> key_ok s k \<Longrightarrow>
      \<exists>s'. del s k = Some (view s k, s') \<and> inv s' \<and> view s' = (view s)(k := None) \<and> key_ok s' = key_ok s"
    and get_ok: "inv s \<Longrightarrow> key_ok s k \<Longrightarrow> get s k = Some (view s k)"
begin

lemma put_get:
  assumes "inv s" "key_ok s k" "room s k" "put s k r = Some (ok, s')"
  shows "ok \<and> get s' k = Some (Some r)"
proof -
  obtain s1 where "put s k r = Some (True, s1)" "inv s1" "view s1 = (view s)(k \<mapsto> r)" "key_ok s1 = key_ok s"
    using put_ok [OF assms(1-3)] by blast
  with assms(2,4) get_ok [of s1 k] show ?thesis by simp
qed

lemma del_get:
  assumes "inv s" "key_ok s k" "del s k = Some (res, s')"
  shows "res = view s k \<and> get s' k = Some None"
proof -
  obtain s1 where "del s k = Some (view s k, s1)" "inv s1" "view s1 = (view s)(k := None)" "key_ok s1 = key_ok s"
    using del_ok [OF assms(1,2)] by blast
  with assms(2,3) get_ok [of s1 k] show ?thesis by simp
qed

lemma shared_key:
  assumes "inv s" "key_ok s k" "\<And>s. inv s \<Longrightarrow> room s k"
  obtains s1 s2 s3 where "put s k r1 = Some (True, s1)" "put s1 k r2 = Some (True, s2)" "get s2 k = Some (Some r2)"
    "del s2 k = Some (Some r2, s3)" "get s3 k = Some None"
proof -
  obtain s1 where s1: "put s k r1 = Some (True, s1)" "inv s1" "key_ok s1 = key_ok s"
    using put_ok [OF assms(1,2,3)] assms(1) by blast
  obtain s2 where s2: "put s1 k r2 = Some (True, s2)" "inv s2" "view s2 = (view s1)(k \<mapsto> r2)" "key_ok s2 = key_ok s1"
    using put_ok [of s1 k r2] s1 assms(2,3) by auto
  have g: "get s2 k = Some (Some r2)" using get_ok [of s2 k] s1(3) s2 assms(2) by simp
  obtain s3 where s3: "del s2 k = Some (view s2 k, s3)" using del_ok [of s2 k] s1(3) s2 assms(2) by auto
  with del_get [of s2 k "view s2 k" s3] s1(3) s2 assms(2) have "get s3 k = Some None" by simp
  with s1(1) s2 s3 g show thesis by (intro that) simp_all
qed

end

lemma btree_delete_map:
  assumes "index_ok t"
  shows "\<exists>t'. qihse_btree_delete t (Some k) = (map_of (bt_view t) k, t') \<and> index_ok t' \<and>
    map_of (bt_view t') = (map_of (bt_view t))(k := None)"
proof -
  obtain res t' where d: "qihse_btree_delete t (Some k) = (res, t')" by (metis surj_pair)
  have "res = map_of (bt_view t) k" using delete_view(1) [OF _ d] assms by (simp add: index_ok_def)
  moreover have "t' = bt_remove k t" using d by (simp add: bt_remove_def)
  ultimately show ?thesis using d remove_facts [OF assms, of k] by (simp add: map_of_del_list)
qed

interpretation tree: point_index "\<lambda>t k r. qihse_btree_insert ok_env t (Some k) r" "\<lambda>t k. Some (qihse_btree_delete t (Some k))"
    "\<lambda>t k. Some (qihse_btree_lookup t (Some k))" "\<lambda>t. map_of (bt_view t)" index_ok "\<lambda>t k. True" "\<lambda>t k. length k \<le> 236"
proof unfold_locales
  fix t :: btree and k :: bytes and r :: u64
  assume t: "index_ok t" and "length k \<le> 236"
  with put_facts [of t k r] bt.inv_ordered [OF t]
  show "\<exists>t'. qihse_btree_insert ok_env t (Some k) r = Some (True, t') \<and> index_ok t' \<and>
      map_of (bt_view t') = (map_of (bt_view t))(k \<mapsto> r) \<and> (\<lambda>k. True) = (\<lambda>k. True)"
    by (simp add: map_of_ins_list)
next
  fix t :: btree and k :: bytes
  assume "index_ok t"
  from btree_delete_map [OF this, of k]
  show "\<exists>t'. Some (qihse_btree_delete t (Some k)) = Some (map_of (bt_view t) k, t') \<and> index_ok t' \<and>
      map_of (bt_view t') = (map_of (bt_view t))(k := None) \<and> (\<lambda>k. True) = (\<lambda>k. True)" by auto
qed (simp add: bt.get_view)

lemma fixed_idem: "fixed_key ty key = Some k \<Longrightarrow> fixed_key ty k = Some k"
  by (auto simp: fixed_key_def split: hash_key_type.splits if_splits)

interpretation table: point_index "\<lambda>h k r. qihse_hash_index_insert hash True h (Some k) r"
    "\<lambda>h k. qihse_hash_index_delete hash True h (Some k)" "\<lambda>h k. qihse_hash_index_lookup hash h (Some k)"
    "\<lambda>h. tbl_map (hx_table h)" "hx_inv hash" "\<lambda>h k. fixed_key (hx_type h) k = Some k"
    "\<lambda>h k. key_fits (hx_type h) k \<and> length (hx_table h) \<le> 2 ^ 60" for hash
proof unfold_locales
  fix h :: hash_index and k :: bytes and r :: u64
  assume inv: "hx_inv hash h" and k: "fixed_key (hx_type h) k = Some k"
    and room: "key_fits (hx_type h) k \<and> length (hx_table h) \<le> 2 ^ 60"
  then have "hx_type h = QIHSE_HASH_KEY_STRING \<Longrightarrow> length k \<le> 255" by (auto simp: key_fits_def)
  with insert_spec [OF inv _ k, of r] room obtain h' where "qihse_hash_index_insert hash True h (Some k) r = Some (True, h')"
    "hx_inv hash h'" "tbl_map (hx_table h') = (tbl_map (hx_table h))(k \<mapsto> r)" "hx_type h' = hx_type h" by blast
  then show "\<exists>h'. qihse_hash_index_insert hash True h (Some k) r = Some (True, h') \<and> hx_inv hash h' \<and>
      tbl_map (hx_table h') = (tbl_map (hx_table h))(k \<mapsto> r) \<and>
      (\<lambda>k. fixed_key (hx_type h') k = Some k) = (\<lambda>k. fixed_key (hx_type h) k = Some k)" by simp
next
  fix h :: hash_index and k :: bytes
  assume inv: "hx_inv hash h" and k: "fixed_key (hx_type h) k = Some k"
  from delete_spec [OF this] obtain h' where "qihse_hash_index_delete hash True h (Some k) = Some (tbl_map (hx_table h) k, h')"
    "hx_inv hash h'" "tbl_map (hx_table h') = (tbl_map (hx_table h))(k := None)" "hx_type h' = hx_type h" .
  then show "\<exists>h'. qihse_hash_index_delete hash True h (Some k) = Some (tbl_map (hx_table h) k, h') \<and> hx_inv hash h' \<and>
      tbl_map (hx_table h') = (tbl_map (hx_table h))(k := None) \<and>
      (\<lambda>k. fixed_key (hx_type h') k = Some k) = (\<lambda>k. fixed_key (hx_type h) k = Some k)" by simp
qed (rule lookup_spec)

subsection \<open>One index as a map\<close>

definition good_env :: idx_env where
  "good_env = \<lparr>ok_index = True, ok_cols = True, ok_key_cols = True, ok_key_buf = True,
     ok_hash_index = True, ok_hash_table = True, tree_env = ok_env\<rparr>"

lemma good_env_simps [simp]:
  "ok_index good_env" "ok_cols good_env" "ok_key_cols good_env" "ok_key_buf good_env"
  "ok_hash_index good_env" "ok_hash_table good_env" "tree_env good_env = ok_env"
  by (simp_all add: good_env_def)

abbreviation raw_key :: "'w qindex \<Rightarrow> bool" where
  "raw_key idx \<equiv> ix_type idx = QIHSE_INDEX_HASH \<and> single_int64 (ix_cols idx)"

abbreviation kt_of :: "'w qindex \<Rightarrow> hash_key_type" where
  "kt_of idx \<equiv> (if single_int64 (ix_cols idx) then QIHSE_HASH_KEY_INT64 else QIHSE_HASH_KEY_STRING)"

definition ix_good :: "hash_fun \<Rightarrow> 'w qindex \<Rightarrow> bool" where
  "ix_good hash idx \<longleftrightarrow>
     ix_type idx = QIHSE_INDEX_BTREE \<and> (\<exists>t. ix_btree idx = Some t \<and> index_ok t) \<or>
     ix_type idx = QIHSE_INDEX_HASH \<and> (\<exists>h. ix_hash idx = Some h \<and> hx_inv hash h \<and> hx_type h = kt_of idx)"

definition ix_map :: "'w qindex \<Rightarrow> (bytes \<rightharpoonup> u64)" where
  "ix_map idx =
     (if ix_type idx = QIHSE_INDEX_BTREE then map_of (bt_view (the (ix_btree idx)))
      else tbl_map (hx_table (the (ix_hash idx))))"

definition ix_lookup :: "hash_fun \<Rightarrow> 'w qindex \<Rightarrow> bytes \<Rightarrow> u64 option option" where
  "ix_lookup hash idx k =
     (if ix_type idx = QIHSE_INDEX_BTREE then Some (qihse_btree_lookup (the (ix_btree idx)) (Some k))
      else qihse_hash_index_lookup hash (the (ix_hash idx)) (Some k))"

definition ix_key :: "'w qindex \<Rightarrow> col_value list \<Rightarrow> bytes option" where
  "ix_key idx vals =
     (if raw_key idx then (case vals of [] \<Rightarrow> None | v # _ \<Rightarrow> map_option (take 8) (fst v))
      else if length vals \<noteq> length (ix_cols idx) then None
      else map_option key_bytes (bcols (ix_cols idx) vals))"

definition ix_readable :: "'w qindex \<Rightarrow> col_value list \<Rightarrow> bool" where
  "ix_readable idx vals \<longleftrightarrow>
     (if raw_key idx then vals \<noteq> [] \<and> (\<forall>bs. fst (vals ! 0) = Some bs \<longrightarrow> 8 \<le> length bs)
      else length vals = length (ix_cols idx) \<longrightarrow> bcols (ix_cols idx) vals \<noteq> None)"

definition ix_room :: "'w qindex \<Rightarrow> col_value list \<Rightarrow> bool" where
  "ix_room idx vals \<longleftrightarrow>
     (if ix_type idx = QIHSE_INDEX_BTREE then \<forall>k. ix_key idx vals = Some k \<longrightarrow> length k \<le> 236
      else length (hx_table (the (ix_hash idx))) \<le> 2 ^ 60)"

definition ix_takes :: "'w qindex \<Rightarrow> col_value list \<Rightarrow> bool" where
  "ix_takes idx vals \<longleftrightarrow>
     (case ix_key idx vals of
        None \<Rightarrow> False
      | Some k \<Rightarrow> ix_type idx = QIHSE_INDEX_HASH \<longrightarrow> key_fits (kt_of idx) k)"

definition same_index :: "'w qindex \<Rightarrow> 'w qindex \<Rightarrow> bool" where
  "same_index idx idx' \<longleftrightarrow> ix_name idx' = ix_name idx \<and> ix_type idx' = ix_type idx \<and> ix_cols idx' = ix_cols idx"

lemma bcols_supported: "bcols ds vs = Some cs \<Longrightarrow> ColOther \<notin> set cs"
proof (induction ds vs arbitrary: cs rule: bcols.induct)
  case (1 d ds v vs)
  then show ?case
    by (auto simp: bcol_def to_btree_col_type_def split: option.splits idx_col_type.splits)
qed auto

lemma serialize_key:
  assumes "\<not> raw_key idx" "ix_readable idx vals"
  shows "serialize_index_key good_env idx vals = Some (ix_key idx vals)"
  using assms serialize_alloc_ok [OF bcols_supported]
  by (auto simp: serialize_index_key_def ix_key_def ix_readable_def split: option.splits)

lemma hash_key_arg:
  assumes "ix_type idx = QIHSE_INDEX_HASH" "ix_readable idx vals"
  obtains (key) key k where "hash_index_key good_env idx vals = Some (Some (Some key))"
      "fixed_key (kt_of idx) key = Some k" "ix_key idx vals = Some k"
    | (null) "hash_index_key good_env idx vals = Some (Some None) \<or> hash_index_key good_env idx vals = Some None"
      "ix_key idx vals = None"
proof (cases "single_int64 (ix_cols idx)")
  case True
  then obtain v vs where v: "vals = v # vs" using assms by (auto simp: ix_readable_def neq_Nil_conv)
  show thesis
  proof (cases "fst v")
    case None
    with True v assms(1) show thesis by (intro null) (simp_all add: hash_index_key_def ix_key_def)
  next
    case (Some bs)
    with True v assms show thesis
      by (intro key [of bs "take 8 bs"]) (simp_all add: hash_index_key_def ix_key_def ix_readable_def fixed_key_def)
  qed
next
  case False
  note s = serialize_key [of idx vals]
  show thesis
  proof (cases "ix_key idx vals")
    case None
    with False s assms show thesis by (intro null) (simp_all add: hash_index_key_def)
  next
    case (Some k)
    with False s assms show thesis by (intro key [of k k]) (simp_all add: hash_index_key_def fixed_key_def)
  qed
qed

lemma hash_key_fixed:
  assumes "fixed_key (hx_type h) key = Some k"
  shows "qihse_hash_index_insert hash ok h (Some key) r = qihse_hash_index_insert hash ok h (Some k) r"
    "qihse_hash_index_delete hash ok h (Some key) = qihse_hash_index_delete hash ok h (Some k)"
  using assms fixed_idem [OF assms]
  by (simp_all add: qihse_hash_index_insert_def qihse_hash_index_delete_def)

definition ix_put :: "col_value list \<Rightarrow> u64 \<Rightarrow> 'w qindex \<Rightarrow> (bytes \<rightharpoonup> u64)" where
  "ix_put vals row idx = (if ix_takes idx vals then (ix_map idx)(the (ix_key idx vals) \<mapsto> row) else ix_map idx)"

definition ix_drop :: "col_value list \<Rightarrow> 'w qindex \<Rightarrow> (bytes \<rightharpoonup> u64)" where
  "ix_drop vals idx = (case ix_key idx vals of None \<Rightarrow> ix_map idx | Some k \<Rightarrow> (ix_map idx)(k := None))"

definition ix_has :: "'w qindex \<Rightarrow> col_value list \<Rightarrow> bool" where
  "ix_has idx vals \<longleftrightarrow> (case ix_key idx vals of None \<Rightarrow> False | Some k \<Rightarrow> ix_map idx k \<noteq> None)"

lemma same_hash: "ix_hash idx = Some h \<Longrightarrow> idx\<lparr>ix_hash := Some h\<rparr> = idx"
  by (cases idx) simp

lemma tree_insert_spec:
  assumes "ix_good hash idx" "ix_type idx = QIHSE_INDEX_BTREE" "ix_readable idx vals" "ix_room idx vals"
  shows "\<exists>idx'. qihse_index_insert hash good_env idx row (Some vals) = Some (ix_takes idx vals, idx') \<and>
    ix_good hash idx' \<and> same_index idx idx' \<and> ix_map idx' = ix_put vals row idx"
proof -
  obtain t where t: "ix_btree idx = Some t" "index_ok t" using assms(1,2) by (auto simp: ix_good_def)
  have s: "serialize_index_key good_env idx vals = Some (ix_key idx vals)" using serialize_key [of idx vals] assms(2,3) by simp
  show ?thesis
  proof (cases "ix_key idx vals")
    case None
    with s assms(1,2) show ?thesis
      by (simp add: qihse_index_insert_def ix_takes_def ix_put_def same_index_def)
  next
    case (Some k)
    then have "length k \<le> 236" using assms(2,4) by (simp add: ix_room_def)
    from tree.put_ok [OF t(2) TrueI this, of row] obtain t' where
      "qihse_btree_insert ok_env t (Some k) row = Some (True, t')" "index_ok t'"
      "map_of (bt_view t') = (map_of (bt_view t))(k \<mapsto> row)" by blast
    with s Some t assms(2) show ?thesis
      by (simp add: qihse_index_insert_def ix_takes_def ix_put_def same_index_def ix_good_def ix_map_def)
  qed
qed

lemma table_insert_spec:
  assumes "ix_good hash idx" "ix_type idx = QIHSE_INDEX_HASH" "ix_readable idx vals" "ix_room idx vals"
  shows "\<exists>idx'. qihse_index_insert hash good_env idx row (Some vals) = Some (ix_takes idx vals, idx') \<and>
    ix_good hash idx' \<and> same_index idx idx' \<and> ix_map idx' = ix_put vals row idx"
proof -
  obtain h where h: "ix_hash idx = Some h" "hx_inv hash h" "hx_type h = kt_of idx" using assms(1,2) by (auto simp: ix_good_def)
  show ?thesis
  proof (cases rule: hash_key_arg [OF assms(2,3)])
    case (1 key k)
    have len: "length (hx_table h) \<le> 2 ^ 60" using assms(2,4) h(1) by (simp add: ix_room_def)
    have key: "fixed_key (hx_type h) key = Some k" using 1(2) h(3) by simp
    have takes: "ix_takes idx vals \<longleftrightarrow> key_fits (hx_type h) k" using 1(3) assms(2) h(3) by (simp add: ix_takes_def)
    from insert_result [OF h(2) len key, of row] obtain h' where h':
      "qihse_hash_index_insert hash True h (Some key) row = Some (ix_takes idx vals, h')" "hx_inv hash h'"
      "tbl_map (hx_table h') = (if ix_takes idx vals then (tbl_map (hx_table h))(k \<mapsto> row) else tbl_map (hx_table h))" "hx_type h' = hx_type h"
      unfolding takes by blast
    with 1 h h' assms(2) show ?thesis
      by (simp add: qihse_index_insert_def ix_put_def same_index_def ix_good_def ix_map_def)
  next
    case 2
    then have "qihse_index_insert hash good_env idx row (Some vals) = Some (False, idx)"
      using h(1) assms(2) same_hash [OF h(1)] by (auto simp: qihse_index_insert_def qihse_hash_index_insert_def)
    with 2(2) assms(1) show ?thesis by (simp add: ix_takes_def ix_put_def same_index_def)
  qed
qed

lemma tree_delete_spec:
  assumes "ix_good hash idx" "ix_type idx = QIHSE_INDEX_BTREE" "ix_readable idx vals"
  shows "\<exists>idx'. qihse_index_delete hash good_env idx row (Some vals) = Some (ix_has idx vals, idx') \<and>
    ix_good hash idx' \<and> same_index idx idx' \<and> ix_map idx' = ix_drop vals idx"
proof -
  obtain t where t: "ix_btree idx = Some t" "index_ok t" using assms(1,2) by (auto simp: ix_good_def)
  have s: "serialize_index_key good_env idx vals = Some (ix_key idx vals)" using serialize_key [of idx vals] assms(2,3) by simp
  show ?thesis
  proof (cases "ix_key idx vals")
    case None
    with s assms(1,2) show ?thesis
      by (simp add: qihse_index_delete_def ix_has_def ix_drop_def same_index_def)
  next
    case (Some k)
    from btree_delete_map [OF t(2), of k] obtain t' where
      "qihse_btree_delete t (Some k) = (map_of (bt_view t) k, t')" "index_ok t'"
      "map_of (bt_view t') = (map_of (bt_view t))(k := None)" by blast
    with s Some t assms(2) show ?thesis
      by (simp add: qihse_index_delete_def ix_has_def ix_drop_def same_index_def ix_good_def ix_map_def)
  qed
qed

lemma table_delete_spec:
  assumes "ix_good hash idx" "ix_type idx = QIHSE_INDEX_HASH" "ix_readable idx vals"
  shows "\<exists>idx'. qihse_index_delete hash good_env idx row (Some vals) = Some (ix_has idx vals, idx') \<and>
    ix_good hash idx' \<and> same_index idx idx' \<and> ix_map idx' = ix_drop vals idx"
proof -
  obtain h where h: "ix_hash idx = Some h" "hx_inv hash h" "hx_type h = kt_of idx" using assms(1,2) by (auto simp: ix_good_def)
  show ?thesis
  proof (cases rule: hash_key_arg [OF assms(2,3)])
    case (1 key k)
    have key: "fixed_key (hx_type h) key = Some k" using 1(2) h(3) by simp
    from delete_spec [OF h(2) key] obtain h' where
      "qihse_hash_index_delete hash True h (Some key) = Some (tbl_map (hx_table h) k, h')" "hx_inv hash h'"
      "tbl_map (hx_table h') = (tbl_map (hx_table h))(k := None)" "hx_type h' = hx_type h" .
    with 1 h assms(2) show ?thesis
      by (simp add: qihse_index_delete_def ix_has_def ix_drop_def same_index_def ix_good_def ix_map_def)
  next
    case 2
    then have "qihse_index_delete hash good_env idx row (Some vals) = Some (False, idx)"
      using h(1) assms(2) same_hash [OF h(1)] by (auto simp: qihse_index_delete_def qihse_hash_index_delete_def)
    with 2(2) assms(1) show ?thesis by (simp add: ix_has_def ix_drop_def same_index_def)
  qed
qed

lemma good_type: "ix_good hash idx \<Longrightarrow> ix_type idx = QIHSE_INDEX_BTREE \<or> ix_type idx = QIHSE_INDEX_HASH"
  by (auto simp: ix_good_def)

lemma index_insert_spec:
  assumes "ix_good hash idx" "ix_readable idx vals" "ix_room idx vals"
  shows "\<exists>idx'. qihse_index_insert hash good_env idx row (Some vals) = Some (ix_takes idx vals, idx') \<and>
    ix_good hash idx' \<and> same_index idx idx' \<and> ix_map idx' = ix_put vals row idx"
  using good_type [OF assms(1)] tree_insert_spec [OF assms(1) _ assms(2,3)] table_insert_spec [OF assms(1) _ assms(2,3)]
  by blast

lemma index_delete_spec:
  assumes "ix_good hash idx" "ix_readable idx vals"
  shows "\<exists>idx'. qihse_index_delete hash good_env idx row (Some vals) = Some (ix_has idx vals, idx') \<and>
    ix_good hash idx' \<and> same_index idx idx' \<and> ix_map idx' = ix_drop vals idx"
  using good_type [OF assms(1)] tree_delete_spec [OF assms(1) _ assms(2)] table_delete_spec [OF assms(1) _ assms(2)]
  by blast

lemma key_of_same:
  "same_index idx idx' \<Longrightarrow> ix_key idx' vals = ix_key idx vals"
  "same_index idx idx' \<Longrightarrow> ix_readable idx' vals = ix_readable idx vals"
  unfolding same_index_def ix_key_def ix_readable_def by auto

lemma lookup_key:
  assumes "ix_good hash idx" "ix_key idx vals = Some k" "ix_readable idx vals"
  shows "ix_lookup hash idx k = Some (ix_map idx k)"
proof (cases "ix_type idx = QIHSE_INDEX_BTREE")
  case True
  with assms(1) show ?thesis by (auto simp: ix_good_def ix_lookup_def ix_map_def bt.get_view)
next
  case False
  then have ty: "ix_type idx = QIHSE_INDEX_HASH" using assms(1) by (auto simp: ix_good_def)
  then obtain h where h: "ix_hash idx = Some h" "hx_inv hash h" "hx_type h = kt_of idx" using assms(1) by (auto simp: ix_good_def)
  have "fixed_key (hx_type h) k = Some k"
    by (cases rule: hash_key_arg [OF ty assms(3)]) (use assms(2) h(3) fixed_idem in auto)
  with table.get_ok [OF h(2)] h(1) False show ?thesis by (simp add: ix_lookup_def ix_map_def)
qed

subsection \<open>Rows\<close>

lemma each_index_spec:
  assumes "\<And>idx. idx \<in> set l \<Longrightarrow> \<exists>idx'. f good_env idx = Some (P idx, idx') \<and> R idx idx'"
  shows "\<exists>l'. each_index f (\<lambda>_. good_env) i l = Some (\<forall>idx \<in> set l. P idx, l') \<and> list_all2 R l l'"
  using assms
proof (induction l arbitrary: i)
  case (Cons a l)
  from Cons.IH [of "Suc i"] Cons.prems obtain l' where
    "each_index f (\<lambda>_. good_env) (Suc i) l = Some (\<forall>idx \<in> set l. P idx, l')" "list_all2 R l l'" by auto
  moreover obtain a' where "f good_env a = Some (P a, a')" "R a a'" using Cons.prems by auto
  ultimately show ?case by simp
qed simp

lemma insert_row_spec:
  assumes "\<forall>idx \<in> set (im_head mgr). ix_good hash idx \<and> ix_readable idx vals \<and> ix_room idx vals"
  obtains mgr' where
    "qihse_index_manager_insert_row hash (\<lambda>_. good_env) mgr row (Some vals) =
       Some (\<forall>idx \<in> set (im_head mgr). ix_takes idx vals, mgr')"
    "list_all2 (\<lambda>idx idx'. ix_good hash idx' \<and> same_index idx idx' \<and> ix_map idx' = ix_put vals row idx)
       (im_head mgr) (im_head mgr')" "im_count mgr' = im_count mgr"
proof -
  have "\<exists>l'. each_index (\<lambda>e cur. qihse_index_insert hash e cur row (Some vals)) (\<lambda>_. good_env) 0 (im_head mgr) =
      Some (\<forall>idx \<in> set (im_head mgr). ix_takes idx vals, l') \<and>
      list_all2 (\<lambda>idx idx'. ix_good hash idx' \<and> same_index idx idx' \<and> ix_map idx' = ix_put vals row idx) (im_head mgr) l'"
    by (rule each_index_spec) (use assms index_insert_spec in blast)
  then obtain l' where "each_index (\<lambda>e cur. qihse_index_insert hash e cur row (Some vals)) (\<lambda>_. good_env) 0 (im_head mgr) =
      Some (\<forall>idx \<in> set (im_head mgr). ix_takes idx vals, l')"
      "list_all2 (\<lambda>idx idx'. ix_good hash idx' \<and> same_index idx idx' \<and> ix_map idx' = ix_put vals row idx) (im_head mgr) l'"
    by blast
  then show thesis
    by (intro that [of "mgr\<lparr>im_head := l'\<rparr>"]) (simp_all add: qihse_index_manager_insert_row_def)
qed

lemma delete_row_spec:
  assumes "\<forall>idx \<in> set (im_head mgr). ix_good hash idx \<and> ix_readable idx vals"
  obtains mgr' where
    "qihse_index_manager_delete_row hash (\<lambda>_. good_env) mgr row (Some vals) =
       Some (\<forall>idx \<in> set (im_head mgr). ix_has idx vals, mgr')"
    "list_all2 (\<lambda>idx idx'. ix_good hash idx' \<and> same_index idx idx' \<and> ix_map idx' = ix_drop vals idx)
       (im_head mgr) (im_head mgr')" "im_count mgr' = im_count mgr"
proof -
  have "\<exists>l'. each_index (\<lambda>e cur. qihse_index_delete hash e cur row (Some vals)) (\<lambda>_. good_env) 0 (im_head mgr) =
      Some (\<forall>idx \<in> set (im_head mgr). ix_has idx vals, l') \<and>
      list_all2 (\<lambda>idx idx'. ix_good hash idx' \<and> same_index idx idx' \<and> ix_map idx' = ix_drop vals idx) (im_head mgr) l'"
    by (rule each_index_spec) (use assms index_delete_spec in blast)
  then obtain l' where "each_index (\<lambda>e cur. qihse_index_delete hash e cur row (Some vals)) (\<lambda>_. good_env) 0 (im_head mgr) =
      Some (\<forall>idx \<in> set (im_head mgr). ix_has idx vals, l')"
      "list_all2 (\<lambda>idx idx'. ix_good hash idx' \<and> same_index idx idx' \<and> ix_map idx' = ix_drop vals idx) (im_head mgr) l'"
    by blast
  then show thesis
    by (intro that [of "mgr\<lparr>im_head := l'\<rparr>"]) (simp_all add: qihse_index_manager_delete_row_def)
qed

subsection \<open>Bulk load\<close>

lemma bulk_insert_map:
  "index_ok t \<Longrightarrow> \<forall>e \<in> set es. length (snd e) \<le> 236 \<Longrightarrow>
   \<exists>t'. bulk_insert (\<lambda>_. ok_env) i es t = Some (True, t') \<and> index_ok t' \<and>
     map_of (bt_view t') = map_of (bt_view t) ++ map_of (rev (map (\<lambda>e. (snd e, fst e)) es))"
proof (induction es arbitrary: i t)
  case (Cons e es)
  then have "length (snd e) \<le> 236" by simp
  from tree.put_ok [OF Cons.prems(1) TrueI this, of "fst e"] obtain t1 where t1:
    "qihse_btree_insert ok_env t (Some (snd e)) (fst e) = Some (True, t1)" "index_ok t1"
    "map_of (bt_view t1) = (map_of (bt_view t))(snd e \<mapsto> fst e)" by blast
  have "\<forall>e \<in> set es. length (snd e) \<le> 236" using Cons.prems by simp
  from Cons.IH [OF t1(2) this, of "Suc i"] obtain t2 where "bulk_insert (\<lambda>_. ok_env) (Suc i) es t1 = Some (True, t2)"
    "index_ok t2" "map_of (bt_view t2) = map_of (bt_view t1) ++ map_of (rev (map (\<lambda>e. (snd e, fst e)) es))" by blast
  with t1 show ?case by simp
qed simp

lemma bulk_load_good:
  assumes good: "ix_good hash idx" and q: "mset (qsort bulk_cmp rows) = mset rows"
    and short: "\<forall>e \<in> set rows. length (snd e) \<le> 236"
    and load: "qihse_index_bulk_load qsort (\<lambda>_. ok_env) ok_entries idx rows = Some (ok, idx')"
  shows "ix_good hash idx'"
proof (cases "ix_type idx = QIHSE_INDEX_BTREE")
  case True
  then obtain t where t: "ix_btree idx = Some t" "index_ok t" using good by (auto simp: ix_good_def)
  have "set (qsort bulk_cmp rows) = set rows" using q by (metis set_mset_mset)
  then have "\<forall>e \<in> set (qsort bulk_cmp rows). length (snd e) \<le> 236" using short by simp
  from bulk_insert_map [OF t(2) this, of 0] obtain t' where
    "bulk_insert (\<lambda>_. ok_env) 0 (qsort bulk_cmp rows) t = Some (True, t')" "index_ok t'" by blast
  with load True t good show ?thesis
    by (auto simp: qihse_index_bulk_load_def ix_good_def split: if_splits)
next
  case False
  show ?thesis
  proof (cases "ix_btree idx")
    case None
    with False load good show ?thesis by (auto simp: qihse_index_bulk_load_def)
  next
    case (Some t)
    from good_type [OF good] False have "ix_type idx = QIHSE_INDEX_HASH" by simp
    with load good Some show ?thesis by (auto simp: qihse_index_bulk_load_def ix_good_def)
  qed
qed

subsection \<open>Registration\<close>

lemma add_btree_good:
  assumes "qihse_index_manager_add_btree good_env mgr name cols fanout = (res, mgr')" "fanout \<le> 65534"
  shows "\<exists>idx. res = Some idx \<and> mgr' = manager_link mgr idx \<and> ix_good hash idx \<and> ix_map idx = Map.empty \<and>
    ix_type idx = QIHSE_INDEX_BTREE \<and> ix_cols idx = cols"
proof -
  have "bt_env_ok ok_env" by (simp add: bt_env_ok_iff)
  then obtain t where t: "qihse_btree_create ok_env fanout = Some t" by (rule create_view)
  from created_ok [OF this assms(2)] t assms(1) show ?thesis
    by (auto simp: qihse_index_manager_add_btree_def index_alloc_def ix_good_def ix_map_def Let_def)
qed

lemma add_hash_good:
  assumes "qihse_index_manager_add_hash good_env mgr name cols cap = (res, mgr')" "cap \<le> 2 ^ 60"
  shows "\<exists>idx. res = Some idx \<and> mgr' = manager_link mgr idx \<and> ix_good hash idx \<and> ix_map idx = Map.empty \<and>
    ix_type idx = QIHSE_INDEX_HASH \<and> ix_cols idx = cols"
proof -
  let ?kt = "if single_int64 cols then QIHSE_HASH_KEY_INT64 else QIHSE_HASH_KEY_STRING"
  obtain h where h: "qihse_hash_index_create True True ?kt cap = Some h"
    by (simp add: qihse_hash_index_create_def Let_def)
  let ?idx = "\<lparr>ix_name = take 127 (case name of None \<Rightarrow> [] | Some s \<Rightarrow> s), ix_type = QIHSE_INDEX_HASH, ix_cols = cols,
      ix_btree = None, ix_hash = Some h, ix_wrapped = None, ix_vtbl = no_vtbl\<rparr>"
  have "res = Some ?idx \<and> mgr' = manager_link mgr ?idx"
    using h assms(1) by (auto simp: qihse_index_manager_add_hash_def index_alloc_def Let_def)
  moreover have "ix_good hash ?idx" "ix_map ?idx = Map.empty"
    using create_spec [OF h assms(2)] by (simp_all add: ix_good_def ix_map_def)
  ultimately show ?thesis by (intro exI [of _ ?idx]) simp
qed

inductive im_reach :: "hash_fun \<Rightarrow> 'w index_manager \<Rightarrow> bool" for hash where
  created: "qihse_index_manager_create ok = Some mgr \<Longrightarrow> im_reach hash mgr"
| added_btree: "im_reach hash mgr \<Longrightarrow> qihse_index_manager_add_btree good_env mgr name cols fanout = (res, mgr') \<Longrightarrow>
    fanout \<le> 65534 \<Longrightarrow> im_reach hash mgr'"
| added_hash: "im_reach hash mgr \<Longrightarrow> qihse_index_manager_add_hash good_env mgr name cols cap = (res, mgr') \<Longrightarrow>
    cap \<le> 2 ^ 60 \<Longrightarrow> im_reach hash mgr'"
| dropped: "im_reach hash mgr \<Longrightarrow> qihse_index_manager_drop mgr name = (ok, mgr') \<Longrightarrow> im_reach hash mgr'"
| inserted: "im_reach hash mgr \<Longrightarrow> \<forall>idx \<in> set (im_head mgr). ix_readable idx vals \<and> ix_room idx vals \<Longrightarrow>
    qihse_index_manager_insert_row hash (\<lambda>_. good_env) mgr row (Some vals) = Some (ok, mgr') \<Longrightarrow> im_reach hash mgr'"
| deleted: "im_reach hash mgr \<Longrightarrow> \<forall>idx \<in> set (im_head mgr). ix_readable idx vals \<Longrightarrow>
    qihse_index_manager_delete_row hash (\<lambda>_. good_env) mgr row (Some vals) = Some (ok, mgr') \<Longrightarrow> im_reach hash mgr'"
| bulk_loaded: "im_reach hash mgr \<Longrightarrow> im_head mgr = xs @ idx # ys \<Longrightarrow>
    mset (qsort bulk_cmp rows) = mset rows \<Longrightarrow> \<forall>e \<in> set rows. length (snd e) \<le> 236 \<Longrightarrow>
    qihse_index_bulk_load qsort (\<lambda>_. ok_env) ok_entries idx rows = Some (ok, idx') \<Longrightarrow>
    im_reach hash (mgr\<lparr>im_head := xs @ idx' # ys\<rparr>)"

definition im_inv :: "hash_fun \<Rightarrow> 'w index_manager \<Rightarrow> bool" where
  "im_inv hash mgr \<longleftrightarrow> (\<forall>idx \<in> set (im_head mgr). ix_good hash idx) \<and> im_count mgr = of_nat (length (im_head mgr))"

lemma im_inv_link: "im_inv hash mgr \<Longrightarrow> ix_good hash idx \<Longrightarrow> im_inv hash (manager_link mgr idx)"
  by (simp add: im_inv_def manager_link_def)

lemma unlink_first_some:
  "unlink_first name l = Some rest \<Longrightarrow> \<exists>xs idx ys. l = xs @ idx # ys \<and> rest = xs @ ys \<and> ix_name idx = name"
proof (induction l arbitrary: rest)
  case (Cons a l)
  show ?case
  proof (cases "ix_name a = name")
    case True
    with Cons.prems show ?thesis by (intro exI [of _ "[]"] exI [of _ a] exI [of _ l]) simp
  next
    case False
    with Cons.prems obtain rest' where "unlink_first name l = Some rest'" "rest = a # rest'" by auto
    with Cons.IH obtain xs idx ys where "l = xs @ idx # ys" "rest' = xs @ ys" "ix_name idx = name" by blast
    with \<open>rest = a # rest'\<close> show ?thesis by (intro exI [of _ "a # xs"] exI [of _ idx] exI [of _ ys]) simp
  qed
qed simp

lemma im_inv_drop:
  assumes "im_inv hash mgr" "qihse_index_manager_drop mgr name = (ok, mgr')"
  shows "im_inv hash mgr'"
proof (cases "\<exists>s rest. name = Some s \<and> unlink_first s (im_head mgr) = Some rest")
  case True
  then obtain s rest where s: "name = Some s" "unlink_first s (im_head mgr) = Some rest" by blast
  from unlink_first_some [OF s(2)] obtain xs idx ys where "im_head mgr = xs @ idx # ys" "rest = xs @ ys" by blast
  with assms s show ?thesis by (auto simp: qihse_index_manager_drop_def im_inv_def)
next
  case False
  with assms show ?thesis by (auto simp: qihse_index_manager_drop_def split: option.splits)
qed

lemma im_inv_rows:
  assumes "im_inv hash mgr" "list_all2 (\<lambda>idx idx'. ix_good hash idx' \<and> Q idx idx') (im_head mgr) (im_head mgr')"
    "im_count mgr' = im_count mgr"
  shows "im_inv hash mgr'"
  using assms unfolding im_inv_def list_all2_conv_all_nth by (auto simp: in_set_conv_nth)

lemma im_reach_inv: "im_reach hash mgr \<Longrightarrow> im_inv hash mgr"
proof (induction rule: im_reach.induct)
  case (created ok mgr)
  then show ?case by (auto simp: qihse_index_manager_create_def im_inv_def split: if_splits)
next
  case (added_btree mgr name cols fanout res mgr')
  then show ?case using add_btree_good [of mgr name cols fanout res mgr' hash] im_inv_link by blast
next
  case (added_hash mgr name cols cap res mgr')
  then show ?case using add_hash_good [of mgr name cols cap res mgr' hash] im_inv_link by blast
next
  case (dropped mgr name ok mgr')
  then show ?case using im_inv_drop by blast
next
  case (inserted mgr vals row ok mgr')
  then have "\<forall>idx \<in> set (im_head mgr). ix_good hash idx \<and> ix_readable idx vals \<and> ix_room idx vals"
    by (auto simp: im_inv_def)
  then obtain m1 where
    "qihse_index_manager_insert_row hash (\<lambda>_. good_env) mgr row (Some vals) =
       Some (\<forall>idx \<in> set (im_head mgr). ix_takes idx vals, m1)"
    and m1: "list_all2 (\<lambda>idx idx'. ix_good hash idx' \<and> same_index idx idx' \<and> ix_map idx' = ix_put vals row idx)
       (im_head mgr) (im_head m1)" "im_count m1 = im_count mgr" by (rule insert_row_spec)
  with inserted.hyps have "mgr' = m1" by simp
  with im_inv_rows [OF inserted.IH m1] show ?case by simp
next
  case (deleted mgr vals row ok mgr')
  then have "\<forall>idx \<in> set (im_head mgr). ix_good hash idx \<and> ix_readable idx vals" by (auto simp: im_inv_def)
  then obtain m1 where
    "qihse_index_manager_delete_row hash (\<lambda>_. good_env) mgr row (Some vals) =
       Some (\<forall>idx \<in> set (im_head mgr). ix_has idx vals, m1)"
    and m1: "list_all2 (\<lambda>idx idx'. ix_good hash idx' \<and> same_index idx idx' \<and> ix_map idx' = ix_drop vals idx)
       (im_head mgr) (im_head m1)" "im_count m1 = im_count mgr" by (rule delete_row_spec)
  with deleted.hyps have "mgr' = m1" by simp
  with im_inv_rows [OF deleted.IH m1] show ?case by simp
next
  case (bulk_loaded mgr xs idx ys qsort rows ok_entries ok idx')
  then have "ix_good hash idx" by (auto simp: im_inv_def)
  with bulk_loaded.hyps bulk_load_good have "ix_good hash idx'" by blast
  with bulk_loaded.IH bulk_loaded.hyps(2) show ?case by (auto simp: im_inv_def)
qed

subsection \<open>Bulk load into one index\<close>

text \<open>
  Bulk load of distinct short keys into a tree index adds exactly the given rows, for any
  \<open>qsort\<close> that permutes its input; on an index of another type it fails without effect,
  because the fallback inserts into a tree the index does not have.
\<close>
lemma bulk_load_map:
  assumes good: "ix_good hash idx" and q: "mset (qsort bulk_cmp rows) = mset rows"
    and rows: "distinct (map snd rows)" "\<forall>e \<in> set rows. length (snd e) \<le> 236"
  shows "ix_type idx = QIHSE_INDEX_BTREE \<Longrightarrow>
      \<exists>idx'. qihse_index_bulk_load qsort (\<lambda>_. ok_env) True idx rows = Some (True, idx') \<and> ix_good hash idx' \<and>
        ix_map idx' = ix_map idx ++ map_of (map (\<lambda>e. (snd e, fst e)) rows)"
    and "ix_type idx \<noteq> QIHSE_INDEX_BTREE \<Longrightarrow> ix_btree idx = None \<Longrightarrow> rows \<noteq> [] \<Longrightarrow>
      qihse_index_bulk_load qsort env ok idx rows = Some (False, idx)"
proof -
  assume ty: "ix_type idx = QIHSE_INDEX_BTREE"
  then obtain t where t: "ix_btree idx = Some t" "index_ok t" using good by (auto simp: ix_good_def)
  let ?sw = "\<lambda>e :: bulk_entry. (snd e, fst e)" and ?s = "qsort bulk_cmp rows"
  have s: "set ?s = set rows" using q by (metis set_mset_mset)
  then have "\<forall>e \<in> set ?s. length (snd e) \<le> 236" using rows(2) by simp
  from bulk_insert_map [OF t(2) this, of 0] obtain t' where t':
    "bulk_insert (\<lambda>_. ok_env) 0 ?s t = Some (True, t')" "index_ok t'"
    "map_of (bt_view t') = map_of (bt_view t) ++ map_of (rev (map ?sw ?s))" by blast
  have "mset (map snd ?s) = mset (map snd rows)" using q by simp
  then have "distinct (map snd ?s)" using rows(1) mset_eq_imp_distinct_iff by blast
  then have "map_of (rev (map ?sw ?s)) = map_of (map ?sw rows)"
    using rows(1) s by (subst map_of_inject_set) (simp_all add: comp_def flip: rev_map)
  with ty t t' show "\<exists>idx'. qihse_index_bulk_load qsort (\<lambda>_. ok_env) True idx rows = Some (True, idx') \<and> ix_good hash idx' \<and>
        ix_map idx' = ix_map idx ++ map_of (map ?sw rows)"
    by (simp add: qihse_index_bulk_load_def ix_good_def ix_map_def)
qed (simp add: qihse_index_bulk_load_def)

subsection \<open>Properties\<close>

text \<open>
  C16: Rows stay in step with tree and hash indexes. For every manager reached by registering and dropping
  such indexes, by inserting and deleting rows and by bulk loads into an index, with no wrapped index and
  while allocations succeed: inserting a row visits every index, maps the key that index takes from the row to
  the row identifier, and returns true exactly if every index takes the row (the column count matches, and a
  serialized hash key has at most 255 bytes). Deleting a row removes that key from every index and returns true
  exactly if every index had it. Lookups in the index read that map, and the count is the number of
  indexes. Trees have a fanout of at most 65534 and keys of at most 236 bytes, and hash tables at most
  2^60 slots.
\<close>
theorem index_rows_maintained:
  assumes "im_reach hash mgr" "\<forall>idx \<in> set (im_head mgr). ix_readable idx vals \<and> ix_room idx vals"
  shows "(\<exists>mgr'. qihse_index_manager_insert_row hash (\<lambda>_. good_env) mgr row (Some vals) =
        Some (\<forall>idx \<in> set (im_head mgr). ix_takes idx vals, mgr') \<and>
      list_all2 (\<lambda>idx idx'. same_index idx idx' \<and> ix_map idx' = ix_put vals row idx) (im_head mgr) (im_head mgr')) \<and>
    (\<exists>mgr'. qihse_index_manager_delete_row hash (\<lambda>_. good_env) mgr row (Some vals) =
        Some (\<forall>idx \<in> set (im_head mgr). ix_has idx vals, mgr') \<and>
      list_all2 (\<lambda>idx idx'. same_index idx idx' \<and> ix_map idx' = ix_drop vals idx) (im_head mgr) (im_head mgr')) \<and>
    (\<forall>idx \<in> set (im_head mgr). \<forall>k. ix_key idx vals = Some k \<longrightarrow> ix_lookup hash idx k = Some (ix_map idx k)) \<and>
    qihse_index_manager_count mgr = of_nat (length (im_head mgr))"
proof -
  have inv: "im_inv hash mgr" by (rule im_reach_inv [OF assms(1)])
  then have good: "\<forall>idx \<in> set (im_head mgr). ix_good hash idx \<and> ix_readable idx vals \<and> ix_room idx vals"
    using assms(2) by (auto simp: im_inv_def)
  obtain m1 where m1: "qihse_index_manager_insert_row hash (\<lambda>_. good_env) mgr row (Some vals) =
       Some (\<forall>idx \<in> set (im_head mgr). ix_takes idx vals, m1)"
    "list_all2 (\<lambda>idx idx'. ix_good hash idx' \<and> same_index idx idx' \<and> ix_map idx' = ix_put vals row idx)
       (im_head mgr) (im_head m1)" by (rule insert_row_spec [OF good])
  have "\<forall>idx \<in> set (im_head mgr). ix_good hash idx \<and> ix_readable idx vals" using good by blast
  then obtain m2 where m2: "qihse_index_manager_delete_row hash (\<lambda>_. good_env) mgr row (Some vals) =
       Some (\<forall>idx \<in> set (im_head mgr). ix_has idx vals, m2)"
    "list_all2 (\<lambda>idx idx'. ix_good hash idx' \<and> same_index idx idx' \<and> ix_map idx' = ix_drop vals idx)
       (im_head mgr) (im_head m2)" by (rule delete_row_spec)
  have "list_all2 (\<lambda>idx idx'. same_index idx idx' \<and> ix_map idx' = ix_put vals row idx) (im_head mgr) (im_head m1)"
    "list_all2 (\<lambda>idx idx'. same_index idx idx' \<and> ix_map idx' = ix_drop vals idx) (im_head mgr) (im_head m2)"
    by (rule list_all2_mono [OF m1(2)], simp) (rule list_all2_mono [OF m2(2)], simp)
  moreover have "\<forall>idx \<in> set (im_head mgr). \<forall>k. ix_key idx vals = Some k \<longrightarrow> ix_lookup hash idx k = Some (ix_map idx k)"
    using good lookup_key by blast
  ultimately show ?thesis using m1(1) m2(1) inv unfolding im_inv_def qihse_index_manager_count_def by blast
qed

definition demo_cols :: "idx_col_def list" where
  "demo_cols = [\<lparr>def_type = QIHSE_IDX_COL_INT32, def_name = []\<rparr>]"

definition demo_manager :: "unit index_manager" where
  "demo_manager = snd (qihse_index_manager_add_btree good_env \<lparr>im_head = [], im_count = 0\<rparr> (Some [105]) demo_cols 4)"

definition demo_vals :: "col_value list" where
  "demo_vals = [(Some [5, 0, 0, 0], 4)]"

lemma demo_manager_reach: "im_reach hash demo_manager"
proof -
  have "im_reach hash \<lparr>im_head = [], im_count = 0\<rparr>"
    by (rule im_reach.created [of True]) (simp add: qihse_index_manager_create_def)
  from im_reach.added_btree [OF this _, of "Some [105]" demo_cols 4] show ?thesis
    unfolding demo_manager_def by (simp add: prod_eq_iff)
qed

lemma demo_index:
  obtains idx :: "unit qindex" where "im_head demo_manager = [idx]" "ix_good hash idx" "ix_map idx = Map.empty"
    "ix_type idx = QIHSE_INDEX_BTREE" "ix_cols idx = demo_cols"
proof -
  obtain res m where a: "qihse_index_manager_add_btree good_env \<lparr>im_head = [], im_count = 0\<rparr> (Some [105]) demo_cols 4 =
    (res :: unit qindex option, m)" by (metis surj_pair)
  have "(4 :: u32) \<le> 65534" by simp
  from add_btree_good [OF a this, of hash] obtain idx where "m = manager_link \<lparr>im_head = [], im_count = 0\<rparr> idx"
    "ix_good hash idx" "ix_map idx = Map.empty" "ix_type idx = QIHSE_INDEX_BTREE" "ix_cols idx = demo_cols" by blast
  with a show thesis by (intro that [of idx]) (simp_all add: demo_manager_def manager_link_def)
qed

lemma demo_key:
  assumes "ix_type idx = QIHSE_INDEX_BTREE" "ix_cols idx = demo_cols"
  shows "ix_key idx demo_vals = Some [128, 0, 0, 5]" "ix_readable idx demo_vals" "ix_room idx demo_vals"
    "ix_takes idx demo_vals"
proof -
  have c: "bcols demo_cols demo_vals = Some [ColInt32 5]" by code_simp
  have b: "key_bytes [ColInt32 5] = [128, 0, 0, 5]" by code_simp
  show k: "ix_key idx demo_vals = Some [128, 0, 0, 5]"
    using assms c b by (simp add: ix_key_def) (simp add: demo_vals_def demo_cols_def)
  show "ix_readable idx demo_vals" "ix_room idx demo_vals" "ix_takes idx demo_vals"
    using assms c k by (simp_all add: ix_readable_def ix_room_def ix_takes_def)
qed

theorem index_rows_maintained_witness:
  "\<exists>mgr'. qihse_index_manager_insert_row fnv_hash (\<lambda>_. good_env) demo_manager 7 (Some demo_vals) = Some (True, mgr') \<and>
     qihse_index_manager_count demo_manager = 1"
proof -
  obtain idx where idx: "im_head demo_manager = [idx]" "ix_type idx = QIHSE_INDEX_BTREE" "ix_cols idx = demo_cols"
    using demo_index [of fnv_hash] by metis
  note k = demo_key [OF idx(2,3)]
  show ?thesis using index_rows_maintained [OF demo_manager_reach, of demo_vals fnv_hash 7] idx(1) k by auto
qed

text \<open>
  C37: An index holds one row per key and deletes by key alone. When two rows with equal column values are
  inserted into a tree index, both inserts return true and the second replaces the first; deleting the first
  row then returns true and removes the entry of the second, which is no longer found. The index is
  well formed: its tree has a fanout of at most 65534 and keys of at most 236 bytes, and allocations succeed.
\<close>
theorem index_delete_drops_other_row:
  assumes "ix_good hash idx" "ix_type idx = QIHSE_INDEX_BTREE" "ix_readable idx vals"
    and "ix_key idx vals = Some k" "length k \<le> 236"
  shows "\<exists>i1 i2 i3. qihse_index_insert hash good_env idx r1 (Some vals) = Some (True, i1) \<and>
    qihse_index_insert hash good_env i1 r2 (Some vals) = Some (True, i2) \<and> ix_lookup hash i2 k = Some (Some r2) \<and>
    qihse_index_delete hash good_env i2 r1 (Some vals) = Some (True, i3) \<and> ix_lookup hash i3 k = Some None"
proof -
  obtain t where t: "ix_btree idx = Some t" "index_ok t" using assms(1,2) by (auto simp: ix_good_def)
  obtain t1 t2 t3 where
    s: "qihse_btree_insert ok_env t (Some k) r1 = Some (True, t1)" "qihse_btree_insert ok_env t1 (Some k) r2 = Some (True, t2)"
      "Some (qihse_btree_lookup t2 (Some k)) = Some (Some r2)" "Some (qihse_btree_delete t2 (Some k)) = Some (Some r2, t3)"
      "Some (qihse_btree_lookup t3 (Some k)) = Some None"
    by (rule tree.shared_key [OF t(2) TrueI, of k r1 r2]) (use assms(5) in auto)
  have key: "serialize_index_key good_env idx vals = Some (Some k)"
    using serialize_key [of idx vals] assms(2-4) by simp
  then have "serialize_index_key good_env (idx\<lparr>ix_btree := Some u\<rparr>) vals = Some (Some k)" for u
    by (simp add: serialize_index_key_def cong: if_cong)
  with key s t(1) assms(2) show ?thesis
    by (intro exI [of _ "idx\<lparr>ix_btree := Some t1\<rparr>"] exI [of _ "idx\<lparr>ix_btree := Some t2\<rparr>"] exI [of _ "idx\<lparr>ix_btree := Some t3\<rparr>"])
      (simp add: qihse_index_insert_def qihse_index_delete_def ix_lookup_def)
qed

theorem index_delete_drops_other_row_witness:
  "\<exists>idx :: unit qindex. ix_good fnv_hash idx \<and> (\<exists>i1 i2 i3.
     qihse_index_insert fnv_hash good_env idx 1 (Some demo_vals) = Some (True, i1) \<and>
     qihse_index_insert fnv_hash good_env i1 2 (Some demo_vals) = Some (True, i2) \<and>
     qihse_index_delete fnv_hash good_env i2 1 (Some demo_vals) = Some (True, i3) \<and>
     ix_lookup fnv_hash i3 [128, 0, 0, 5] = Some None)"
proof -
  obtain idx :: "unit qindex" where idx: "ix_good fnv_hash idx" "ix_type idx = QIHSE_INDEX_BTREE" "ix_cols idx = demo_cols"
    using demo_index [of fnv_hash] by metis
  note k = demo_key [OF idx(2,3)]
  from index_delete_drops_other_row [OF idx(1,2) k(2,1), of 1 2] idx(1) show ?thesis by auto
qed

end
