(* ===== verification/Crdt.thy ===== *)
theory Crdt
  imports BtreeKeys
begin

section \<open>The replicated set\<close>

text \<open>
  Model of \<^verbatim>\<open>sync/qihse_crdt.c\<close>: a last-writer-wins set whose records are the leaves of a ternary
  Merkle tree, routed by the first eight bytes of their identifier.

  Conventions. The digest (SHA-384 of an external library) is a parameter, a function from the hashed
  bytes to the hash. The record \<open>crdt_env\<close> says which allocations succeed, \<open>ok_digest i\<close> whether the digest
  context of the node at depth \<open>i\<close> can be allocated; without it the node keeps its old hash. The
  result of \<open>realloc\<close> is not checked in the code, so its failure has no result here. Identifiers have 16
  bytes and payload hashes 48.
\<close>

record crdt_record =
  vector_id :: bytes
  timestamp :: u64
  is_deleted_rec :: bool
  payload_hash :: bytes

datatype dag_node =
  DagNode (dag_hash: bytes) (dag_left: "dag_node option") (dag_middle: "dag_node option")
    (dag_right: "dag_node option") (dag_records: "crdt_record list")

record crdt_manager =
  dag_root :: "dag_node option"
  local_clock :: u64

record crdt_env =
  ok_node :: "nat \<Rightarrow> bool"
  ok_records :: bool
  ok_digest :: "nat \<Rightarrow> bool"

type_synonym digest_fun = "bytes \<Rightarrow> bytes"

subsection \<open>Nodes and their hashes\<close>

definition create_dag_node :: "bool \<Rightarrow> dag_node option" where
  "create_dag_node ok = (if ok then Some (DagNode (replicate 48 0) None None None []) else None)"

definition timestamp_bytes :: "u64 \<Rightarrow> bytes" where
  "timestamp_bytes ts = map (\<lambda>j. ucast (drop_bit ((7 - j) * 8) ts AND 0xFF)) [0..<8]"

definition record_bytes :: "crdt_record \<Rightarrow> bytes" where
  "record_bytes r =
     vector_id r @ timestamp_bytes (timestamp r) @ [if is_deleted_rec r then 1 else 0] @ payload_hash r"

definition child_hash :: "dag_node option \<Rightarrow> bytes" where
  "child_hash c = (case c of None \<Rightarrow> [] | Some n \<Rightarrow> dag_hash n)"

definition hash_input :: "dag_node \<Rightarrow> bytes" where
  "hash_input n =
     child_hash (dag_left n) @ child_hash (dag_middle n) @ child_hash (dag_right n) @
     concat (map record_bytes (dag_records n))"

definition compute_node_hash :: "digest_fun \<Rightarrow> bool \<Rightarrow> dag_node \<Rightarrow> dag_node" where
  "compute_node_hash digest ok n =
     (if ok then DagNode (digest (hash_input n)) (dag_left n) (dag_middle n) (dag_right n) (dag_records n) else n)"

definition qihse_crdt_init :: "bool \<Rightarrow> bool \<times> crdt_manager" where
  "qihse_crdt_init ok =
     (let root = create_dag_node ok in (root \<noteq> None, \<lparr>dag_root = root, local_clock = 0\<rparr>))"

subsection \<open>Upsert\<close>

datatype trit = TritLeft | TritMiddle | TritRight

definition trit_of :: "u8 \<Rightarrow> trit" where
  "trit_of b = (if b < 85 then TritLeft else if b \<le> 170 then TritMiddle else TritRight)"

definition dag_child :: "trit \<Rightarrow> dag_node \<Rightarrow> dag_node option" where
  "dag_child t n = (case t of TritLeft \<Rightarrow> dag_left n | TritMiddle \<Rightarrow> dag_middle n | TritRight \<Rightarrow> dag_right n)"

definition set_child :: "trit \<Rightarrow> dag_node \<Rightarrow> dag_node \<Rightarrow> dag_node" where
  "set_child t c n =
     (case t of
        TritLeft \<Rightarrow> DagNode (dag_hash n) (Some c) (dag_middle n) (dag_right n) (dag_records n)
      | TritMiddle \<Rightarrow> DagNode (dag_hash n) (dag_left n) (Some c) (dag_right n) (dag_records n)
      | TritRight \<Rightarrow> DagNode (dag_hash n) (dag_left n) (dag_middle n) (Some c) (dag_records n))"

definition set_records :: "crdt_record list \<Rightarrow> dag_node \<Rightarrow> dag_node" where
  "set_records rs n = DagNode (dag_hash n) (dag_left n) (dag_middle n) (dag_right n) rs"

text \<open>The binary search: whether the identifier was found, and its position or where it belongs.\<close>

function record_search :: "crdt_record list \<Rightarrow> bytes \<Rightarrow> nat \<Rightarrow> nat \<Rightarrow> bool \<times> nat" where
  "record_search rs key left right =
     (if left < right
      then
        let mid = left + (right - left) div 2;
            cmp = memcmp (vector_id (rs ! mid)) key
        in
          if cmp = 0 then (True, mid)
          else if cmp < 0 then record_search rs key (mid + 1) right
          else record_search rs key left mid
      else (False, left))"
  by pat_completeness auto
termination
  by (relation "measure (\<lambda>(rs, key, left, right). right - left)") auto

declare record_search.simps [simp del]

datatype upsert_outcome = UpsertNoNode | UpsertOlder | UpsertChanged

definition upsert_leaf ::
    "digest_fun \<Rightarrow> crdt_env \<Rightarrow> crdt_record \<Rightarrow> nat \<Rightarrow> dag_node \<Rightarrow> (upsert_outcome \<times> dag_node) option" where
  "upsert_leaf digest env r i n =
     (let rs = dag_records n in
      case record_search rs (vector_id r) 0 (length rs) of
        (True, pos) \<Rightarrow>
          if timestamp r > timestamp (rs ! pos)
          then
            Some (UpsertChanged,
              compute_node_hash digest (ok_digest env i)
                (set_records (rs[pos := (rs ! pos)\<lparr>timestamp := timestamp r, is_deleted_rec := is_deleted_rec r,
                                                 payload_hash := payload_hash r\<rparr>]) n))
          else Some (UpsertOlder, n)
      | (False, pos) \<Rightarrow>
          if \<not> ok_records env then None
          else
            Some (UpsertChanged,
              compute_node_hash digest (ok_digest env i) (set_records (take pos rs @ r # drop pos rs) n)))"

text \<open>
  Descent along the routing bytes, creating missing nodes, and the recomputation of the hashes on the
  way back when a record was changed. The second argument from the right is the rest of the path, \<open>i\<close> the depth.
\<close>

fun upsert_at ::
    "digest_fun \<Rightarrow> crdt_env \<Rightarrow> crdt_record \<Rightarrow> nat \<Rightarrow> bytes \<Rightarrow> dag_node \<Rightarrow> (upsert_outcome \<times> dag_node) option" where
  "upsert_at digest env r i [] n = upsert_leaf digest env r i n"
| "upsert_at digest env r i (b # bs) n =
     (case (case dag_child (trit_of b) n of None \<Rightarrow> create_dag_node (ok_node env i) | Some c \<Rightarrow> Some c) of
        None \<Rightarrow> Some (UpsertNoNode, n)
      | Some c \<Rightarrow>
          (case upsert_at digest env r (Suc i) bs c of
             None \<Rightarrow> None
           | Some (out, c') \<Rightarrow>
               let n' = set_child (trit_of b) c' n in
               Some (out, if out = UpsertChanged then compute_node_hash digest (ok_digest env i) n' else n')))"

definition qihse_crdt_upsert ::
    "digest_fun \<Rightarrow> crdt_env \<Rightarrow> crdt_manager \<Rightarrow> crdt_record \<Rightarrow> (bool \<times> crdt_manager) option" where
  "qihse_crdt_upsert digest env manager r =
     (case dag_root manager of
        None \<Rightarrow> Some (False, manager)
      | Some root \<Rightarrow>
          (case upsert_at digest env r 0 (take 8 (vector_id r)) root of
             None \<Rightarrow> None
           | Some (out, root') \<Rightarrow> Some (out = UpsertChanged, manager\<lparr>dag_root := Some root'\<rparr>)))"

definition qihse_crdt_get_root_hash :: "crdt_manager \<Rightarrow> bytes" where
  "qihse_crdt_get_root_hash manager =
     (case dag_root manager of None \<Rightarrow> replicate 48 0 | Some root \<Rightarrow> dag_hash root)"

end
