(* ===== verification/CrdtTree.thy ===== *)
theory CrdtTree
  imports Crdt
begin

section \<open>The tree of the replicated set\<close>

text \<open>
  What last-writer-wins means for a set of records (\<open>lww_put\<close>, \<open>latest\<close>); the invariant of the Merkle tree, which
  makes the tree a function of the records it holds; the fact that equal root hashes mean equal
  trees when the digest has no collision among the hashed inputs; and the effect of an upsert on the set.
\<close>

subsection \<open>Last writer wins\<close>

definition lww_put :: "crdt_record \<Rightarrow> crdt_record set \<Rightarrow> crdt_record set" where
  "lww_put r R =
     (if \<exists>r0 \<in> R. vector_id r0 = vector_id r \<and> timestamp r \<le> timestamp r0 then R
      else insert r {r0 \<in> R. vector_id r0 \<noteq> vector_id r})"

definition latest :: "crdt_record set \<Rightarrow> crdt_record set" where
  "latest S = {r \<in> S. \<forall>r' \<in> S. vector_id r' = vector_id r \<longrightarrow> timestamp r' \<le> timestamp r}"

definition no_ties :: "crdt_record set \<Rightarrow> bool" where
  "no_ties S \<longleftrightarrow> (\<forall>a \<in> S. \<forall>b \<in> S. vector_id a = vector_id b \<and> timestamp a = timestamp b \<longrightarrow> a = b)"

lemma latest_exists:
  assumes "finite S" "r \<in> S"
  obtains r' where "r' \<in> latest S" "vector_id r' = vector_id r" "timestamp r \<le> timestamp r'"
proof -
  let ?I = "{x \<in> S. vector_id x = vector_id r}"
  have fin: "finite (timestamp ` ?I)" "timestamp ` ?I \<noteq> {}" using assms by auto
  from Max_in [OF this] obtain r' where r': "r' \<in> ?I" "timestamp r' = Max (timestamp ` ?I)" by auto
  have "timestamp x \<le> timestamp r'" if "x \<in> S" "vector_id x = vector_id r" for x
    using Max_ge [OF fin(1), of "timestamp x"] that r'(2) by auto
  with r'(1) assms(2) show thesis by (intro that [of r']) (auto simp: latest_def)
qed

lemma lww_put_latest:
  assumes "finite S" "no_ties (insert r S)"
  shows "lww_put r (latest S) = latest (insert r S)"
proof (cases "\<exists>r0 \<in> latest S. vector_id r0 = vector_id r \<and> timestamp r \<le> timestamp r0")
  case True
  then obtain r0 where r0: "r0 \<in> S" "vector_id r0 = vector_id r" "timestamp r \<le> timestamp r0" by (auto simp: latest_def)
  have tie: "r0 = r" if "timestamp r0 \<le> timestamp r"
  proof -
    from that r0(3) have "timestamp r0 = timestamp r" by (rule order.antisym)
    with assms(2) r0(1,2) show ?thesis unfolding no_ties_def by blast
  qed
  have above: "timestamp r \<le> timestamp x" if "x \<in> latest S" "vector_id x = vector_id r" for x
  proof -
    have "timestamp r0 \<le> timestamp x" using that r0(1,2) by (simp add: latest_def)
    with r0(3) show ?thesis by (rule order.trans)
  qed
  have "x \<in> latest S \<longleftrightarrow> x \<in> latest (insert r S)" for x
  proof
    assume "x \<in> latest S"
    with above [of x] show "x \<in> latest (insert r S)" by (auto simp: latest_def)
  next
    assume x: "x \<in> latest (insert r S)"
    have "x \<in> S"
    proof (cases "x = r")
      case True
      with x r0 have "timestamp r0 \<le> timestamp r" by (simp add: latest_def)
      with tie r0(1) True show ?thesis by simp
    qed (use x in \<open>simp add: latest_def\<close>)
    with x show "x \<in> latest S" by (simp add: latest_def)
  qed
  with True show ?thesis by (auto simp: lww_put_def)
next
  case False
  have newer: "timestamp x < timestamp r" if x: "x \<in> S" "vector_id x = vector_id r" for x
  proof -
    obtain x' where "x' \<in> latest S" "vector_id x' = vector_id x" "timestamp x \<le> timestamp x'"
      using latest_exists [OF assms(1) x(1)] .
    with False x(2) show ?thesis by force
  qed
  then have "insert r {r0 \<in> latest S. vector_id r0 \<noteq> vector_id r} = latest (insert r S)"
    by (fastforce simp: latest_def)
  with False show ?thesis unfolding lww_put_def by (simp only: if_False)
qed

lemma no_ties_subset: "no_ties S \<Longrightarrow> T \<subseteq> S \<Longrightarrow> no_ties T"
  by (auto simp: no_ties_def)

lemma lww_run_latest: "no_ties (set ops) \<Longrightarrow> fold lww_put ops {} = latest (set ops)"
proof (induction ops rule: rev_induct)
  case (snoc r ops)
  then have "fold lww_put ops {} = latest (set ops)" using no_ties_subset by (metis set_append sup_ge1)
  with lww_put_latest [of "set ops" r] snoc.prems show ?case by simp
qed (simp add: latest_def)

subsection \<open>The tree invariant\<close>

abbreviation trits :: "trit list" where
  "trits \<equiv> [TritLeft, TritMiddle, TritRight]"

definition kids :: "dag_node \<Rightarrow> dag_node list" where
  "kids n = List.map_filter (\<lambda>t. dag_child t n) trits"

primrec recs :: "nat \<Rightarrow> dag_node \<Rightarrow> crdt_record list" where
  "recs 0 n = dag_records n"
| "recs (Suc d) n = concat (map (recs d) (kids n))"

definition rec_ok :: "crdt_record \<Rightarrow> bool" where
  "rec_ok r \<longleftrightarrow> length (vector_id r) = 16 \<and> length (payload_hash r) = 48"

abbreviation rec_sorted :: "crdt_record list \<Rightarrow> bool" where
  "rec_sorted rs \<equiv> sorted_wrt (\<lambda>a b. vector_id a < vector_id b) rs"

text \<open>\<open>dag_ok digest d n\<close>: \<open>n\<close> is a node with \<open>d\<close> levels below it that holds at least one record.\<close>

primrec dag_ok :: "digest_fun \<Rightarrow> nat \<Rightarrow> dag_node \<Rightarrow> bool" where
  "dag_ok digest 0 n \<longleftrightarrow>
     (\<forall>t. dag_child t n = None) \<and> dag_records n \<noteq> [] \<and> rec_sorted (dag_records n) \<and>
     (\<forall>r \<in> set (dag_records n). rec_ok r) \<and> dag_hash n = digest (hash_input n)"
| "dag_ok digest (Suc d) n \<longleftrightarrow>
     dag_records n = [] \<and> (\<exists>t. dag_child t n \<noteq> None) \<and>
     (\<forall>t c. dag_child t n = Some c \<longrightarrow>
        dag_ok digest d c \<and> (\<forall>r \<in> set (recs d c). trit_of (vector_id r ! (7 - d)) = t)) \<and>
     dag_hash n = digest (hash_input n)"

lemma dag_hash_ok: "dag_ok digest d n \<Longrightarrow> dag_hash n = digest (hash_input n)"
  by (cases d) simp_all

lemma ex_trit: "(\<exists>t. P t) \<longleftrightarrow> P TritLeft \<or> P TritMiddle \<or> P TritRight"
  by (metis trit.exhaust)

lemma set_kids: "set (kids n) = {c. \<exists>t. dag_child t n = Some c}"
  unfolding ex_trit by (auto simp: kids_def map_filter_def)

lemma mem_recs_Suc: "r \<in> set (recs (Suc d) n) \<longleftrightarrow> (\<exists>t c. dag_child t n = Some c \<and> r \<in> set (recs d c))"
  unfolding recs.simps set_concat set_map set_kids by blast

lemma node_eqI:
  assumes "dag_hash n = dag_hash n'" "\<And>t. dag_child t n = dag_child t n'" "dag_records n = dag_records n'"
  shows "n = n'"
  using assms(1,3) assms(2) [of TritLeft] assms(2) [of TritMiddle] assms(2) [of TritRight]
  by (cases n; cases n') (simp add: dag_child_def)

lemma hash_input_kids: "hash_input n = concat (map dag_hash (kids n)) @ concat (map record_bytes (dag_records n))"
  by (auto simp: hash_input_def kids_def map_filter_def dag_child_def child_hash_def split: option.splits)

lemma recs_nonempty: "dag_ok digest d n \<Longrightarrow> recs d n \<noteq> []"
proof (induction d arbitrary: n)
  case (Suc d)
  then obtain t c where c: "dag_child t n = Some c" by auto
  with Suc have "recs d c \<noteq> []" by auto
  with c show ?case by (auto simp: set_kids)
qed simp

lemma recs_ok: "dag_ok digest d n \<Longrightarrow> r \<in> set (recs d n) \<Longrightarrow> rec_ok r"
proof (induction d arbitrary: n)
  case (Suc d)
  then obtain t c where "dag_child t n = Some c" "r \<in> set (recs d c)" by (auto simp: set_kids)
  with Suc show ?case by auto
qed simp

lemma child_records:
  assumes "dag_ok digest (Suc d) n"
  shows "(case dag_child t n of None \<Rightarrow> {} | Some c \<Rightarrow> set (recs d c)) =
    {r \<in> set (recs (Suc d) n). trit_of (vector_id r ! (7 - d)) = t}"
proof (rule set_eqI)
  fix r
  have "(\<exists>c. dag_child t n = Some c \<and> r \<in> set (recs d c)) \<longleftrightarrow>
      r \<in> set (recs (Suc d) n) \<and> trit_of (vector_id r ! (7 - d)) = t"
    unfolding mem_recs_Suc using assms by auto
  then show "r \<in> (case dag_child t n of None \<Rightarrow> {} | Some c \<Rightarrow> set (recs d c)) \<longleftrightarrow>
      r \<in> {r \<in> set (recs (Suc d) n). trit_of (vector_id r ! (7 - d)) = t}"
    by (cases "dag_child t n") auto
qed

subsection \<open>Trees are canonical\<close>

lemma rec_sorted_unique:
  assumes "rec_sorted rs" "rec_sorted rs'" "set rs = set rs'"
  shows "rs = rs'"
proof -
  have s: "sorted (map vector_id xs) \<and> distinct (map vector_id xs)" if "rec_sorted xs" for xs
    using that by (induction xs) (auto intro: less_imp_le)
  have "inj_on vector_id (set rs \<union> set rs')" using s [OF assms(1)] assms(3) by (simp add: distinct_map)
  from map_sorted_distinct_set_unique [OF this] s [OF assms(1)] s [OF assms(2)] assms(3) show ?thesis by blast
qed

lemma dag_unique:
  "dag_ok digest d n \<Longrightarrow> dag_ok digest d n' \<Longrightarrow> set (recs d n) = set (recs d n') \<Longrightarrow> n = n'"
proof (induction d arbitrary: n n')
  case 0
  then have "dag_records n = dag_records n'" using rec_sorted_unique by simp
  moreover have "hash_input n = hash_input n'"
    using 0 calculation by (simp add: hash_input_kids kids_def map_filter_def)
  ultimately show ?case using 0 by (intro node_eqI) simp_all
next
  case (Suc d)
  have kid: "dag_child t n = dag_child t n'" for t
  proof -
    have eq: "(case dag_child t n of None \<Rightarrow> {} | Some c \<Rightarrow> set (recs d c)) =
        (case dag_child t n' of None \<Rightarrow> {} | Some c \<Rightarrow> set (recs d c))"
      unfolding child_records [OF Suc.prems(1)] child_records [OF Suc.prems(2)] Suc.prems(3) ..
    have ok: "\<And>c. dag_child t n = Some c \<Longrightarrow> dag_ok digest d c" "\<And>c. dag_child t n' = Some c \<Longrightarrow> dag_ok digest d c"
      using Suc.prems by auto
    show ?thesis using eq ok recs_nonempty Suc.IH by (auto split: option.splits)
  qed
  then have "hash_input n = hash_input n'" using Suc.prems by (simp add: hash_input_kids kids_def)
  with kid Suc.prems show ?case by (intro node_eqI) simp_all
qed

subsection \<open>The root hash determines the records\<close>

primrec inputs :: "nat \<Rightarrow> dag_node \<Rightarrow> bytes list" where
  "inputs 0 n = [hash_input n]"
| "inputs (Suc d) n = hash_input n # concat (map (inputs d) (kids n))"

lemma hash_input_mem: "hash_input n \<in> set (inputs d n)"
  by (cases d) simp_all

lemma concat_fixed:
  "concat xss = concat yss \<Longrightarrow> \<forall>x \<in> set xss \<union> set yss. length x = k \<Longrightarrow> 0 < k \<Longrightarrow> xss = yss"
proof (induction xss arbitrary: yss)
  case Nil
  then show ?case by (cases yss) auto
next
  case (Cons x xss)
  then obtain y yss' where yss: "yss = y # yss'" by (cases yss) auto
  with Cons.prems have "x = y \<and> concat xss = concat yss'" by simp
  with Cons yss show ?case by auto
qed

lemma timestamp_bytes_be: "timestamp_bytes ts = be_bytes 8 ts"
proof -
  have m: "(0xFF :: u64) = mask 8" by (simp add: mask_eq_exp_minus_1)
  have "ucast (x AND 0xFF) = (ucast x :: u8)" for x :: u64
    unfolding m by (rule bit_eqI) (auto simp: bit_simps)
  then show ?thesis by (simp add: timestamp_bytes_def be_bytes_def mult.commute)
qed

lemma record_bytes_inj: "rec_ok a \<Longrightarrow> rec_ok b \<Longrightarrow> record_bytes a = record_bytes b \<Longrightarrow> a = b"
  by (auto simp: record_bytes_def rec_ok_def timestamp_bytes_be be_bytes_inj split: if_splits intro: crdt_record.equality)

lemma length_record_bytes: "rec_ok r \<Longrightarrow> length (record_bytes r) = 73"
  by (simp add: record_bytes_def rec_ok_def timestamp_bytes_be)

definition kid_trit :: "nat \<Rightarrow> dag_node \<Rightarrow> trit" where
  "kid_trit d c = trit_of (vector_id (hd (recs d c)) ! (7 - d))"

lemma child_of_kids:
  assumes "dag_ok digest (Suc d) n"
  shows "dag_child t n = find (\<lambda>c. kid_trit d c = t) (kids n)"
proof -
  have "kid_trit d c = t'" if "dag_child t' n = Some c" for t' c
    using assms that recs_nonempty [of digest d c] by (auto simp: kid_trit_def)
  then show ?thesis
    by (cases t) (auto simp: kids_def map_filter_def split: option.splits)
qed

lemma merkle:
  assumes "\<And>x. length (digest x) = 48"
  shows "dag_ok digest d n \<Longrightarrow> dag_ok digest d n' \<Longrightarrow> inj_on digest (set (inputs d n) \<union> set (inputs d n')) \<Longrightarrow>
    dag_hash n = dag_hash n' \<Longrightarrow> n = n'"
proof (induction d arbitrary: n n')
  case 0
  have input: "hash_input n = hash_input n'"
    using 0 inj_onD [OF 0(3), of "hash_input n" "hash_input n'"] by simp
  then have "concat (map record_bytes (dag_records n)) = concat (map record_bytes (dag_records n'))"
    using 0(1,2) by (simp add: hash_input_kids kids_def map_filter_def)
  moreover have ok: "\<forall>r \<in> set (dag_records n) \<union> set (dag_records n'). rec_ok r" using 0(1,2) by auto
  ultimately have "map record_bytes (dag_records n) = map record_bytes (dag_records n')"
    by (intro concat_fixed [of _ _ 73]) (auto simp: length_record_bytes)
  moreover have "inj_on record_bytes (set (dag_records n) \<union> set (dag_records n'))"
    using ok record_bytes_inj by (auto intro!: inj_onI)
  ultimately have "dag_records n = dag_records n'" by (rule map_inj_on)
  with 0 show ?case by (intro node_eqI) simp_all
next
  case (Suc d)
  have input: "hash_input n = hash_input n'"
    using Suc.prems(1,2,4) inj_onD [OF Suc.prems(3), of "hash_input n" "hash_input n'"] by simp
  have ok: "dag_ok digest d c" if "c \<in> set (kids n) \<union> set (kids n')" for c
    using that Suc.prems(1,2) by (auto simp: set_kids)
  have "concat (map dag_hash (kids n)) = concat (map dag_hash (kids n'))"
    using input Suc.prems(1,2) by (simp add: hash_input_kids)
  moreover have "\<forall>x \<in> set (map dag_hash (kids n)) \<union> set (map dag_hash (kids n')). length x = 48"
    using dag_hash_ok [OF ok] assms by auto
  ultimately have "map dag_hash (kids n) = map dag_hash (kids n')" by (rule concat_fixed) simp
  moreover have "inj_on dag_hash (set (kids n) \<union> set (kids n'))"
  proof (rule inj_onI)
    fix c c'
    assume c: "c \<in> set (kids n) \<union> set (kids n')" "c' \<in> set (kids n) \<union> set (kids n')" "dag_hash c = dag_hash c'"
    have "inj_on digest (set (inputs d c) \<union> set (inputs d c'))" by (rule inj_on_subset [OF Suc.prems(3)]) (use c(1,2) in auto)
    with Suc.IH ok c show "c = c'" by blast
  qed
  ultimately have "kids n = kids n'" by (rule map_inj_on)
  then have "dag_child t n = dag_child t n'" for t
    using child_of_kids [OF Suc.prems(1)] child_of_kids [OF Suc.prems(2)] by simp
  with Suc.prems show ?case by (intro node_eqI) simp_all
qed

subsection \<open>Upsert is last writer wins\<close>

lemma memcmp_order:
  assumes "length a = length b"
  shows "memcmp a b < 0 \<longleftrightarrow> a < b" "memcmp a b = 0 \<longleftrightarrow> a = b"
proof -
  have "key_cmp a b = memcmp a b" using assms by (cases "a = []") (simp_all add: key_cmp_def Let_def)
  then show "memcmp a b < 0 \<longleftrightarrow> a < b" "memcmp a b = 0 \<longleftrightarrow> a = b" using key_cmp_lex [of a b] by simp_all
qed

definition split_at :: "crdt_record list \<Rightarrow> bytes \<Rightarrow> nat \<Rightarrow> nat \<Rightarrow> bool" where
  "split_at rs key lo hi \<longleftrightarrow> lo \<le> hi \<and> hi \<le> length rs \<and> (\<forall>i < lo. vector_id (rs ! i) < key) \<and>
     (\<forall>i. hi \<le> i \<and> i < length rs \<longrightarrow> key < vector_id (rs ! i))"

lemma record_search_spec:
  assumes "rec_sorted rs" "\<forall>r \<in> set rs. length (vector_id r) = length key" "split_at rs key lo hi"
  shows "case record_search rs key lo hi of
      (True, pos) \<Rightarrow> pos < length rs \<and> vector_id (rs ! pos) = key
    | (False, pos) \<Rightarrow> split_at rs key pos pos"
  using assms(3)
proof (induction "hi - lo" arbitrary: lo hi rule: less_induct)
  case less
  let ?mid = "lo + (hi - lo) div 2"
  show ?case
  proof (cases "lo < hi")
    case True
    then have mid: "lo \<le> ?mid" "?mid < hi" "?mid < length rs" using less.prems by (auto simp: split_at_def)
    note cmp = memcmp_order [of "vector_id (rs ! ?mid)" key]
    have len: "length (vector_id (rs ! ?mid)) = length key" using assms(2) mid(3) by simp
    consider "vector_id (rs ! ?mid) = key" | "vector_id (rs ! ?mid) < key" | "key < vector_id (rs ! ?mid)" by fastforce
    then show ?thesis
    proof cases
      case 1
      then show ?thesis using True mid(3) cmp len by (simp add: record_search.simps [of rs key lo hi] Let_def)
    next
      case 2
      have "vector_id (rs ! i) < key" if "i < ?mid + 1" for i
        using sorted_wrt_nth_less [OF assms(1), of i ?mid] that mid(3) 2 by (cases "i = ?mid") auto
      then have "split_at rs key (?mid + 1) hi" using less.prems mid(2) by (auto simp: split_at_def)
      moreover have "hi - (?mid + 1) < hi - lo" using True mid by linarith
      ultimately show ?thesis
        using less.hyps [of hi "?mid + 1"] 2 True cmp len by (simp add: record_search.simps [of rs key lo hi] Let_def)
    next
      case 3
      have "key < vector_id (rs ! i)" if "?mid \<le> i" "i < length rs" for i
        using sorted_wrt_nth_less [OF assms(1), of ?mid i] that 3 by (cases "i = ?mid") auto
      then have "split_at rs key lo ?mid" using less.prems mid by (auto simp: split_at_def)
      moreover have "?mid - lo < hi - lo" using True mid by linarith
      moreover have "memcmp (vector_id (rs ! ?mid)) key \<noteq> 0" "\<not> memcmp (vector_id (rs ! ?mid)) key < 0"
        using 3 cmp len by auto
      ultimately show ?thesis
        using less.hyps [of ?mid lo] True by (simp add: record_search.simps [of rs key lo hi] Let_def)
    qed
  next
    case False
    have "hi = lo" using False less.prems by (simp add: split_at_def)
    moreover have "record_search rs key lo hi = (False, lo)" using False by (simp add: record_search.simps [of rs key lo hi])
    ultimately show ?thesis using less.prems by simp
  qed
qed

definition good_crdt :: crdt_env where
  "good_crdt = \<lparr>ok_node = (\<lambda>_. True), ok_records = True, ok_digest = (\<lambda>_. True)\<rparr>"

definition fresh_node :: dag_node where
  "fresh_node = DagNode (replicate 48 0) None None None []"

lemma good_crdt_simps [simp]: "ok_node good_crdt i" "ok_records good_crdt" "ok_digest good_crdt i"
  "create_dag_node True = Some fresh_node"
  by (simp_all add: good_crdt_def create_dag_node_def fresh_node_def)

lemma fresh_simps [simp]: "dag_child t fresh_node = None" "dag_records fresh_node = []"
  by (simp_all add: fresh_node_def dag_child_def split: trit.splits)

lemma recs_fresh [simp]: "recs d fresh_node = []"
  by (cases d) (simp_all add: kids_def map_filter_def)

lemma compute_simps [simp]:
  "dag_child t (compute_node_hash digest ok n) = dag_child t n"
  "dag_records (compute_node_hash digest ok n) = dag_records n"
  "hash_input (compute_node_hash digest ok n) = hash_input n"
  "dag_hash (compute_node_hash digest True n) = digest (hash_input n)"
  by (simp_all add: compute_node_hash_def dag_child_def hash_input_def split: trit.splits)

lemma set_child_simps [simp]:
  "dag_child t (set_child t' c n) = (if t = t' then Some c else dag_child t n)"
  "dag_records (set_child t' c n) = dag_records n"
  "dag_child t (set_records rs n) = dag_child t n" "dag_records (set_records rs n) = rs"
  by (cases t; cases t'; simp add: set_child_def set_records_def dag_child_def)+

lemma set_child_same: "dag_child t n = Some c \<Longrightarrow> set_child t c n = n"
  by (cases n; cases t) (simp_all add: set_child_def dag_child_def)

lemma leaf_replace:
  assumes "rec_sorted rs" "pos < length rs" "vector_id (rs ! pos) = vector_id r"
  shows "rec_sorted (rs[pos := r])" "set (rs[pos := r]) = insert r {r0 \<in> set rs. vector_id r0 \<noteq> vector_id r}"
proof -
  have rs: "rs = take pos rs @ rs ! pos # drop (Suc pos) rs" using assms(2) by (rule id_take_nth_drop)
  have upd: "rs[pos := r] = take pos rs @ r # drop (Suc pos) rs" using assms(2) by (rule upd_conv_take_nth_drop)
  have s: "rec_sorted (take pos rs @ rs ! pos # drop (Suc pos) rs)" using assms(1) rs by simp
  then show "rec_sorted (rs[pos := r])" unfolding upd by (simp add: sorted_wrt_append assms(3))
  have "\<forall>x \<in> set (take pos rs) \<union> set (drop (Suc pos) rs). vector_id x \<noteq> vector_id r"
    using s by (auto simp: sorted_wrt_append assms(3))
  moreover have "set rs = insert (rs ! pos) (set (take pos rs) \<union> set (drop (Suc pos) rs))"
    by (subst rs) simp
  ultimately show "set (rs[pos := r]) = insert r {r0 \<in> set rs. vector_id r0 \<noteq> vector_id r}"
    unfolding upd using assms(3) by auto
qed

lemma leaf_insert:
  assumes "rec_sorted rs" "split_at rs (vector_id r) pos pos"
  shows "rec_sorted (take pos rs @ r # drop pos rs)" "set (take pos rs @ r # drop pos rs) = insert r (set rs)"
    "\<forall>r0 \<in> set rs. vector_id r0 \<noteq> vector_id r"
proof -
  have s: "rec_sorted (take pos rs @ drop pos rs)" using assms(1) by simp
  have lt: "vector_id x < vector_id r" if "x \<in> set (take pos rs)" for x
    using that assms(2) by (auto simp: split_at_def in_set_conv_nth)
  have gt: "vector_id r < vector_id x" if "x \<in> set (drop pos rs)" for x
    using that assms(2) by (auto simp: split_at_def in_set_conv_nth)
  from s lt gt show "rec_sorted (take pos rs @ r # drop pos rs)" unfolding sorted_wrt_append by auto
  have set: "set rs = set (take pos rs) \<union> set (drop pos rs)" by (metis append_take_drop_id set_append)
  then show "set (take pos rs @ r # drop pos rs) = insert r (set rs)" by simp
  show "\<forall>r0 \<in> set rs. vector_id r0 \<noteq> vector_id r" unfolding set using lt gt by fastforce
qed

lemma upsert_leaf_spec:
  assumes "n = fresh_node \<or> dag_ok digest 0 n" "rec_ok r"
  shows "\<exists>n'. upsert_leaf digest good_crdt r i n =
      Some (if lww_put r (set (recs 0 n)) = set (recs 0 n) then UpsertOlder else UpsertChanged, n') \<and>
    dag_ok digest 0 n' \<and> set (recs 0 n') = lww_put r (set (recs 0 n)) \<and>
    (lww_put r (set (recs 0 n)) = set (recs 0 n) \<longrightarrow> n' = n)"
proof -
  let ?rs = "dag_records n"
  have n: "rec_sorted ?rs" "\<forall>r \<in> set ?rs. rec_ok r" "\<And>t. dag_child t n = None" using assms(1) by auto
  have ids: "\<forall>r0 \<in> set ?rs. length (vector_id r0) = length (vector_id r)" using n(2) assms(2) by (auto simp: rec_ok_def)
  obtain f pos where fp: "record_search ?rs (vector_id r) 0 (length ?rs) = (f, pos)" by (metis surj_pair)
  have spec: "if f then pos < length ?rs \<and> vector_id (?rs ! pos) = vector_id r else split_at ?rs (vector_id r) pos pos"
  proof -
    have "split_at ?rs (vector_id r) 0 (length ?rs)" by (auto simp: split_at_def)
    from record_search_spec [OF n(1) ids this] fp show ?thesis by (cases f) simp_all
  qed
  have dag: "dag_ok digest 0 (compute_node_hash digest True (set_records rs n))"
    if "rs \<noteq> []" "rec_sorted rs" "\<forall>r \<in> set rs. rec_ok r" for rs using that n(3) by simp
  show ?thesis
  proof (cases f)
    case True
    then have pos: "pos < length ?rs" "vector_id (?rs ! pos) = vector_id r" using spec by simp_all
    have uniq: "r0 = ?rs ! pos" if "r0 \<in> set ?rs" "vector_id r0 = vector_id r" for r0
      using leaf_replace(2) [OF n(1) pos(1) refl] that pos by auto
    show ?thesis
    proof (cases "timestamp r > timestamp (?rs ! pos)")
      case newer: True
      have new: "(?rs ! pos)\<lparr>timestamp := timestamp r, is_deleted_rec := is_deleted_rec r, payload_hash := payload_hash r\<rparr> = r"
        using pos(2) by (intro crdt_record.equality) simp_all
      have put: "lww_put r (set ?rs) = set (?rs[pos := r])"
        using newer uniq leaf_replace(2) [OF n(1) pos] by (auto simp: lww_put_def)
      have "r \<notin> set ?rs" using uniq newer by fastforce
      moreover have "r \<in> set (?rs[pos := r])" using pos(1) by (rule set_update_memI)
      ultimately have "lww_put r (set ?rs) \<noteq> set ?rs" using put by blast
      moreover have "dag_ok digest 0 (compute_node_hash digest True (set_records (?rs[pos := r]) n))"
        using pos(1) leaf_replace [OF n(1) pos] n(2) assms(2) by (intro dag) auto
      ultimately show ?thesis
        using put newer fp True by (simp add: upsert_leaf_def Let_def new)
    next
      case False
      then have "lww_put r (set ?rs) = set ?rs" using pos by (auto simp: lww_put_def not_less intro!: bexI [of _ "?rs ! pos"])
      moreover have "n \<noteq> fresh_node" using pos(1) by auto
      ultimately show ?thesis using False fp True assms(1) by (simp add: upsert_leaf_def Let_def)
    qed
  next
    case False
    then have s: "split_at ?rs (vector_id r) pos pos" using spec by simp
    note ins = leaf_insert [OF n(1) s]
    have put: "lww_put r (set ?rs) = insert r (set ?rs)" using ins(3) by (auto simp: lww_put_def)
    have "lww_put r (set ?rs) \<noteq> set ?rs" using put ins(3) by auto
    moreover have "dag_ok digest 0 (compute_node_hash digest True (set_records (take pos ?rs @ r # drop pos ?rs) n))"
      using ins n(2) assms(2) by (intro dag) auto
    ultimately show ?thesis using put ins(2) fp False n(2) by (simp add: upsert_leaf_def Let_def)
  qed
qed

lemma lww_put_same:
  "lww_put r R = R \<longleftrightarrow> (\<exists>r0 \<in> R. vector_id r0 = vector_id r \<and> timestamp r \<le> timestamp r0)" (is "_ \<longleftrightarrow> ?older")
proof (cases ?older)
  case False
  then have "r \<notin> R" by auto
  moreover have "r \<in> lww_put r R" unfolding lww_put_def if_not_P [OF False] by simp
  ultimately show ?thesis using False by blast
qed (simp add: lww_put_def)

lemma lww_put_union:
  assumes "\<forall>x \<in> B. vector_id x \<noteq> vector_id r"
  shows "lww_put r (A \<union> B) = lww_put r A \<union> B" "lww_put r (A \<union> B) = A \<union> B \<longleftrightarrow> lww_put r A = A"
proof -
  show "lww_put r (A \<union> B) = lww_put r A \<union> B" using assms by (auto simp: lww_put_def)
  show "lww_put r (A \<union> B) = A \<union> B \<longleftrightarrow> lww_put r A = A" unfolding lww_put_same using assms by auto
qed

definition child_recs :: "nat \<Rightarrow> dag_node \<Rightarrow> trit \<Rightarrow> crdt_record set" where
  "child_recs d n t = (case dag_child t n of None \<Rightarrow> {} | Some c \<Rightarrow> set (recs d c))"

lemma child_recs_mem: "r \<in> child_recs d n t \<longleftrightarrow> (\<exists>c. dag_child t n = Some c \<and> r \<in> set (recs d c))"
  by (cases "dag_child t n") (auto simp: child_recs_def)

lemma recs_child_split: "set (recs (Suc d) n) = child_recs d n t \<union> (\<Union>t' \<in> - {t}. child_recs d n t')"
proof (rule set_eqI)
  fix r
  have "r \<in> set (recs (Suc d) n) \<longleftrightarrow> (\<exists>t'. r \<in> child_recs d n t')"
    unfolding mem_recs_Suc child_recs_mem ..
  then show "r \<in> set (recs (Suc d) n) \<longleftrightarrow> r \<in> child_recs d n t \<union> (\<Union>t' \<in> - {t}. child_recs d n t')" by auto
qed

lemma node_levels:
  assumes "n = fresh_node \<or> dag_ok digest (Suc d) n"
  shows "dag_records n = []" "dag_child t n = Some c \<Longrightarrow> dag_ok digest d c"
    "dag_child t n = Some c \<Longrightarrow> x \<in> set (recs d c) \<Longrightarrow> t = trit_of (vector_id x ! (7 - d))"
  using assms by auto

lemma dag_ok_set_child:
  assumes n: "n = fresh_node \<or> dag_ok digest (Suc d) n" and c: "dag_ok digest d c"
    and t: "\<forall>x \<in> set (recs d c). trit_of (vector_id x ! (7 - d)) = t"
  shows "dag_ok digest (Suc d) (compute_node_hash digest True (set_child t c n))"
proof -
  let ?n = "compute_node_hash digest True (set_child t c n)"
  have "dag_ok digest d c0 \<and> (\<forall>x \<in> set (recs d c0). trit_of (vector_id x ! (7 - d)) = t')"
    if "dag_child t' ?n = Some c0" for t' c0
  proof (cases "t' = t")
    case False
    with that have "dag_child t' n = Some c0" by simp
    with node_levels(2,3) [OF n this] show ?thesis by simp
  qed (use that c t in simp)
  moreover have "dag_child t ?n \<noteq> None" by simp
  moreover have "dag_records ?n = []" "dag_hash ?n = digest (hash_input ?n)" using node_levels(1) [OF n] by simp_all
  ultimately show ?thesis unfolding dag_ok.simps by blast
qed

lemma path_step:
  assumes "rec_ok r" "Suc d \<le> 8"
  shows "drop (8 - Suc d) (take 8 (vector_id r)) = vector_id r ! (7 - d) # drop (8 - d) (take 8 (vector_id r))"
proof -
  have "8 - Suc d = 7 - d" "8 - d = Suc (7 - d)" "7 - d < length (take 8 (vector_id r))"
    using assms by (auto simp: rec_ok_def)
  then show ?thesis using Cons_nth_drop_Suc [of "7 - d" "take 8 (vector_id r)"] by simp
qed

lemma other_children:
  assumes "n = fresh_node \<or> dag_ok digest (Suc d) n" "t = trit_of (vector_id r ! (7 - d))"
  shows "\<forall>x \<in> (\<Union>t' \<in> - {t}. child_recs d n t'). vector_id x \<noteq> vector_id r"
proof
  fix x
  assume "x \<in> (\<Union>t' \<in> - {t}. child_recs d n t')"
  then obtain t' c0 where "t' \<noteq> t" "dag_child t' n = Some c0" "x \<in> set (recs d c0)" by (auto simp: child_recs_mem)
  with node_levels(3) [OF assms(1)] assms(2) show "vector_id x \<noteq> vector_id r" by metis
qed

lemma put_trit:
  assumes "n = fresh_node \<or> dag_ok digest (Suc d) n" "t = trit_of (vector_id r ! (7 - d))"
    and "set (recs d c) \<noteq> {} \<Longrightarrow> dag_child t n = Some c" "x \<in> lww_put r (set (recs d c))"
  shows "trit_of (vector_id x ! (7 - d)) = t"
proof (cases "x = r")
  case False
  with assms(4) have x: "x \<in> set (recs d c)" by (auto simp: lww_put_def split: if_splits)
  then have "dag_child t n = Some c" by (intro assms(3)) auto
  from node_levels(3) [OF assms(1) this x] show ?thesis ..
qed (simp add: assms(2))

definition put_spec :: "digest_fun \<Rightarrow> nat \<Rightarrow> crdt_record \<Rightarrow> dag_node \<Rightarrow> (upsert_outcome \<times> dag_node) option \<Rightarrow> bool" where
  "put_spec digest d r n res \<longleftrightarrow>
     (let R = set (recs d n) in
      \<exists>n'. res = Some (if lww_put r R = R then UpsertOlder else UpsertChanged, n') \<and> dag_ok digest d n' \<and>
        set (recs d n') = lww_put r R \<and> (lww_put r R = R \<longrightarrow> n' = n))"

lemma put_specI:
  assumes "res = Some (if lww_put r (set (recs d n)) = set (recs d n) then UpsertOlder else UpsertChanged, n')"
    "dag_ok digest d n'" "set (recs d n') = lww_put r (set (recs d n))" "lww_put r (set (recs d n)) = set (recs d n) \<Longrightarrow> n' = n"
  shows "put_spec digest d r n res"
  unfolding put_spec_def Let_def using assms by blast

lemma put_spec_child:
  assumes r: "rec_ok r" and d: "Suc d \<le> 8" and n: "n = fresh_node \<or> dag_ok digest (Suc d) n"
    and t: "t = trit_of (vector_id r ! (7 - d))" and c: "c = (case dag_child t n of None \<Rightarrow> fresh_node | Some c \<Rightarrow> c)"
    and IH: "put_spec digest d r c (upsert_at digest good_crdt r (Suc i) (drop (8 - d) (take 8 (vector_id r))) c)"
  shows "put_spec digest (Suc d) r n (upsert_at digest good_crdt r i (drop (8 - Suc d) (take 8 (vector_id r))) n)"
proof -
  define A where "A = set (recs d c)"
  define B where "B = (\<Union>t' \<in> - {t}. child_recs d n t')"
  from IH obtain c' where c': "upsert_at digest good_crdt r (Suc i) (drop (8 - d) (take 8 (vector_id r))) c =
       Some (if lww_put r A = A then UpsertOlder else UpsertChanged, c')"
    "dag_ok digest d c'" "set (recs d c') = lww_put r A" "lww_put r A = A \<Longrightarrow> c' = c"
    unfolding put_spec_def Let_def A_def by blast
  have all: "set (recs (Suc d) n) = A \<union> B"
    unfolding recs_child_split [of d n t] A_def B_def c by (cases "dag_child t n") (simp_all add: child_recs_def)
  have union: "lww_put r (A \<union> B) = lww_put r A \<union> B" "lww_put r (A \<union> B) = A \<union> B \<longleftrightarrow> lww_put r A = A"
    using lww_put_union [of B r A] other_children [OF n t] unfolding B_def by blast+
  have child: "dag_child t n = Some c" if "A \<noteq> {}" using that by (auto simp: A_def c split: option.splits)
  define n' where "n' = (if lww_put r A = A then set_child t c' n else compute_node_hash digest True (set_child t c' n))"
  have kids': "dag_child t' n' = (if t' = t then Some c' else dag_child t' n)" for t' by (simp add: n'_def)
  have run: "upsert_at digest good_crdt r i (drop (8 - Suc d) (take 8 (vector_id r))) n =
      Some (if lww_put r A = A then UpsertOlder else UpsertChanged, n')"
    using c'(1) unfolding path_step [OF r d] c t n'_def
    by (cases "dag_child (trit_of (vector_id r ! (7 - d))) n") (simp_all add: Let_def)
  have recs': "set (recs (Suc d) n') = lww_put r A \<union> B"
    unfolding recs_child_split [of d n' t] child_recs_def kids' B_def using c'(3) by simp
  have same: "n' = n \<and> dag_ok digest (Suc d) n'" if older: "lww_put r A = A"
  proof -
    have "A \<noteq> {}" using older by (auto simp: lww_put_same)
    with child have "dag_child t n = Some c" by blast
    moreover have "n \<noteq> fresh_node" using calculation by auto
    ultimately show ?thesis using n c'(4) [OF older] older by (auto simp: n'_def set_child_same simp del: dag_ok.simps)
  qed
  have trit: "trit_of (vector_id x ! (7 - d)) = t" if "x \<in> lww_put r A" for x
    using put_trit [OF n t, of c x] child that unfolding A_def by blast
  have "dag_ok digest (Suc d) n'"
  proof (cases "lww_put r A = A")
    case False
    then show ?thesis using dag_ok_set_child [OF n c'(2), of t] trit c'(3) by (simp add: n'_def del: dag_ok.simps)
  qed (use same in blast)
  with run recs' same union all show ?thesis by (intro put_specI [of _ _ _ _ n']) auto
qed

lemma upsert_at_spec:
  assumes "rec_ok r"
  shows "n = fresh_node \<or> dag_ok digest d n \<Longrightarrow> d \<le> 8 \<Longrightarrow>
    put_spec digest d r n (upsert_at digest good_crdt r i (drop (8 - d) (take 8 (vector_id r))) n)"
proof (induction d arbitrary: n i)
  case 0
  then show ?case using upsert_leaf_spec [of n digest r i] assms by (simp add: rec_ok_def put_spec_def Let_def)
next
  case (Suc d)
  let ?c = "case dag_child (trit_of (vector_id r ! (7 - d))) n of None \<Rightarrow> fresh_node | Some c \<Rightarrow> c"
  have "?c = fresh_node \<or> dag_ok digest d ?c"
    using node_levels(2) [OF Suc.prems(1)] by (auto split: option.splits)
  with Suc.IH [OF this] Suc.prems(2) show ?case by (intro put_spec_child [OF assms _ Suc.prems(1) refl refl]) simp_all
qed

end
