(* ===== verification/CrdtProps.thy ===== *)
theory CrdtProps
  imports CrdtTree
begin

section \<open>Properties of the replicated set\<close>

text \<open>
  Replicas as sequences of upserts applied to a new manager, with allocations that succeed.
\<close>

subsection \<open>Replicas\<close>

fun crdt_apply :: "digest_fun \<Rightarrow> crdt_record list \<Rightarrow> crdt_manager \<Rightarrow> crdt_manager option" where
  "crdt_apply digest [] m = Some m"
| "crdt_apply digest (r # rs) m =
     (case qihse_crdt_upsert digest good_crdt m r of None \<Rightarrow> None | Some (changed, m') \<Rightarrow> crdt_apply digest rs m')"

definition crdt_records :: "crdt_manager \<Rightarrow> crdt_record set" where
  "crdt_records m = (case dag_root m of None \<Rightarrow> {} | Some n \<Rightarrow> set (recs 8 n))"

definition crdt_inputs :: "crdt_manager \<Rightarrow> bytes list" where
  "crdt_inputs m = (case dag_root m of None \<Rightarrow> [] | Some n \<Rightarrow> inputs 8 n)"

definition crdt_ok :: "digest_fun \<Rightarrow> crdt_manager \<Rightarrow> bool" where
  "crdt_ok digest m \<longleftrightarrow> local_clock m = 0 \<and> (\<exists>n. dag_root m = Some n \<and> (n = fresh_node \<or> dag_ok digest 8 n))"

definition new_crdt :: crdt_manager where
  "new_crdt = snd (qihse_crdt_init True)"

lemma new_crdt_ok: "crdt_ok digest new_crdt" "crdt_records new_crdt = {}"
  by (simp_all add: new_crdt_def qihse_crdt_init_def crdt_ok_def crdt_records_def Let_def)

lemma upsert_lww:
  assumes "crdt_ok digest m" "rec_ok r"
  obtains m' where "qihse_crdt_upsert digest good_crdt m r = Some (lww_put r (crdt_records m) \<noteq> crdt_records m, m')"
    "crdt_ok digest m'" "crdt_records m' = lww_put r (crdt_records m)" "dag_root m' \<noteq> Some fresh_node"
proof -
  obtain n where n: "dag_root m = Some n" "n = fresh_node \<or> dag_ok digest 8 n" "local_clock m = 0"
    using assms(1) by (auto simp: crdt_ok_def)
  let ?R = "set (recs 8 n)"
  obtain n' where n': "upsert_at digest good_crdt r 0 (take 8 (vector_id r)) n =
      Some (if lww_put r ?R = ?R then UpsertOlder else UpsertChanged, n')" "dag_ok digest 8 n'" "set (recs 8 n') = lww_put r ?R"
    using upsert_at_spec [OF assms(2) n(2), of 0] unfolding put_spec_def Let_def by auto
  have "n' \<noteq> fresh_node" using recs_nonempty [OF n'(2)] by auto
  with n n' show thesis
    by (intro that [of "m\<lparr>dag_root := Some n'\<rparr>"]) (simp_all add: qihse_crdt_upsert_def crdt_ok_def crdt_records_def)
qed

lemma apply_lww_ex:
  "crdt_ok digest m \<Longrightarrow> \<forall>r \<in> set ops. rec_ok r \<Longrightarrow>
   \<exists>m'. crdt_apply digest ops m = Some m' \<and> crdt_ok digest m' \<and> crdt_records m' = fold lww_put ops (crdt_records m) \<and>
     (ops \<noteq> [] \<or> dag_root m \<noteq> Some fresh_node \<longrightarrow> dag_root m' \<noteq> Some fresh_node)"
proof (induction ops arbitrary: m)
  case (Cons r ops)
  have r: "rec_ok r" "\<forall>r \<in> set ops. rec_ok r" using Cons.prems(2) by auto
  obtain m1 where m1: "qihse_crdt_upsert digest good_crdt m r = Some (lww_put r (crdt_records m) \<noteq> crdt_records m, m1)"
    "crdt_ok digest m1" "crdt_records m1 = lww_put r (crdt_records m)" "dag_root m1 \<noteq> Some fresh_node"
    by (rule upsert_lww [OF Cons.prems(1) r(1)])
  from Cons.IH [OF m1(2) r(2)] m1 show ?case by simp
qed simp

lemma apply_lww:
  assumes "\<forall>r \<in> set ops. rec_ok r"
  obtains m where "crdt_apply digest ops new_crdt = Some m" "crdt_ok digest m"
    "crdt_records m = fold lww_put ops {}" "ops \<noteq> [] \<Longrightarrow> dag_root m \<noteq> Some fresh_node"
  using apply_lww_ex [OF new_crdt_ok(1) assms] unfolding new_crdt_ok(2) by blast

lemma crdt_canonical:
  assumes "crdt_ok digest m" "crdt_ok digest m'" "crdt_records m = crdt_records m'"
  shows "m = m'"
proof -
  obtain n n' where n: "dag_root m = Some n" "n = fresh_node \<or> dag_ok digest 8 n"
    "dag_root m' = Some n'" "n' = fresh_node \<or> dag_ok digest 8 n'" "local_clock m = local_clock m'"
    using assms(1,2) by (auto simp: crdt_ok_def)
  have "set (recs 8 n) = set (recs 8 n')" using assms(3) n by (simp add: crdt_records_def)
  then have "n = n'" using n dag_unique recs_nonempty by (metis recs_fresh set_empty)
  with n show ?thesis by (intro crdt_manager.equality) simp_all
qed

subsection \<open>Examples\<close>

definition demo_record :: "u8 \<Rightarrow> u64 \<Rightarrow> u8 \<Rightarrow> crdt_record" where
  "demo_record k ts p = \<lparr>vector_id = replicate 16 k, timestamp = ts, is_deleted_rec = False, payload_hash = replicate 48 p\<rparr>"

definition demo_digest :: digest_fun where
  "demo_digest bs =
     (if length bs = 48 then (hd bs + 1) # tl bs else take 48 (bs @ replicate 48 0))"

lemma demo_record_ok: "rec_ok (demo_record k ts p)"
  by (simp add: demo_record_def rec_ok_def)

lemma demo_digest_length: "length (demo_digest bs) = 48"
  by (cases bs) (auto simp: demo_digest_def min_def)

subsection \<open>Properties\<close>

text \<open>
  C11: Strong eventual consistency. Two replicas that start empty and receive the same upserts, in any order and with
  any repetitions, end in the same state, tree and root hash included, for every digest; the records are, for
  every identifier, the one with the greatest timestamp. No two different upserts of an identifier may have
  equal timestamps.
\<close>
theorem crdt_converges:
  assumes "set ops = set ops'" "\<forall>r \<in> set ops. rec_ok r" "no_ties (set ops)"
  shows "\<exists>m. crdt_apply digest ops new_crdt = Some m \<and> crdt_apply digest ops' new_crdt = Some m \<and>
    crdt_records m = latest (set ops)"
proof -
  obtain m where m: "crdt_apply digest ops new_crdt = Some m" "crdt_ok digest m" "crdt_records m = fold lww_put ops {}"
    by (rule apply_lww [OF assms(2)])
  have "\<forall>r \<in> set ops'. rec_ok r" using assms(1,2) by simp
  then obtain m' where m': "crdt_apply digest ops' new_crdt = Some m'" "crdt_ok digest m'" "crdt_records m' = fold lww_put ops' {}"
    by (rule apply_lww)
  have "crdt_records m = latest (set ops)" "crdt_records m' = latest (set ops)"
    using lww_run_latest [of ops] lww_run_latest [of ops'] assms(1,3) m(3) m'(3) by simp_all
  with crdt_canonical [OF m(2) m'(2)] m(1) m'(1) show ?thesis by auto
qed

theorem crdt_converges_witness:
  "\<exists>m. crdt_apply demo_digest [demo_record 1 5 7, demo_record 1 6 8] new_crdt = Some m \<and>
     crdt_apply demo_digest [demo_record 1 6 8, demo_record 1 5 7, demo_record 1 6 8] new_crdt = Some m \<and>
     crdt_records m = {demo_record 1 6 8}"
proof -
  have "no_ties {demo_record 1 5 7, demo_record 1 6 8}" by (auto simp: no_ties_def demo_record_def)
  moreover have "latest {demo_record 1 5 7, demo_record 1 6 8} = {demo_record 1 6 8}" by (auto simp: latest_def demo_record_def)
  ultimately show ?thesis
    using crdt_converges [of "[demo_record 1 5 7, demo_record 1 6 8]" "[demo_record 1 6 8, demo_record 1 5 7, demo_record 1 6 8]" demo_digest]
    by (simp add: demo_record_ok insert_commute)
qed

text \<open>
  C17: Comparing root hashes is exact. Two replicas that have received at least one upsert each have equal root hashes
  exactly if they hold the same records, provided the digest yields 48 bytes and has no collision among
  the inputs hashed in the two trees.
\<close>
theorem crdt_root_hash_exact:
  assumes "crdt_apply digest ops new_crdt = Some m" "crdt_apply digest ops' new_crdt = Some m'"
    and "ops \<noteq> []" "ops' \<noteq> []" "\<forall>r \<in> set ops \<union> set ops'. rec_ok r"
    and "\<And>x. length (digest x) = 48" "inj_on digest (set (crdt_inputs m) \<union> set (crdt_inputs m'))"
  shows "qihse_crdt_get_root_hash m = qihse_crdt_get_root_hash m' \<longleftrightarrow> crdt_records m = crdt_records m'"
proof -
  have ok: "\<forall>r \<in> set ops. rec_ok r" "\<forall>r \<in> set ops'. rec_ok r" using assms(5) by blast+
  have m: "crdt_ok digest m \<and> dag_root m \<noteq> Some fresh_node"
    by (rule apply_lww [OF ok(1), of digest]) (use assms(1,3) in simp)
  have m': "crdt_ok digest m' \<and> dag_root m' \<noteq> Some fresh_node"
    by (rule apply_lww [OF ok(2), of digest]) (use assms(2,4) in simp)
  obtain n n' where n: "dag_root m = Some n" "dag_ok digest 8 n" "dag_root m' = Some n'" "dag_ok digest 8 n'"
    using m m' by (auto simp: crdt_ok_def)
  show ?thesis
  proof
    assume "qihse_crdt_get_root_hash m = qihse_crdt_get_root_hash m'"
    then have "n = n'" using merkle [OF assms(6) n(2,4)] assms(7) n by (simp add: qihse_crdt_get_root_hash_def crdt_inputs_def)
    with n show "crdt_records m = crdt_records m'" by (simp add: crdt_records_def)
  qed (use crdt_canonical [of digest m m'] m m' in simp)
qed

theorem crdt_root_hash_exact_witness:
  "\<exists>m m'. crdt_apply demo_digest [demo_record 1 5 7] new_crdt = Some m \<and>
     crdt_apply demo_digest [demo_record 1 5 7, demo_record 1 6 8] new_crdt = Some m' \<and>
     inj_on demo_digest (set (crdt_inputs m) \<union> set (crdt_inputs m')) \<and>
     qihse_crdt_get_root_hash m \<noteq> qihse_crdt_get_root_hash m'"
proof -
  have "(case (crdt_apply demo_digest [demo_record 1 5 7] new_crdt, crdt_apply demo_digest [demo_record 1 5 7, demo_record 1 6 8] new_crdt) of
        (Some m, Some m') \<Rightarrow> distinct (map demo_digest (crdt_inputs m @ crdt_inputs m')) \<and> crdt_records m \<noteq> crdt_records m'
      | _ \<Rightarrow> False)" by code_simp
  then obtain m m' where m: "crdt_apply demo_digest [demo_record 1 5 7] new_crdt = Some m"
    "crdt_apply demo_digest [demo_record 1 5 7, demo_record 1 6 8] new_crdt = Some m'"
    "distinct (map demo_digest (crdt_inputs m @ crdt_inputs m'))" "crdt_records m \<noteq> crdt_records m'"
    by (auto split: option.splits simp del: crdt_apply.simps)
  then have inj: "inj_on demo_digest (set (crdt_inputs m) \<union> set (crdt_inputs m'))"
    unfolding distinct_map by simp
  have "qihse_crdt_get_root_hash m \<noteq> qihse_crdt_get_root_hash m'"
    using crdt_root_hash_exact [OF m(1,2) _ _ _ demo_digest_length inj] m(4) by (simp add: demo_record_ok)
  with m(1,2) inj show ?thesis by blast
qed

lemma tied_first_wins:
  assumes "vector_id a = vector_id b" "timestamp a = timestamp b" "set ops \<subseteq> {a, b}"
  shows "fold lww_put ops {a} = {a}"
  using assms(3)
proof (induction ops)
  case (Cons r ops)
  then have "lww_put r {a} = {a}" using assms(1,2) by (auto simp: lww_put_same)
  with Cons show ?case by simp
qed simp

text \<open>
  C36: Ties are not resolved. When two replicas first receive different records with the same identifier and
  timestamp, each keeps its own whatever they then exchange of these two records: they never
  converge.
\<close>
theorem crdt_tie_diverges:
  assumes "vector_id a = vector_id b" "timestamp a = timestamp b" "rec_ok a" "rec_ok b"
    and "set ops \<subseteq> {a, b}" "set ops' \<subseteq> {a, b}"
  shows "\<exists>m m'. crdt_apply digest (a # ops) new_crdt = Some m \<and> crdt_apply digest (b # ops') new_crdt = Some m' \<and>
    crdt_records m = {a} \<and> crdt_records m' = {b}"
proof -
  have run: "\<exists>m. crdt_apply digest (x # xs) new_crdt = Some m \<and> crdt_records m = {x}"
    if "vector_id x = vector_id y" "timestamp x = timestamp y" "rec_ok x" "rec_ok y" "set xs \<subseteq> {x, y}" for x y xs
  proof -
    have "\<forall>r \<in> set (x # xs). rec_ok r" using that by auto
    then obtain m where "crdt_apply digest (x # xs) new_crdt = Some m" "crdt_records m = fold lww_put (x # xs) {}"
      by (rule apply_lww)
    moreover have "fold lww_put (x # xs) {} = {x}" using tied_first_wins that by (simp add: lww_put_def)
    ultimately show ?thesis by simp
  qed
  from run [of a b ops] run [of b a ops'] assms show ?thesis by (auto simp: insert_commute)
qed

theorem crdt_tie_diverges_witness:
  "demo_record 1 5 7 \<noteq> demo_record 1 5 8 \<and>
   (\<exists>m m'. crdt_apply demo_digest [demo_record 1 5 7, demo_record 1 5 8] new_crdt = Some m \<and>
      crdt_apply demo_digest [demo_record 1 5 8, demo_record 1 5 7] new_crdt = Some m' \<and>
      crdt_records m = {demo_record 1 5 7} \<and> crdt_records m' = {demo_record 1 5 8})"
  using crdt_tie_diverges [of "demo_record 1 5 7" "demo_record 1 5 8" "[demo_record 1 5 8]" "[demo_record 1 5 7]" demo_digest]
  by (simp add: demo_record_def rec_ok_def)

end
