(* ===== verification/Spec2Isabelle.thy ===== *)
theory Spec2Isabelle
  imports RecoveryProps IndexProps CrdtProps
begin

text \<open>
  This library verifies the transactional core of QIHSE: the code that decides what a committed write is, keeps it
  across crashes and finds it again, and the replicated set that carries records between nodes.
  File names below are relative to \<^verbatim>\<open>src/\<close>.

  \<^bold>\<open>The parts and how they interact.\<close>
  A transaction (\<^verbatim>\<open>src/tractable/qihse_txn.c\<close>) gets an identifier and a snapshot from the manager. Its
  writes go to the version store (\<^verbatim>\<open>src/tractable/qihse_mvcc.c\<close>), which keeps a chain of versions per row
  and answers reads by asking the manager which transactions are committed. The write-ahead log
  (\<^verbatim>\<open>src/tractable/qihse_wal.c\<close>) stores the same writes and the commit decisions as checksummed records in
  segment files. After a crash, recovery (\<^verbatim>\<open>src/tractable/qihse_recovery.c\<close>) replays the log, registers
  the committed transactions with a new manager and redoes their writes in a new store. Secondary indexes
  (\<^verbatim>\<open>src/frieze/qihse_btree.c\<close>, \<^verbatim>\<open>src/frieze/qihse_hash_index.c\<close>) map keys to rows; the index manager
  (\<^verbatim>\<open>src/frieze/qihse_index_manager.c\<close>) extracts the keys of a row and maintains every registered index.
  The replicated set (\<^verbatim>\<open>sync/qihse_crdt.c\<close>) is independent of the others.

  \<^bold>\<open>Conventions of the model.\<close>
  A C structure is a record or datatype with the names of its fields, an integer of fixed width is a word of that width
  wherever the code stores, shifts, compares or wraps it, a byte buffer is a list of bytes, and a pointer
  that may be null is an option. Each function of the code is one definition with its name; it takes the state and returns
  the result and the new state, in the order of the C code with its early returns. A section under a
  mutex is one atomic function, so interleavings of threads are the sequences of sections. Most calls are one section;
  the two that do their work in a second one have it as a definition of its own (\<open>update_section\<close> of an update,
  before the insert of a missing row, and \<open>checkpoint_section\<close> of a log checkpoint). What the
  environment decides is an argument: whether an allocation succeeds (records named \<open>..._env\<close>), what a system call returns
  (\<open>io\<close>), what a callback returns. Where the code would follow an unchecked null pointer, write outside
  an array or loop for ever, the model returns \<^const>\<open>None\<close>. Sizes (\<^verbatim>\<open>size_t\<close>) and counts of objects in memory are
  natural numbers except where the code relies on their width.

  \<^bold>\<open>Theories.\<close>
  \<^item> \<open>Prelude\<close>: type names, collections of rewrite rules, shared facts on lists, options and words.
    \<open>Buckets\<close>: the interface of a chained hash table, the locale \<open>bucket_table\<close>, interpreted in
    \<open>Mvcc\<close> on the row table and in \<open>Txn\<close> on the registry.
  \<^item> \<open>Mvcc\<close>: the version store, one definition per function of \<^verbatim>\<open>qihse_mvcc.c\<close>. Invariant of
    the store; which writes a snapshot sees (a snapshot is unaffected by later or uncommitted writes; a committed write is read;
    a committed delete hides exactly what its transaction saw); what garbage collection keeps, and which rows it wrongly drops.
  \<^item> \<open>Txn\<close>: the transaction manager, with the handles in an explicit heap. Reachable states as an inductive relation
    over all calls; agreement of registry, active list and handles; the exact condition and outcome of
    COMMIT; equivalence of the optimistic validation against the pruned history with a check against the whole
    commit history; savepoints; two-phase commit.
  \<^item> \<open>Bytes\<close> and \<open>Crc\<close>: little-endian fields and the checksum of the log. The table-driven routine
    equals the bitwise CRC-32, and the checksum detects a burst of four bytes.
  \<^item> \<open>Wal\<close>, \<open>WalLog\<close>, \<open>WalProps\<close>: the log. \<open>Wal\<close> has the record format and the operations on a map from segment numbers to files;
    \<open>WalLog\<close> relates a handle and its files to an abstract sequence of entries (\<open>wal_abs\<close>), through the interface \<open>record_codec\<close>
    of the record format; \<open>WalProps\<close> proves append, replay, torn-tail repair, reopening and
    checkpoints correct against it for every outcome of the system calls, and what a failed write or sync does.
  \<^item> \<open>Recovery\<close>, \<open>RecoveryProps\<close>: analysis, registration, redo and the recovery checkpoint; recovery restores
    exactly the writes that committed transactions logged since the last checkpoint, in log order, and a checkpoint leaves the next recovery nothing to do.
  \<^item> \<open>Btree\<close>, \<open>BtreeOrder\<close>, \<open>BtreeInv\<close>, \<open>BtreeScan\<close>, \<open>BtreeKeys\<close>, \<open>BtreeFile\<close>, \<open>BtreeProps\<close>: the tree index.
    Definitions, with the lengths of the arrays of an internal node and the width of its count; the order of its keys;
    the invariant and its preservation by splits and deletes, and the map a tree represents (interface \<open>sorted_index\<close>); cursors; composite keys; the file format; the properties.
  \<^item> \<open>HashIndex\<close>, \<open>HashProbe\<close>, \<open>HashTable\<close>, \<open>HashProps\<close>: the hash index with linear probing and tombstones, for every hash
    function. Definitions; when probing ends; the table as a map, with resizing; the properties.
  \<^item> \<open>IndexManager\<close>, \<open>IndexProps\<close>: the index manager over both indexes and over wrapped indexes given by
    callbacks. The interface \<open>point_index\<close> is interpreted on the tree and on the hash table.
  \<^item> \<open>Crdt\<close>, \<open>CrdtTree\<close>, \<open>CrdtProps\<close>: the replicated set. The tree is a function of the records it holds, so replicas
    converge and root hashes identify the contents; ties are the exception.
  \<^item> This theory: the property that spans log, recovery, transactions and versions.

  \<^bold>\<open>Bounds, fuel and termination.\<close>
  No definition uses fuel. Loops are structural recursion or functions with a termination proof,
  except the probe loops of the hash index, which can run for ever in the code: they are partial functions
  with result \<^const>\<open>None\<close>, and \<open>HashProps\<close> proves exactly when they return. The hash
  index is assumed to have at most \<open>2 ^ 60\<close> slots, which a 64-bit address space cannot
  exceed; the map refinement of the tree is for keys of at most 236 bytes, because a longer key can be refused
  (this is a property too), and for a fanout of at most 65534: beyond it the \<open>uint16_t\<close> count of an
  internal node can wrap, and near \<open>2 ^ 32\<close> the lengths of its arrays do, where the model has no result. The counters of the version store
  are 32-bit words and exact below \<open>2 ^ 31\<close>; the number of replayed log records is not bounded in the model, that is,
  a log is assumed to have fewer than \<open>2 ^ 31\<close> records. Log paths are assumed to fit the path buffer. Counters that
  would wrap only after \<open>2 ^ 64\<close> operations are kept as words; the properties that need it say that they have not wrapped.

  \<^bold>\<open>Hypotheses on code outside the repository.\<close>
  The digest of the replicated set (SHA-384) is a function; only the comparison of root hashes assumes anything of it: 48
  bytes of output and no collision among the hashed inputs at hand. \<^verbatim>\<open>qsort\<close> in the bulk load of the index manager is a
  parameter. Callbacks of wrapped indexes and of transaction resources are parameters with arbitrary results.

  \<^bold>\<open>Not modelled.\<close>
  The carry-less multiplication variant of the checksum, which is written in vendor intrinsics; the save and load
  functions of the hash index, which copy raw slot memory with pointers and padding; releasing memory.
  Outside the core: the query front ends and their execution, the vector, graph,
  text and time-series engines, whose results are defined in floating point; network servers,
  consensus and cluster management, which need a model of several processes and an unreliable network;
  numerical kernels, device code, language bindings and tools. They are parts of the repository of which the
  core is independent.
\<close>

section \<open>Durability across components\<close>

definition log_writes :: "wal_entry list \<Rightarrow> (u64 \<times> mvcc_op) list" where
  "log_writes log = map (\<lambda>e. (entry_txn e, entry_write e)) (filter is_mutation log)"

lemma deletes_ordered_part:
  assumes "deletes_ordered (log_writes log)"
  shows "deletes_ordered (committed_writes (log_from c (take k log)))"
proof -
  let ?R = "\<lambda>a b. is_mdelete (entry_write b) \<and> op_target (entry_write a) = op_target (entry_write b) \<longrightarrow> entry_txn a \<le> entry_txn b"
  let ?C = "committed_in (log_from c (take k log))"
  have "sorted_wrt ?R (filter is_mutation log)"
    using assms by (simp add: deletes_ordered_def log_writes_def sorted_wrt_map)
  moreover have "filter is_mutation log = filter is_mutation (take k log) @ filter is_mutation (drop k log)"
    by (metis append_take_drop_id filter_append)
  ultimately have "sorted_wrt ?R (filter is_mutation (take k log))" by (simp add: sorted_wrt_append)
  then have "sorted_wrt ?R (filter (\<lambda>e. c \<le> entry_lsn e \<and> ?C (entry_txn e)) (filter is_mutation (take k log)))"
    by (rule sorted_wrt_filter)
  then show ?thesis
    by (simp add: deletes_ordered_def committed_writes_def sorted_wrt_map filter_filter conj_ac)
qed

lemma begin_reads:
  assumes "ok_handle env" "ok_active env"
  shows "\<exists>p m2. qihse_txn_begin env m lvl = (Some p, m2) \<and> qihse_txn_get_snapshot m2 p = next_txn_id m - 1 \<and>
    qihse_txn_is_committed m2 = qihse_txn_is_committed m"
  using assms
  by (simp add: begin_eq begun_def qihse_txn_get_snapshot_def new_txn_def qihse_txn_is_committed_def registry_find_def fun_eq_iff)


lemma recover_and_begin:
  assumes "wal_abs w fs log" "seg_fd w" "\<not> writer_failed w" "io_reads io" "env_ok env"
    and "qihse_txn_manager_create a b c = Some m" "\<forall>e \<in> set log. entry_txn e \<noteq> UINT64_MAX"
    and "deletes_ordered (committed_writes (log_from (last_checkpoint_lsn w) log))" "ok_handle env2" "ok_active env2"
  shows "\<exists>rec' m' st' p m2.
    qihse_recovery_replay env io rec w fs m (mvcc_fresh n) = Some (0, rec', w, fs, m', st') \<and>
    qihse_txn_begin env2 m' lvl = (Some p, m2) \<and>
    (\<forall>e k. k \<noteq> [] \<and> length k < QIHSE_MVCC_MAX_KEY \<longrightarrow>
       qihse_mvcc_read st' e (Some k) (qihse_txn_get_snapshot m2 p) (Some (qihse_txn_is_committed m2)) =
       kv_run (committed_writes (log_from (last_checkpoint_lsn w) log)) e k)"
proof -
  have ids: "\<forall>e \<in> set (log_from (last_checkpoint_lsn w) log). entry_txn e \<noteq> UINT64_MAX" using assms(7) by simp
  obtain rec' m' st' where r: "qihse_recovery_replay env io rec w fs m (mvcc_fresh n) = Some (0, rec', w, fs, m', st')"
    "\<forall>e k. k \<noteq> [] \<and> length k < QIHSE_MVCC_MAX_KEY \<longrightarrow>
       qihse_mvcc_read st' e (Some k) (next_txn_id m' - 1) (Some (qihse_txn_is_committed m')) =
       kv_run (committed_writes (log_from (last_checkpoint_lsn w) log)) e k"
    using recover_reads [OF assms(1-6) ids assms(8)] by blast
  obtain p m2 where "qihse_txn_begin env2 m' lvl = (Some p, m2)" "qihse_txn_get_snapshot m2 p = next_txn_id m' - 1"
    "qihse_txn_is_committed m2 = qihse_txn_is_committed m'"
    using begin_reads [OF assms(9,10)] by blast
  with r show ?thesis by (intro exI [of _ rec'] exI [of _ m'] exI [of _ st'] exI [of _ p] exI [of _ m2]) simp
qed

text \<open>
  C2: committed work logged since the last checkpoint survives a crash, and nothing else does. A crash cuts
  any number of bytes off the newest segment of the log. Either what is left ends in a complete header without
  its payload and opening refuses, leaving the files alone; or opening, recovery into a new manager and store, and
  the begin of a new transaction all succeed, and this transaction reads, for every nonempty key of fewer than 256
  bytes, exactly the state that the transactions committed in the surviving prefix leave, counting
  their mutations from the last checkpoint in that prefix on. No delete in the log is numbered before an
  earlier writer of its key (\<open>deletes_ordered\<close>), and I/O and allocations succeed. The empty key is
  excluded because recovery loses it.
\<close>
theorem crash_keeps_committed_state:
  assumes "wal_abs w fs log" "last_lsn 0 log \<noteq> UINT64_MAX" "d \<le> length (file_bytes fs (newest fs))"
    and "io_opens io" "io_repairs io'" "io_reads io2" "env_ok env" "ok_handle env2" "ok_active env2"
    and "qihse_txn_manager_create a b c = Some m"
    and "\<forall>e \<in> set log. entry_txn e \<noteq> UINT64_MAX" "deletes_ordered (log_writes log)"
  shows "\<exists>k \<le> length log.
    (\<forall>j \<le> length log. length (log_bytes (take j log)) + d \<le> log_size fs \<longleftrightarrow> j \<le> k) \<and>
    (if log_size fs - d - length (log_bytes (take k log)) < QIHSE_WAL_RECORD_HEADER_SIZE
     then \<exists>w' fs' rec' m' st' p m2.
       qihse_wal_create io io' (crash fs (newest fs) d) sz dur = (Some w', fs') \<and>
       qihse_recovery_replay env io2 rec w' fs' m (mvcc_fresh n) = Some (0, rec', w', fs', m', st') \<and>
       qihse_txn_begin env2 m' lvl = (Some p, m2) \<and>
       (\<forall>e key. key \<noteq> [] \<and> length key < QIHSE_MVCC_MAX_KEY \<longrightarrow>
          qihse_mvcc_read st' e (Some key) (qihse_txn_get_snapshot m2 p) (Some (qihse_txn_is_committed m2)) =
          kv_run (committed_writes (log_from (checkpoint_of 0 (take k log)) (take k log))) e key)
     else qihse_wal_create io io' (crash fs (newest fs) d) sz dur = (None, crash fs (newest fs) d))"
proof -
  obtain k where k: "k \<le> length log"
    "\<forall>j \<le> length log. length (log_bytes (take j log)) + d \<le> log_size fs \<longleftrightarrow> j \<le> k"
    "if log_size fs - d - length (log_bytes (take k log)) < QIHSE_WAL_RECORD_HEADER_SIZE
     then \<exists>w' fs'. qihse_wal_create io io' (crash fs (newest fs) d) sz dur = (Some w', fs') \<and>
            wal_abs w' fs' (take k log) \<and> next_lsn w' = last_lsn 0 (take k log) + 1 \<and>
            last_checkpoint_lsn w' = checkpoint_of 0 (take k log) \<and> seg_fd w' \<and> \<not> writer_failed w'
     else qihse_wal_create io io' (crash fs (newest fs) d) sz dur = (None, crash fs (newest fs) d)"
    using reopen_after_crash [OF assms(1,2,4,5,3), of sz dur] by blast
  have ids: "\<forall>e \<in> set (take k log). entry_txn e \<noteq> UINT64_MAX" using assms(11) by (meson in_set_takeD)
  show ?thesis
  proof (intro exI [of _ k] conjI k(1,2), cases "log_size fs - d - length (log_bytes (take k log)) < QIHSE_WAL_RECORD_HEADER_SIZE")
    case True
    then obtain w' fs' where w': "qihse_wal_create io io' (crash fs (newest fs) d) sz dur = (Some w', fs')"
      "wal_abs w' fs' (take k log)" "seg_fd w'" "\<not> writer_failed w'" "last_checkpoint_lsn w' = checkpoint_of 0 (take k log)"
      using k(3) unfolding if_P [OF True] by blast
    from recover_and_begin [OF w'(2-4) assms(6,7,10) ids deletes_ordered_part [OF assms(12)] assms(8,9)] w'(1,5)
    show "if log_size fs - d - length (log_bytes (take k log)) < QIHSE_WAL_RECORD_HEADER_SIZE
     then \<exists>w' fs' rec' m' st' p m2.
       qihse_wal_create io io' (crash fs (newest fs) d) sz dur = (Some w', fs') \<and>
       qihse_recovery_replay env io2 rec w' fs' m (mvcc_fresh n) = Some (0, rec', w', fs', m', st') \<and>
       qihse_txn_begin env2 m' lvl = (Some p, m2) \<and>
       (\<forall>e key. key \<noteq> [] \<and> length key < QIHSE_MVCC_MAX_KEY \<longrightarrow>
          qihse_mvcc_read st' e (Some key) (qihse_txn_get_snapshot m2 p) (Some (qihse_txn_is_committed m2)) =
          kv_run (committed_writes (log_from (checkpoint_of 0 (take k log)) (take k log))) e key)
     else qihse_wal_create io io' (crash fs (newest fs) d) sz dur = (None, crash fs (newest fs) d)"
      unfolding if_P [OF True] by metis
  qed (use k(3) in simp)
qed


theorem crash_keeps_committed_state_witness:
  "\<exists>m w fs rec' m' st' p m2. qihse_txn_manager_create True True True = Some m \<and>
     qihse_wal_create io_good io_good (crash (demo_log_fs [put_entry, commit_entry]) 0 0) 0 DURABILITY_FDATASYNC = (Some w, fs) \<and>
     qihse_recovery_replay demo_env io_good demo_rec w fs m (mvcc_fresh 8) = Some (0, rec', w, fs, m', st') \<and>
     qihse_txn_begin (register_env demo_env 0) m' ISO_SERIALIZABLE = (Some p, m2) \<and>
     qihse_mvcc_read st' 1 (Some [1, 2]) (qihse_txn_get_snapshot m2 p) (Some (qihse_txn_is_committed m2)) = Some [3]"
proof -
  let ?es = "[put_entry, commit_entry]"
  let ?fs = "demo_log_fs ?es"
  obtain m where m: "qihse_txn_manager_create True True True = Some m" by (simp add: qihse_txn_manager_create_def)
  have new: "newest ?fs = 0" by (simp add: newest_def segments_def demo_log_fs_def)
  have size: "log_size ?fs = length (log_bytes ?es)" by (rule log_size_abs [OF demo_logs(1)]) simp
  have ck: "checkpoint_of 0 ?es = 0"
    using demo_entry_fields(7,9) unfolding entry_op_def by (simp add: wal_ops)
  have ok: "ok_handle (register_env demo_env 0)" "ok_active (register_env demo_env 0)" by (simp_all add: demo_env_def)
  have pre: "last_lsn 0 ?es \<noteq> UINT64_MAX" "\<forall>e \<in> set ?es. entry_txn e \<noteq> UINT64_MAX" "deletes_ordered (log_writes ?es)"
    by (simp_all add: UINT64_MAX_def deletes_ordered_def log_writes_def is_mutation_def wal_ops)
  obtain k where k: "k \<le> 2" "\<forall>j \<le> 2. length (log_bytes (take j ?es)) + 0 \<le> log_size ?fs \<longleftrightarrow> j \<le> k"
    "if log_size ?fs - 0 - length (log_bytes (take k ?es)) < QIHSE_WAL_RECORD_HEADER_SIZE
     then \<exists>w' fs' rec' m' st' p m2.
       qihse_wal_create io_good io_good (crash ?fs (newest ?fs) 0) 0 DURABILITY_FDATASYNC = (Some w', fs') \<and>
       qihse_recovery_replay demo_env io_good demo_rec w' fs' m (mvcc_fresh 8) = Some (0, rec', w', fs', m', st') \<and>
       qihse_txn_begin (register_env demo_env 0) m' ISO_SERIALIZABLE = (Some p, m2) \<and>
       (\<forall>e key. key \<noteq> [] \<and> length key < QIHSE_MVCC_MAX_KEY \<longrightarrow>
          qihse_mvcc_read st' e (Some key) (qihse_txn_get_snapshot m2 p) (Some (qihse_txn_is_committed m2)) =
          kv_run (committed_writes (log_from (checkpoint_of 0 (take k ?es)) (take k ?es))) e key)
     else qihse_wal_create io_good io_good (crash ?fs (newest ?fs) 0) 0 DURABILITY_FDATASYNC = (None, crash ?fs (newest ?fs) 0)"
    using crash_keeps_committed_state [OF demo_logs(1) pre(1) _ io_good(3,4,1) demo_env_ok ok m pre(2,3),
        of 0 0 DURABILITY_FDATASYNC demo_rec 8 ISO_SERIALIZABLE]
    by (metis le0 length_Cons list.size(3) numeral_2_eq_2)
  have "k = 2" using k(1) k(2) [rule_format, of 2] size by simp
  with k(3) m new ck size show ?thesis
    by (auto simp: QIHSE_WAL_RECORD_HEADER_SIZE_def QIHSE_MVCC_MAX_KEY_def demo_committed kv_run_def value_bytes_def opt_bytes_def)
qed

end
